(* ===== verification/FSU_Prelude.thy ===== *)
theory FSU_Prelude
  imports Main "HOL-Library.Word" "HOL-Library.Monad_Syntax"
begin

unbundle bit_operations_syntax

text \<open>
  Shared vocabulary of the development: C strings and C buffers, the option monad for
  undefined behaviour, and the generic lemmas on lists and options that the component
  theories use.

  A C string is modelled in two ways. As a \<^emph>\<open>value\<close> it is an Isabelle
  \<^typ>\<open>string\<close> without NUL characters. Where the code works inside a
  buffer with pointers, the buffer is a list of characters that contains its NUL
  terminators, a pointer is an index into it, and an access outside the buffer is
  undefined behaviour, the value \<^const>\<open>None\<close>.
\<close>

named_theorems cbuf \<open>reads and writes of C buffers\<close>

type_synonym cbuffer = string
type_synonym byte = "8 word"
type_synonym size_t = "64 word"
type_synonym errno = int

abbreviation NUL :: char where
  "NUL \<equiv> CHR 0x00"

abbreviation "EBADF \<equiv> (9 :: errno)"
abbreviation "ENOMEM \<equiv> (12 :: errno)"
abbreviation "EINVAL \<equiv> (22 :: errno)"

section \<open>C strings\<close>

text \<open>The characters \<open>isspace\<close> accepts in the C locale.\<close>

definition isspace_c :: "char \<Rightarrow> bool" where
  "isspace_c c \<longleftrightarrow> c \<in> {CHR '' '', CHR 0x09, CHR 0x0A, CHR 0x0B, CHR 0x0C, CHR 0x0D}"

lemma isspace_c_NUL [simp]: "\<not> isspace_c NUL"
  by (simp add: isspace_c_def)

definition isdigit_c :: "char \<Rightarrow> bool" where
  "isdigit_c c \<longleftrightarrow> c \<in> set ''0123456789''"

text \<open>The string a pointer into a buffer denotes: the characters up to the first NUL.\<close>

definition cstr_at :: "cbuffer \<Rightarrow> nat \<Rightarrow> string" where
  "cstr_at b i = takeWhile (\<lambda>c. c \<noteq> NUL) (drop i b)"

lemma takeWhile_until:
  "x \<notin> set xs \<Longrightarrow> takeWhile (\<lambda>c. c \<noteq> x) (xs @ x # ys) = xs"
  by (induction xs) auto

lemma cstr_at_app: "NUL \<notin> set s \<Longrightarrow> cstr_at (pre @ s @ NUL # post) (length pre) = s"
  by (simp add: cstr_at_def takeWhile_until)

section \<open>Buffers\<close>

definition rd :: "'a list \<Rightarrow> nat \<Rightarrow> 'a option" where
  "rd b i = (if i < length b then Some (b ! i) else None)"

definition wr :: "'a list \<Rightarrow> nat \<Rightarrow> 'a \<Rightarrow> 'a list option" where
  "wr b i c = (if i < length b then Some (b[i := c]) else None)"

lemma rd_eq_Some [cbuf]: "rd b i = Some c \<longleftrightarrow> i < length b \<and> b ! i = c"
  by (simp add: rd_def)

lemma wr_eq_Some [cbuf]: "wr b i c = Some b' \<longleftrightarrow> i < length b \<and> b' = b[i := c]"
  by (auto simp: wr_def)

lemma wr_length: "wr b i c = Some b' \<Longrightarrow> length b' = length b"
  by (auto simp: wr_def split: if_splits)

lemma rd_app_here [simp]: "i = length pre \<Longrightarrow> rd (pre @ c # post) i = Some c"
  by (simp add: rd_def)

lemma rd_app_next [simp]: "i = Suc (length pre) \<Longrightarrow> rd (pre @ c # d # post) i = Some d"
  by (simp add: rd_def nth_append)

lemma wr_app_here [simp]:
  "i = length pre \<Longrightarrow> wr (pre @ c # post) i d = Some (pre @ d # post)"
  by (simp add: wr_def)

lemma rd_drop: "drop i b = c # cs \<Longrightarrow> rd b i = Some c"
  by (metis drop_eq_Nil list.distinct(1) not_le nth_Cons_0 nth_drop rd_def add.right_neutral
      le_eq_less_or_eq)

lemma drop_Suc_of_drop: "drop i b = c # cs \<Longrightarrow> drop (Suc i) b = cs"
  by (metis drop_Suc list.sel(3) tl_drop)

text \<open>\<open>memmove\<close> of a string and its NUL into a buffer.\<close>

definition put_str :: "cbuffer \<Rightarrow> nat \<Rightarrow> string \<Rightarrow> cbuffer option" where
  "put_str b i s =
     (if i + length s < length b then Some (take i b @ s @ NUL # drop (i + length s + 1) b) else None)"

section \<open>Machine integers\<close>

lemma unat_of_nat_small:
  "n < 2 ^ LENGTH('a) \<Longrightarrow> unat (of_nat n :: 'a::len word) = n"
  by (simp add: unat_of_nat)

lemma unat_sub_le: "y \<le> x \<Longrightarrow> unat (x - y) = unat x - unat y" for x y :: "'a::len word"
  by (rule unat_sub)

text \<open>The conversion of a small unsigned number to a 32-bit \<open>int\<close>.\<close>

lemma sint_ucast_small:
  fixes x :: "64 word"
  assumes "unat x < 2 ^ 31"
  shows "sint (ucast x :: 32 word) = int (unat x)"
proof -
  have "int (unat x) < int (2 ^ 31)" using assms by (simp only: of_nat_less_iff)
  then have u: "uint x < 2 ^ 31" by simp
  have "sint (ucast x :: 32 word) = signed_take_bit 31 (take_bit 32 (uint x))"
    by (simp add: sint_uint unsigned_ucast_eq)
  also have "\<dots> = int (unat x)"
    using u by (simp add: signed_take_bit_eq_if_positive take_bit_int_eq_self bit_iff_odd)
  finally show ?thesis .
qed

lemma sint_eq_unat_small: "unat x < 2 ^ 63 \<Longrightarrow> sint x = int (unat x)" for x :: "64 word"
proof -
  assume "unat x < 2 ^ 63"
  then have "int (unat x) < int (2 ^ 63)" by (simp only: of_nat_less_iff)
  then have "uint x < 2 ^ 63" by simp
  then show ?thesis by (simp add: sint_uint signed_take_bit_eq_if_positive take_bit_int_eq_self bit_iff_odd)
qed

section \<open>Errors as values\<close>

definition ebind :: "'e + 'a \<Rightarrow> ('a \<Rightarrow> 'e + 'b) \<Rightarrow> 'e + 'b" where
  "ebind m f = (case m of Inl e \<Rightarrow> Inl e | Inr x \<Rightarrow> f x)"

lemma ebind_simps [simp]: "ebind (Inl e) f = Inl e" "ebind (Inr x) f = f x"
  by (simp_all add: ebind_def)

lemma ebind_cong [fundef_cong]:
  "m = m' \<Longrightarrow> (\<And>x. m' = Inr x \<Longrightarrow> f x = g x) \<Longrightarrow> ebind m f = ebind m' g"
  by (cases m') simp_all

lemma ebind_eq_Inr: "ebind m f = Inr y \<longleftrightarrow> (\<exists>x. m = Inr x \<and> f x = Inr y)"
  by (cases m) simp_all

lemma ebind_Inr [simp]: "ebind m Inr = m"
  by (cases m) simp_all

lemma ebind_assoc: "ebind (ebind m f) g = ebind m (\<lambda>x. ebind (f x) g)"
  by (cases m) simp_all

text \<open>\<open>x\<close> in front of a list that may have failed.\<close>

definition econs :: "'a \<Rightarrow> 'e + 'a list \<Rightarrow> 'e + 'a list" where
  "econs x m = ebind m (\<lambda>xs. Inr (x # xs))"

lemma econs_simps [simp]: "econs x (Inr xs) = Inr (x # xs)" "econs x (Inl e) = Inl e"
  by (simp_all add: econs_def)

end
