(* ===== verification/Str2arg.thy ===== *)
theory Str2arg
  imports FSU_Prelude
begin

text \<open>
  \<^verbatim>\<open>src/lib/fsu_str2arg.c\<close>: splitting an option string into an argument vector.
  \<open>fsu_str2arg\<close> works in place: it compacts the string with a write pointer \<open>p\<close>
  that never overtakes its read pointer \<open>lp\<close>, ends every word with a NUL and stores
  the words' addresses in \<open>argv\<close>. \<open>fsu_str2argc\<close> only counts.

  The string is a buffer, the two pointers are indexes into it, \<open>argv\<close> is a list of
  slots (\<^const>\<open>None\<close> is the null pointer); any access outside the buffer or the
  vector makes the function return \<^const>\<open>None\<close>. The pure tokeniser \<open>toks\<close> is the
  specification both are compared with.
\<close>

section \<open>The code\<close>

record s2a =
  s_buf :: cbuffer
  s_lp :: nat
  s_p :: nat
  s_argc :: nat
  s_argv :: "nat option list"
  s_delim :: char
  s_inquote :: bool

definition is_quote :: "char \<Rightarrow> bool" where
  "is_quote c \<longleftrightarrow> c = CHR 0x22 \<or> c = CHR 0x27"

text \<open>\<open>while (isspace((int)lp[1])) ++lp;\<close>\<close>

function s2a_skip :: "cbuffer \<Rightarrow> nat \<Rightarrow> nat option" where
  "s2a_skip b l =
     (case rd b (Suc l) of
        None \<Rightarrow> None
      | Some c \<Rightarrow> if isspace_c c then s2a_skip b (Suc l) else Some l)"
  by pat_completeness auto
termination
  by (relation "measure (\<lambda>(b, l). length b - l)") (auto simp: cbuf)

declare s2a_skip.simps [simp del]

text \<open>The body of the loop, up to the \<open>++lp\<close> of the \<open>for\<close>.\<close>

definition s2a_body :: "s2a \<Rightarrow> char \<Rightarrow> s2a option" where
  "s2a_body s c =
     (if c = CHR 0x5C then do {
        d \<leftarrow> rd (s_buf s) (Suc (s_lp s));
        b \<leftarrow> wr (s_buf s) (s_p s) d;
        Some (s\<lparr>s_buf := b, s_p := Suc (s_p s), s_lp := Suc (s_lp s)\<rparr>)
      }
      else if s_inquote s \<and> c = s_delim s then Some (s\<lparr>s_inquote := False\<rparr>)
      else if is_quote c then Some (s\<lparr>s_delim := c, s_inquote := True\<rparr>)
      else if isspace_c c \<and> \<not> s_inquote s then do {
        b \<leftarrow> wr (s_buf s) (s_p s) NUL;
        l \<leftarrow> s2a_skip b (s_lp s);
        d \<leftarrow> rd b (Suc l);
        if d \<noteq> NUL then do {
          v \<leftarrow> wr (s_argv s) (s_argc s) (Some (Suc (s_p s)));
          Some (s\<lparr>s_buf := b, s_p := Suc (s_p s), s_lp := l,
                   s_argv := v, s_argc := Suc (s_argc s)\<rparr>)
        }
        else Some (s\<lparr>s_buf := b, s_p := Suc (s_p s), s_lp := l\<rparr>)
      }
      else do {
        b \<leftarrow> wr (s_buf s) (s_p s) c;
        Some (s\<lparr>s_buf := b, s_p := Suc (s_p s)\<rparr>)
      })"

lemma s2a_skip_ge: "s2a_skip b l = Some l' \<Longrightarrow> l \<le> l'"
proof (induction b l rule: s2a_skip.induct)
  case (1 b l)
  then show ?case
    by (auto simp: s2a_skip.simps [of b l] split: option.splits if_splits)
qed

lemma s2a_body_progress:
  "s2a_body s c = Some s' \<Longrightarrow> s_lp s \<le> s_lp s' \<and> length (s_buf s') = length (s_buf s)"
  by (auto simp: s2a_body_def bind_eq_Some_conv cbuf dest: s2a_skip_ge split: if_splits)

function s2a_loop :: "int \<Rightarrow> s2a \<Rightarrow> s2a option" where
  "s2a_loop vsize s =
     (case rd (s_buf s) (s_lp s) of
        None \<Rightarrow> None
      | Some c \<Rightarrow>
          if c = NUL \<or> \<not> int (s_argc s) < vsize then Some s
          else (case s2a_body s c of
                  None \<Rightarrow> None
                | Some s' \<Rightarrow> s2a_loop vsize (s'\<lparr>s_lp := Suc (s_lp s')\<rparr>)))"
  by pat_completeness auto
termination
  by (relation "measure (\<lambda>(v, s). length (s_buf s) - s_lp s)")
     (auto simp: cbuf dest!: s2a_body_progress)

declare s2a_loop.simps [simp del]

text \<open>
  The result is the state after the two final stores: \<open>s_argc\<close>, \<open>s_argv\<close> and
  \<open>s_buf\<close> are what the caller sees, \<open>s_inquote\<close> tells whether the warning about an
  unbalanced quote is printed. \<open>argv[0]\<close> is returned.
\<close>

definition fsu_str2arg :: "cbuffer \<Rightarrow> nat option list \<Rightarrow> int \<Rightarrow> s2a option" where
  "fsu_str2arg str argv vsize = do {
     v \<leftarrow> wr argv 0 (Some 0);
     s \<leftarrow> s2a_loop vsize \<lparr>s_buf = str, s_lp = 0, s_p = 0, s_argc = 1, s_argv = v,
                         s_delim = NUL, s_inquote = False\<rparr>;
     v' \<leftarrow> wr (s_argv s) (s_argc s) None;
     b \<leftarrow> wr (s_buf s) (s_p s) NUL;
     Some (s\<lparr>s_argv := v', s_buf := b\<rparr>)
   }"

text \<open>
  \<open>fsu_str2argc\<close>: the same walk without stores and without the backslash case. Its
  pointer \<open>p\<close> is written and never read.
\<close>

function s2c_loop :: "cbuffer \<Rightarrow> nat \<Rightarrow> char \<Rightarrow> bool \<Rightarrow> nat \<Rightarrow> nat option" where
  "s2c_loop b l delim inq argc =
     (case rd b l of
        None \<Rightarrow> None
      | Some c \<Rightarrow>
          if c = NUL then Some argc
          else if inq \<and> c = delim then s2c_loop b (Suc l) delim False argc
          else if is_quote c then s2c_loop b (Suc l) c True argc
          else if isspace_c c \<and> \<not> inq then
            (case s2a_skip b l of
               None \<Rightarrow> None
             | Some l' \<Rightarrow>
                 (case rd b (Suc l') of
                    None \<Rightarrow> None
                  | Some d \<Rightarrow>
                      s2c_loop b (Suc l') delim inq (if d \<noteq> NUL then Suc argc else argc)))
          else s2c_loop b (Suc l) delim inq argc)"
  by pat_completeness auto
termination
  by (relation "measure (\<lambda>(b, l, d, i, a). length b - l)") (auto simp: cbuf dest!: s2a_skip_ge)

declare s2c_loop.simps [simp del]

definition fsu_str2argc :: "cbuffer \<Rightarrow> nat option" where
  "fsu_str2argc str = s2c_loop str 0 NUL False 1"

section \<open>The specification: a pure tokeniser\<close>

text \<open>
  \<open>toks q w cs\<close>: the words of \<open>cs\<close>, when \<open>w\<close> is what has been read of the current
  word and \<open>q\<close> is the open quote. A backslash protects the next character; a quote of
  the other kind inside a quoted part replaces the open quote, as in the code; white space
  at the end starts no word, white space at the beginning ends an empty one.
\<close>

function toks :: "char option \<Rightarrow> string \<Rightarrow> string \<Rightarrow> string list" where
  "toks q w [] = [w]"
| "toks q w (c # cs) =
     (if c = CHR 0x5C then (case cs of [] \<Rightarrow> [w] | d # ds \<Rightarrow> toks q (w @ [d]) ds)
      else if q = Some c then toks None w cs
      else if is_quote c then toks (Some c) w cs
      else if isspace_c c \<and> q = None then
        (if dropWhile isspace_c cs = [] then [w]
         else w # toks None [] (dropWhile isspace_c cs))
      else toks q (w @ [c]) cs)"
  by pat_completeness auto
termination
  by (relation "measure (\<lambda>(q, w, cs). length cs)") (auto simp: less_Suc_eq_le length_dropWhile_le)

text \<open>Every backslash of the string is followed by a character it protects.\<close>

fun escapes_ok :: "string \<Rightarrow> bool" where
  "escapes_ok [] = True"
| "escapes_ok (c # cs) =
     (if c = CHR 0x5C then (case cs of [] \<Rightarrow> False | d # ds \<Rightarrow> escapes_ok ds) else escapes_ok cs)"

text \<open>The words laid out in memory, each with its NUL, and their addresses.\<close>

definition flat :: "string list \<Rightarrow> string" where
  "flat ts = concat (map (\<lambda>t. t @ [NUL]) ts)"

fun offs :: "nat \<Rightarrow> string list \<Rightarrow> nat list" where
  "offs b [] = []"
| "offs b (t # ts) = b # offs (b + Suc (length t)) ts"


section \<open>Lemmas\<close>

lemma flat_Nil [simp]: "flat [] = []"
  by (simp add: flat_def)

lemma flat_Cons [simp]: "flat (t # ts) = t @ NUL # flat ts"
  by (simp add: flat_def)

lemma toks_nonempty [simp]: "toks q w cs \<noteq> []"
  by (induction q w cs rule: toks.induct) (auto split: list.splits)

lemma length_offs [simp]: "length (offs b ts) = length ts"
  by (induction ts arbitrary: b) auto

text \<open>A store at the write pointer: it either overwrites consumed input or the character
  just read.\<close>

lemma wr_junk:
  "wr (out @ junk @ c # cs) (length out) x = Some ((out @ [x]) @ (tl (junk @ [c])) @ cs)"
  by (cases junk) (simp_all add: wr_def list_update_append)

lemma s2a_skip_spec:
  "NUL \<notin> set cs \<Longrightarrow> l = length pre \<Longrightarrow>
   s2a_skip (pre @ c # cs @ NUL # rest) l =
     Some (l + length (takeWhile isspace_c cs))"
proof (induction cs arbitrary: l pre c)
  case Nil
  then show ?case by (subst s2a_skip.simps) simp
next
  case (Cons a cs)
  have "s2a_skip ((pre @ [c]) @ a # cs @ NUL # rest) (Suc l) =
      Some (Suc l + length (takeWhile isspace_c cs))"
    using Cons.prems by (intro Cons.IH) auto
  then show ?case
    using Cons.prems by (subst s2a_skip.simps) simp
qed

lemma escapes_ok_dropWhile: "escapes_ok cs \<Longrightarrow> escapes_ok (dropWhile isspace_c cs)"
  by (induction cs) (auto simp: isspace_c_def)

lemma s2a_loop_step:
  "rd (s_buf s) (s_lp s) = Some c \<Longrightarrow> c \<noteq> NUL \<Longrightarrow> int (s_argc s) < vsize \<Longrightarrow>
   s2a_body s c = Some s' \<Longrightarrow>
   s2a_loop vsize s = s2a_loop vsize (s'\<lparr>s_lp := Suc (s_lp s')\<rparr>)"
  by (subst s2a_loop.simps) simp

lemma s2a_loop_NUL:
  "rd (s_buf s) (s_lp s) = Some NUL \<Longrightarrow> s2a_loop vsize s = Some s"
  by (subst s2a_loop.simps) simp

text \<open>
  The loop invariant: the buffer is the finished words \<open>pre\<close>, the current word \<open>w\<close>,
  already consumed input \<open>junk\<close>, the unread input and its NUL; slot \<open>k\<close> holds the
  address of the current word.
\<close>

definition s2a_inv ::
  "s2a \<Rightarrow> char option \<Rightarrow> string \<Rightarrow> string \<Rightarrow> string \<Rightarrow> string \<Rightarrow> string \<Rightarrow> nat option list \<Rightarrow> nat option list \<Rightarrow> bool"
where
  "s2a_inv s q pre w junk cs rest av slots \<longleftrightarrow>
     s_buf s = (pre @ w) @ junk @ cs @ NUL # rest \<and>
     s_p s = length pre + length w \<and>
     s_lp s = length pre + length w + length junk \<and>
     q = (if s_inquote s then Some (s_delim s) else None) \<and>
     s_argc s = Suc (length av) \<and>
     s_argv s = av @ Some (length pre) # slots"

text \<open>What the loop leaves behind when the words \<open>ts\<close> were still to come.\<close>

definition s2a_post :: "s2a \<Rightarrow> string \<Rightarrow> string list \<Rightarrow> nat option list \<Rightarrow> nat option list \<Rightarrow> bool" where
  "s2a_post s pre ts av slots \<longleftrightarrow>
     s_argc s = length av + length ts \<and>
     s_argv s = av @ map Some (offs (length pre) ts) @ drop (length ts - 1) slots \<and>
     (\<exists>x post. s_buf s = pre @ x @ post \<and> s_p s = length (pre @ x) \<and> post \<noteq> [] \<and>
        (x @ [NUL] = flat ts \<or> x = flat ts))"

lemma s2a_post_Cons:
  assumes "s2a_post s (pre @ w @ [NUL]) ts (av @ [Some (length pre)]) slots"
    and "ts \<noteq> []"
  shows "s2a_post s pre (w # ts) av (d # slots)"
proof -
  from assms(1) obtain x post where
    x: "s_buf s = (pre @ w @ [NUL]) @ x @ post" "s_p s = length ((pre @ w @ [NUL]) @ x)"
      "post \<noteq> []" "x @ [NUL] = flat ts \<or> x = flat ts"
    unfolding s2a_post_def by blast
  have "s_buf s = pre @ (w @ NUL # x) @ post" "s_p s = length (pre @ (w @ NUL # x))"
    "(w @ NUL # x) @ [NUL] = flat (w # ts) \<or> w @ NUL # x = flat (w # ts)"
    using x by auto
  moreover from assms(2) obtain t us where "ts = t # us" by (cases ts) auto
  ultimately show ?thesis
    using assms(1) x(3) unfolding s2a_post_def
    by (intro conjI exI [of _ "w @ NUL # x"] exI [of _ post]) simp_all
qed

lemma s2a_post_single:
  assumes "s_buf s = (pre @ w) @ post" and "s_p s = length pre + length w" and "post \<noteq> []"
    and "s_argc s = Suc (length av)" and "s_argv s = av @ Some (length pre) # slots"
  shows "s2a_post s pre [w] av slots"
  using assms unfolding s2a_post_def by (intro conjI exI [of _ w] exI [of _ post]) auto

text \<open>
  One step of the loop on a character that is not white space outside quotes keeps the
  invariant: the word grows by what the tokeniser's word grows by.
\<close>

lemma s2a_inv_rd:
  "s2a_inv s q pre w junk (c # cs) rest av slots \<Longrightarrow> rd (s_buf s) (s_lp s) = Some c"
  unfolding s2a_inv_def by (metis append.assoc append_Cons length_append rd_app_here)

lemma s2a_step_escape:
  assumes "s2a_inv s q pre w junk (CHR 0x5C # d # cs) rest av slots"
    and "int (s_argc s) < vsize"
  shows "\<exists>s' junk'. s2a_loop vsize s = s2a_loop vsize s' \<and> s_argc s' = s_argc s \<and>
    s2a_inv s' q pre (w @ [d]) junk' cs rest av slots"
proof -
  define s1 where "s1 = s\<lparr>s_buf := (pre @ w @ [d]) @ (tl (junk @ [CHR 0x5C]) @ [d]) @ cs @ NUL # rest,
    s_p := Suc (s_p s), s_lp := Suc (s_lp s)\<rparr>"
  have "rd (s_buf s) (Suc (s_lp s)) = Some d"
    using assms(1) rd_app_next [of _ "pre @ w @ junk" "CHR 0x5C" d "cs @ NUL # rest"]
    by (simp add: s2a_inv_def add.assoc)
  moreover have "wr (s_buf s) (s_p s) d =
      Some ((pre @ w @ [d]) @ (tl (junk @ [CHR 0x5C]) @ [d]) @ cs @ NUL # rest)"
    using assms(1) wr_junk [of "pre @ w" junk "CHR 0x5C" "d # cs @ NUL # rest" d]
    by (simp add: s2a_inv_def)
  ultimately have "s2a_body s (CHR 0x5C) = Some s1"
    by (simp add: s2a_body_def s1_def)
  with assms have "s2a_loop vsize s = s2a_loop vsize (s1\<lparr>s_lp := Suc (s_lp s1)\<rparr>)"
    by (intro s2a_loop_step) (auto dest: s2a_inv_rd)
  moreover have "s2a_inv (s1\<lparr>s_lp := Suc (s_lp s1)\<rparr>) q pre (w @ [d])
      (tl (junk @ [CHR 0x5C]) @ [d]) cs rest av slots"
    using assms(1) by (simp add: s2a_inv_def s1_def)
  ultimately show ?thesis by (auto simp: s1_def)
qed

lemma s2a_step_plain:
  assumes "s2a_inv s q pre w junk (c # cs) rest av slots" and "int (s_argc s) < vsize"
    and "c \<noteq> NUL" "c \<noteq> CHR 0x5C" "q \<noteq> Some c" "\<not> is_quote c" "\<not> (isspace_c c \<and> q = None)"
  shows "\<exists>s' junk'. s2a_loop vsize s = s2a_loop vsize s' \<and> s_argc s' = s_argc s \<and>
    s2a_inv s' q pre (w @ [c]) junk' cs rest av slots"
proof -
  define s1 where "s1 = s\<lparr>s_buf := (pre @ w @ [c]) @ tl (junk @ [c]) @ cs @ NUL # rest,
    s_p := Suc (s_p s)\<rparr>"
  have "wr (s_buf s) (s_p s) c = Some ((pre @ w @ [c]) @ tl (junk @ [c]) @ cs @ NUL # rest)"
    using assms(1) wr_junk [of "pre @ w" junk c "cs @ NUL # rest" c]
    by (simp add: s2a_inv_def)
  moreover have "\<not> (s_inquote s \<and> c = s_delim s)" "\<not> (isspace_c c \<and> \<not> s_inquote s)"
    using assms by (auto simp: s2a_inv_def split: if_splits)
  ultimately have "s2a_body s c = Some s1"
    using assms(4,6) by (auto simp: s2a_body_def s1_def)
  with assms have "s2a_loop vsize s = s2a_loop vsize (s1\<lparr>s_lp := Suc (s_lp s1)\<rparr>)"
    by (intro s2a_loop_step) (auto dest: s2a_inv_rd)
  moreover have "s2a_inv (s1\<lparr>s_lp := Suc (s_lp s1)\<rparr>) q pre (w @ [c]) (tl (junk @ [c])) cs rest av slots"
    using assms(1) by (simp add: s2a_inv_def s1_def)
  ultimately show ?thesis by (auto simp: s1_def)
qed

lemma s2a_step_quote:
  assumes "s2a_inv s q pre w junk (c # cs) rest av slots" and "int (s_argc s) < vsize"
    and "c \<noteq> NUL" "c \<noteq> CHR 0x5C" "q = Some c \<or> is_quote c"
  shows "\<exists>s' junk'. s2a_loop vsize s = s2a_loop vsize s' \<and> s_argc s' = s_argc s \<and>
    s2a_inv s' (if q = Some c then None else Some c) pre w junk' cs rest av slots"
proof -
  define s1 where "s1 = (if q = Some c then s\<lparr>s_inquote := False\<rparr>
    else s\<lparr>s_delim := c, s_inquote := True\<rparr>)"
  have "s2a_body s c = Some s1"
    using assms by (auto simp: s2a_body_def s1_def s2a_inv_def split: if_splits)
  with assms have "s2a_loop vsize s = s2a_loop vsize (s1\<lparr>s_lp := Suc (s_lp s1)\<rparr>)"
    by (intro s2a_loop_step) (auto dest: s2a_inv_rd)
  moreover have "s2a_inv (s1\<lparr>s_lp := Suc (s_lp s1)\<rparr>) (if q = Some c then None else Some c)
      pre w (junk @ [c]) cs rest av slots"
    using assms(1) by (auto simp: s2a_inv_def s1_def)
  ultimately show ?thesis
    by (intro exI [of _ "s1\<lparr>s_lp := Suc (s_lp s1)\<rparr>"] exI [of _ "junk @ [c]"])
      (auto simp: s1_def)
qed

lemma s2a_space_skip:
  assumes "s2a_inv s None pre w junk (c # cs) rest av slots" and "NUL \<notin> set cs"
  defines "b \<equiv> (pre @ w @ [NUL]) @ tl (junk @ [c]) @ cs @ NUL # rest"
    and "l \<equiv> s_lp s + length (takeWhile isspace_c cs)"
  shows "wr (s_buf s) (s_p s) NUL = Some b"
    and "s2a_skip b (s_lp s) = Some l"
    and "rd b (Suc l) = Some (case dropWhile isspace_c cs of [] \<Rightarrow> NUL | d # ds \<Rightarrow> d)"
proof -
  note inv = assms(1) [unfolded s2a_inv_def]
  show wb: "wr (s_buf s) (s_p s) NUL = Some b"
    using inv wr_junk [of "pre @ w" junk c "cs @ NUL # rest" NUL] by (simp add: b_def)
  obtain y ys where y: "w @ NUL # tl (junk @ [c]) = ys @ [y]"
    by (metis append_butlast_last_id append_is_Nil_conv list.distinct(1))
  then have len: "length w + length junk = length ys"
    by (metis length_Cons length_append length_append_singleton length_tl diff_Suc_1 add_Suc_right
        Suc_inject)
  have b: "b = (pre @ ys) @ y # cs @ NUL # rest"
    unfolding b_def by (metis y append.assoc append_Cons append_Nil)
  have lp: "s_lp s = length (pre @ ys)"
    using inv len by simp
  show "s2a_skip b (s_lp s) = Some l"
    unfolding b l_def by (rule s2a_skip_spec [OF assms(2) lp])
  have "b = (pre @ ys @ y # takeWhile isspace_c cs) @ dropWhile isspace_c cs @ NUL # rest"
    unfolding b by simp
  moreover have "Suc l = length (pre @ ys @ y # takeWhile isspace_c cs)"
    using lp by (simp add: l_def)
  ultimately show "rd b (Suc l) = Some (case dropWhile isspace_c cs of [] \<Rightarrow> NUL | d # ds \<Rightarrow> d)"
    by (cases "dropWhile isspace_c cs") (simp_all only: append_Nil append_Cons rd_app_here list.case)
qed

lemma s2a_step_space_end:
  assumes inv: "s2a_inv s None pre w junk (c # cs) rest av slots" and "int (s_argc s) < vsize"
    and "NUL \<notin> set (c # cs)" "isspace_c c" "dropWhile isspace_c cs = []"
  shows "\<exists>s'. s2a_loop vsize s = Some s' \<and> s2a_post s' pre [w] av slots"
proof -
  let ?b = "(pre @ w @ [NUL]) @ tl (junk @ [c]) @ cs @ NUL # rest"
  let ?l = "s_lp s + length (takeWhile isspace_c cs)"
  define s1 where "s1 = s\<lparr>s_buf := ?b, s_p := Suc (s_p s), s_lp := ?l\<rparr>"
  define s2 where "s2 = s1\<lparr>s_lp := Suc (s_lp s1)\<rparr>"
  have c: "c \<noteq> CHR 0x5C" "\<not> is_quote c"
    using assms(4) by (auto simp: isspace_c_def is_quote_def)
  have ninq: "\<not> s_inquote s" using inv by (auto simp: s2a_inv_def split: if_splits)
  have "rd ?b (Suc ?l) = Some NUL"
    using s2a_space_skip(3) [OF inv] assms(3) unfolding assms(5) by simp
  then have "s2a_body s c = Some s1"
    using c ninq assms(3,4) s2a_space_skip(1,2) [OF inv] by (auto simp: s2a_body_def s1_def)
  then have "s2a_loop vsize s = s2a_loop vsize s2"
    unfolding s2_def using assms by (intro s2a_loop_step) (auto dest: s2a_inv_rd)
  moreover have "rd (s_buf s2) (s_lp s2) = Some NUL"
    using \<open>rd ?b (Suc ?l) = Some NUL\<close> by (simp add: s2_def s1_def)
  moreover have "s2a_post s2 pre [w] av slots"
    using inv unfolding s2a_post_def
    by (intro conjI exI [of _ "w @ [NUL]"] exI [of _ "tl (junk @ [c]) @ cs @ NUL # rest"])
      (simp_all add: s2_def s1_def s2a_inv_def)
  ultimately show ?thesis by (auto simp: s2a_loop_NUL)
qed

lemma s2a_step_space_word:
  assumes inv: "s2a_inv s None pre w junk (c # cs) rest av (d # slots)"
    and "int (s_argc s) < vsize"
    and "NUL \<notin> set (c # cs)" "isspace_c c" "dropWhile isspace_c cs \<noteq> []"
  shows "\<exists>s' junk'. s2a_loop vsize s = s2a_loop vsize s' \<and> s_argc s' = Suc (s_argc s) \<and>
    s2a_inv s' None (pre @ w @ [NUL]) [] junk' (dropWhile isspace_c cs) rest
      (av @ [Some (length pre)]) slots"
proof -
  let ?b = "(pre @ w @ [NUL]) @ tl (junk @ [c]) @ cs @ NUL # rest"
  let ?l = "s_lp s + length (takeWhile isspace_c cs)"
  let ?v = "av @ Some (length pre) # Some (Suc (s_p s)) # slots"
  define s1 where "s1 = s\<lparr>s_buf := ?b, s_p := Suc (s_p s), s_lp := ?l,
    s_argv := ?v, s_argc := Suc (s_argc s)\<rparr>"
  define s2 where "s2 = s1\<lparr>s_lp := Suc (s_lp s1)\<rparr>"
  have c: "c \<noteq> CHR 0x5C" "\<not> is_quote c"
    using assms(4) by (auto simp: isspace_c_def is_quote_def)
  have ninq: "\<not> s_inquote s" using inv by (auto simp: s2a_inv_def split: if_splits)
  obtain e es where e: "dropWhile isspace_c cs = e # es"
    using assms(5) by (cases "dropWhile isspace_c cs") auto
  have "e \<in> set cs" using e by (metis list.set_intros(1) set_dropWhileD)
  then have "e \<noteq> NUL" using assms(3) by auto
  moreover have "rd ?b (Suc ?l) = Some e"
    using s2a_space_skip(3) [OF inv] assms(3) unfolding e by simp
  moreover have "wr (s_argv s) (s_argc s) (Some (Suc (s_p s))) = Some ?v"
    using inv wr_app_here [of _ "av @ [Some (length pre)]" d slots] by (simp add: s2a_inv_def)
  ultimately have "s2a_body s c = Some s1"
    using c ninq assms(3,4) s2a_space_skip(1,2) [OF inv] by (auto simp: s2a_body_def s1_def)
  then have "s2a_loop vsize s = s2a_loop vsize s2"
    unfolding s2_def using assms by (intro s2a_loop_step) (auto dest: s2a_inv_rd)
  moreover have "s2a_inv s2 None (pre @ w @ [NUL]) [] (tl (junk @ [c]) @ takeWhile isspace_c cs)
      (dropWhile isspace_c cs) rest (av @ [Some (length pre)]) slots"
    using inv ninq by (simp add: s2_def s1_def s2a_inv_def)
  ultimately show ?thesis by (auto simp: s2_def s1_def)
qed

text \<open>The loop computes the tokeniser's words.\<close>

lemma s2a_loop_toks:
  assumes "s2a_inv s q pre w junk cs rest av slots"
    and "NUL \<notin> set cs" and "escapes_ok cs"
    and "int (length av + length (toks q w cs)) < vsize"
    and "length (toks q w cs) \<le> Suc (length slots)"
  shows "\<exists>s'. s2a_loop vsize s = Some s' \<and> s2a_post s' pre (toks q w cs) av slots"
  using assms
proof (induction q w cs arbitrary: s pre junk av slots rule: toks.induct)
  case (1 q w)
  then have "rd (s_buf s) (s_lp s) = Some NUL"
    using rd_app_here [of "s_lp s" "pre @ w @ junk" NUL rest] by (simp add: s2a_inv_def add.assoc)
  moreover have "s2a_post s pre [w] av slots"
    using 1 by (intro s2a_post_single [of _ _ _ "junk @ NUL # rest"]) (auto simp: s2a_inv_def)
  ultimately show ?case by (simp add: s2a_loop_NUL)
next
  case (2 q w c cs)
  note inv = "2.prems"(1)
  have argc: "s_argc s = Suc (length av)" using inv by (simp add: s2a_inv_def)
  have "length (toks q w (c # cs)) \<ge> 1"
    by (metis One_nat_def Suc_leI length_greater_0_conv toks_nonempty)
  then have room: "int (s_argc s) < vsize" using "2.prems"(4) argc by linarith
  have cn: "c \<noteq> NUL" using "2.prems"(2) by auto
  consider (esc) "c = CHR 0x5C" | (close) "c \<noteq> CHR 0x5C" "q = Some c"
    | (quote) "c \<noteq> CHR 0x5C" "q \<noteq> Some c" "is_quote c"
    | (space) "c \<noteq> CHR 0x5C" "q \<noteq> Some c" "\<not> is_quote c" "isspace_c c" "q = None"
    | (plain) "c \<noteq> CHR 0x5C" "q \<noteq> Some c" "\<not> is_quote c" "\<not> (isspace_c c \<and> q = None)"
    by blast
  then show ?case
  proof cases
    case esc
    then obtain d ds where ds: "cs = d # ds" using "2.prems"(3) by (auto split: list.splits)
    with s2a_step_escape [OF inv [unfolded esc ds] room] obtain s' junk' where
      "s2a_loop vsize s = s2a_loop vsize s'" "s2a_inv s' q pre (w @ [d]) junk' ds rest av slots"
      by blast
    then show ?thesis using "2.IH"(1) [of d ds] "2.prems" esc ds by simp
  next
    case close
    with s2a_step_quote [OF inv room cn] obtain s' junk' where
      "s2a_loop vsize s = s2a_loop vsize s'" "s2a_inv s' None pre w junk' cs rest av slots"
      by auto
    then show ?thesis using "2.IH"(2) "2.prems" close by simp
  next
    case quote
    with s2a_step_quote [OF inv room cn] obtain s' junk' where
      "s2a_loop vsize s = s2a_loop vsize s'" "s2a_inv s' (Some c) pre w junk' cs rest av slots"
      by auto
    then show ?thesis using "2.IH"(3) "2.prems" quote by simp
  next
    case plain
    with s2a_step_plain [OF inv room cn] obtain s' junk' where
      "s2a_loop vsize s = s2a_loop vsize s'" "s2a_inv s' q pre (w @ [c]) junk' cs rest av slots"
      by blast
    then show ?thesis using "2.IH"(5) "2.prems" plain by auto
  next
    case space
    show ?thesis
    proof (cases "dropWhile isspace_c cs = []")
      case True
      with space s2a_step_space_end [OF inv [unfolded space(5)] room "2.prems"(2)]
      show ?thesis by simp
    next
      case False
      let ?ts = "toks None [] (dropWhile isspace_c cs)"
      have ts: "toks q w (c # cs) = w # ?ts"
        using space False by (simp del: dropWhile_eq_Nil_conv)
      have "?ts \<noteq> []" by simp
      then obtain d sl where sl: "slots = d # sl"
        using "2.prems"(5) ts by (cases slots) auto
      from s2a_step_space_word [OF inv [unfolded space(5) sl] room "2.prems"(2) space(4) False]
      obtain s' junk' where s': "s2a_loop vsize s = s2a_loop vsize s'"
        "s2a_inv s' None (pre @ w @ [NUL]) [] junk' (dropWhile isspace_c cs) rest
          (av @ [Some (length pre)]) sl" by blast
      have "\<exists>s''. s2a_loop vsize s' = Some s'' \<and>
          s2a_post s'' (pre @ w @ [NUL]) ?ts (av @ [Some (length pre)]) sl"
        using "2.prems" ts sl space False s'(2)
        by (intro "2.IH"(4)) (auto simp: escapes_ok_dropWhile dest: set_dropWhileD)
      then show ?thesis unfolding s'(1) ts sl
        using s2a_post_Cons \<open>?ts \<noteq> []\<close> by blast
    qed
  qed
qed

text \<open>The words a post state holds are found again through its vector.\<close>

lemma offs_cstr:
  assumes "i < length ts" and "\<forall>t \<in> set ts. NUL \<notin> set t"
  shows "cstr_at (pre @ flat ts @ post) (offs (length pre) ts ! i) = ts ! i"
  using assms
proof (induction ts arbitrary: i pre)
  case (Cons t ts)
  show ?case
  proof (cases i)
    case 0
    with Cons.prems show ?thesis by (simp add: cstr_at_app)
  next
    case (Suc j)
    have "cstr_at ((pre @ t @ [NUL]) @ flat ts @ post) (offs (length (pre @ t @ [NUL])) ts ! j) = ts ! j"
      using Cons.prems Suc by (intro Cons.IH) auto
    with Suc show ?thesis by simp
  qed
qed simp

lemma toks_noNUL:
  "NUL \<notin> set cs \<Longrightarrow> NUL \<notin> set w \<Longrightarrow> t \<in> set (toks q w cs) \<Longrightarrow> NUL \<notin> set t"
proof (induction q w cs rule: toks.induct)
  case (2 q w c cs)
  then show ?case
    by (auto split: if_splits list.splits dest: set_dropWhileD)
qed auto

text \<open>The counting loop follows the tokeniser on strings without a backslash.\<close>

lemma s2c_loop_toks:
  assumes "NUL \<notin> set cs" and "CHR 0x5C \<notin> set cs" and "l = length pre"
    and "q = (if inq then Some delim else None)"
  shows "s2c_loop (pre @ cs @ NUL # rest) l delim inq (Suc n) = Some (n + length (toks q w cs))"
  using assms
proof (induction q w cs arbitrary: pre l delim inq n rule: toks.induct)
  case (1 q w)
  then show ?case by (subst s2c_loop.simps) simp
next
  case (2 q w c cs)
  let ?b = "pre @ (c # cs) @ NUL # rest"
  have b: "?b = (pre @ [c]) @ cs @ NUL # rest" by simp
  have cn: "c \<noteq> NUL" "c \<noteq> CHR 0x5C" using "2.prems" by auto
  have here: "rd ?b l = Some c" using "2.prems" by simp
  have skip: "s2a_skip ?b l = Some (l + length (takeWhile isspace_c cs))"
    using s2a_skip_spec [of cs l pre c rest] "2.prems" by simp
  let ?pre = "pre @ c # takeWhile isspace_c cs"
  let ?n = "Suc (l + length (takeWhile isspace_c cs))"
  have b': "?b = ?pre @ dropWhile isspace_c cs @ NUL # rest" and n': "?n = length ?pre"
    using "2.prems" by simp_all
  consider (close) "q = Some c" | (quote) "q \<noteq> Some c" "is_quote c"
    | (space) "q \<noteq> Some c" "\<not> is_quote c" "isspace_c c" "q = None"
    | (plain) "q \<noteq> Some c" "\<not> is_quote c" "\<not> (isspace_c c \<and> q = None)"
    by blast
  then show ?case
  proof cases
    case close
    then show ?thesis
      using "2.IH"(2) [where pre = "pre @ [c]" and l = "Suc l" and inq = False and delim = delim and n = n] "2.prems" cn here
      by (subst s2c_loop.simps) (auto split: if_splits)
  next
    case quote
    then show ?thesis
      using "2.IH"(3) [where pre = "pre @ [c]" and l = "Suc l" and inq = True and delim = c and n = n] "2.prems" cn here
      by (subst s2c_loop.simps) (auto split: if_splits)
  next
    case plain
    then show ?thesis
      using "2.IH"(5) [where pre = "pre @ [c]" and l = "Suc l" and inq = inq and delim = delim and n = n] "2.prems" cn here
      by (subst s2c_loop.simps) (auto split: if_splits)
  next
    case space
    have ninq: "\<not> inq" using space "2.prems" by (auto split: if_splits)
    show ?thesis
    proof (cases "dropWhile isspace_c cs")
      case Nil
      have "rd ?b ?n = Some NUL" unfolding b' n' Nil append_Nil by (rule rd_app_here) (rule refl)
      moreover have "s2c_loop ?b ?n delim inq (Suc n) = Some (Suc n)"
        using \<open>rd ?b ?n = Some NUL\<close> by (subst s2c_loop.simps) simp
      ultimately show ?thesis
        using space ninq cn here skip Nil by (subst s2c_loop.simps) simp
    next
      case (Cons e es)
      have nn: "NUL \<notin> set (dropWhile isspace_c cs)" "CHR 0x5C \<notin> set (dropWhile isspace_c cs)"
        using "2.prems" by (auto dest: set_dropWhileD)
      then have e: "e \<noteq> NUL" using Cons by auto
      have "?b = ?pre @ e # (es @ NUL # rest)" using b' Cons by simp
      then have "rd ?b ?n = Some e" by (metis rd_app_here n')
      moreover have "s2c_loop (?pre @ (dropWhile isspace_c cs) @ NUL # rest) ?n delim inq (Suc (Suc n)) =
          Some (Suc n + length (toks None [] (dropWhile isspace_c cs)))"
        using space ninq cn Cons n' by (intro "2.IH"(4) nn) auto
      ultimately show ?thesis
        using space ninq cn here skip e Cons unfolding b' [symmetric]
        by (subst s2c_loop.simps) simp
    qed
  qed
qed

section \<open>Properties\<close>

text \<open>
  C8. For a NUL-terminated string in which every backslash protects a character, and a vector
  with room for one slot more than \<open>vsize\<close> where \<open>vsize\<close> exceeds the number of words,
  \<open>fsu_str2arg\<close> never leaves its buffers, sets \<open>argc\<close> to the number of words of the
  tokeniser, makes \<open>argv[i]\<close> point at a string equal to word \<open>i\<close> for each of them, and
  stores the null pointer after the last.
\<close>

theorem fsu_str2arg_toks:
  assumes "NUL \<notin> set cs" and "escapes_ok cs"
    and "int (length (toks None [] cs)) < vsize" and "vsize < int (length argv)"
  shows "\<exists>s. fsu_str2arg (cs @ NUL # rest) argv vsize = Some s \<and>
    s_argc s = length (toks None [] cs) \<and>
    s_argv s ! s_argc s = None \<and>
    (\<forall>i < s_argc s. \<exists>a. s_argv s ! i = Some a \<and> cstr_at (s_buf s) a = toks None [] cs ! i)"
proof -
  let ?ts = "toks None [] cs"
  let ?s0 = "\<lparr>s_buf = cs @ NUL # rest, s_lp = 0, s_p = 0, s_argc = 1, s_argv = argv[0 := Some 0],
              s_delim = NUL, s_inquote = False\<rparr>"
  obtain a slots where argv: "argv = a # slots" using assms(3,4) by (cases argv) auto
  have "s2a_inv ?s0 None [] [] [] cs rest [] slots" by (simp add: s2a_inv_def argv)
  from s2a_loop_toks [OF this assms(1,2)] assms(3,4) argv obtain s where
    s: "s2a_loop vsize ?s0 = Some s" "s2a_post s [] ?ts [] slots" by auto
  from s(2) obtain x post where x: "s_buf s = x @ post" "s_p s = length x" "post \<noteq> []"
    "x @ [NUL] = flat ?ts \<or> x = flat ?ts" unfolding s2a_post_def by auto
  from s(2) have av: "s_argc s = length ?ts"
    "s_argv s = map Some (offs 0 ?ts) @ drop (length ?ts - 1) slots"
    unfolding s2a_post_def by auto
  obtain q post' where post: "post = q # post'" using x(3) by (cases post) auto
  have "wr (s_buf s) (s_p s) NUL = Some (x @ NUL # post')" using x post by simp
  moreover obtain post'' where fl: "x @ NUL # post' = flat ?ts @ post''" using x(4)
    by (metis append.assoc append_Cons append_Nil)
  moreover have "length (s_argv s) = length argv" and lt: "length ?ts < length argv"
    using av argv assms(3,4) by (auto simp: Suc_leI)
  ultimately have res: "fsu_str2arg (cs @ NUL # rest) argv vsize =
      Some (s\<lparr>s_argv := (s_argv s)[length ?ts := None], s_buf := flat ?ts @ post''\<rparr>)"
    using s(1) av(1) argv by (simp add: fsu_str2arg_def wr_def)
  have "cstr_at (flat ?ts @ post'') (offs 0 ?ts ! i) = ?ts ! i" if "i < length ?ts" for i
    using offs_cstr [of i ?ts "[]" post''] that assms(1) toks_noNUL [of cs "[]"]
    by (simp del: toks.simps)
  with res av lt show ?thesis
    using \<open>length (s_argv s) = length argv\<close> by (auto simp: nth_append nth_list_update)
qed

theorem fsu_str2arg_toks_witness:
  "\<exists>s. fsu_str2arg (''-a 'b c' d'' @ NUL # []) (replicate 6 None) 5 = Some s \<and> s_argc s = 3 \<and>
     s_argv s ! s_argc s = None \<and>
     (\<forall>i < s_argc s. \<exists>a. s_argv s ! i = Some a \<and>
        cstr_at (s_buf s) a = [''-a'', ''b c'', ''d''] ! i)"
proof -
  have t: "toks None [] ''-a 'b c' d'' = [''-a'', ''b c'', ''d'']"
    by (simp add: is_quote_def isspace_c_def)
  show ?thesis
    using fsu_str2arg_toks [of "''-a 'b c' d''" 5 "replicate 6 None" "[]"] unfolding t
    by (simp del: toks.simps add: numeral_3_eq_3)
qed

text \<open>
  C27. On a string without backslashes \<open>fsu_str2argc\<close> returns the number of words, so the
  vector \<open>fsu_mount\<close> sizes with it is large enough for \<open>fsu_str2arg\<close>.
\<close>

theorem fsu_str2argc_toks:
  assumes "NUL \<notin> set cs" and "CHR 0x5C \<notin> set cs"
  shows "fsu_str2argc (cs @ NUL # rest) = Some (length (toks None [] cs))"
  using s2c_loop_toks [of cs 0 "[]" None False NUL rest 0 "[]"] assms
  by (simp add: fsu_str2argc_def)

theorem fsu_str2argc_toks_witness:
  "fsu_str2argc (''rw  noatime'' @ NUL # []) = Some 2"
proof -
  have t: "toks None [] ''rw  noatime'' = [''rw'', ''noatime'']"
    by (simp add: is_quote_def isspace_c_def)
  show ?thesis
    using fsu_str2argc_toks [of "''rw  noatime''" "[]"] unfolding t by (simp del: toks.simps)
qed




text \<open>
  With backslashes the two functions disagree in both directions: an escaped blank is
  counted as a separator, and escaped quotes hide the blanks between them.
\<close>

theorem str2argc_ignores_backslash:
  "fsu_str2argc ([CHR ''a'', CHR 0x5C, CHR '' '', CHR ''b'', NUL]) = Some 2 \<and>
   length (toks None [] [CHR ''a'', CHR 0x5C, CHR '' '', CHR ''b'']) = 1 \<and>
   fsu_str2argc ([CHR 0x5C, CHR 0x22, CHR '' '', CHR ''b'', CHR 0x5C, CHR 0x22, NUL]) = Some 1 \<and>
   length (toks None [] [CHR 0x5C, CHR 0x22, CHR '' '', CHR ''b'', CHR 0x5C, CHR 0x22]) = 2"
  by (simp add: fsu_str2argc_def s2c_loop.simps s2a_skip.simps rd_def is_quote_def isspace_c_def)

end
