(* ===== verification/Setmode.thy ===== *)
theory Setmode
  imports FSU_Prelude
begin

text \<open>
  \<^verbatim>\<open>src/lib/compat.c\<close>, first half: \<open>setmode\<close> compiles the mode argument of
  \<^verbatim>\<open>chmod\<close>, \<^verbatim>\<open>mkdir\<close>, \<^verbatim>\<open>mkfifo\<close> and \<^verbatim>\<open>mknod\<close>
  into an array of bit commands, \<open>compress_mode\<close> optimises the array, \<open>getmode\<close> runs
  it on a mode, and \<open>strmode\<close> prints a mode. Modes are 32-bit words. The command array
  is the list of its entries before the terminating entry with command 0; its capacity
  (\<open>setlen\<close>) is part of the state, and \<open>mem n\<close> tells whether an allocation of \<open>n\<close>
  entries succeeds. The constants are those of \<^verbatim>\<open>sys/stat.h\<close>.
\<close>

type_synonym mode_t = "32 word"

abbreviation "S_IFMT \<equiv> (0xF000 :: mode_t)"
abbreviation "S_IFSOCK \<equiv> (0xC000 :: mode_t)"
abbreviation "S_IFLNK \<equiv> (0xA000 :: mode_t)"
abbreviation "S_IFREG \<equiv> (0x8000 :: mode_t)"
abbreviation "S_IFBLK \<equiv> (0x6000 :: mode_t)"
abbreviation "S_IFDIR \<equiv> (0x4000 :: mode_t)"
abbreviation "S_IFCHR \<equiv> (0x2000 :: mode_t)"
abbreviation "S_IFIFO \<equiv> (0x1000 :: mode_t)"
abbreviation "S_ISUID \<equiv> (0x800 :: mode_t)"
abbreviation "S_ISGID \<equiv> (0x400 :: mode_t)"
abbreviation "S_ISVTX \<equiv> (0x200 :: mode_t)"
abbreviation "S_IRWXU \<equiv> (0x1C0 :: mode_t)"
abbreviation "S_IRUSR \<equiv> (0x100 :: mode_t)"
abbreviation "S_IWUSR \<equiv> (0x80 :: mode_t)"
abbreviation "S_IXUSR \<equiv> (0x40 :: mode_t)"
abbreviation "S_IRWXG \<equiv> (0x38 :: mode_t)"
abbreviation "S_IRGRP \<equiv> (0x20 :: mode_t)"
abbreviation "S_IWGRP \<equiv> (0x10 :: mode_t)"
abbreviation "S_IXGRP \<equiv> (0x8 :: mode_t)"
abbreviation "S_IRWXO \<equiv> (0x7 :: mode_t)"
abbreviation "S_IROTH \<equiv> (0x4 :: mode_t)"
abbreviation "S_IWOTH \<equiv> (0x2 :: mode_t)"
abbreviation "S_IXOTH \<equiv> (0x1 :: mode_t)"

text \<open>\<open>S_ISTXT\<close> is defined as \<open>S_ISVTX\<close> where the system has none.\<close>

abbreviation "S_ISTXT \<equiv> S_ISVTX"

definition STANDARD_BITS :: mode_t where
  "STANDARD_BITS = S_ISUID OR S_ISGID OR S_IRWXU OR S_IRWXG OR S_IRWXO"

section \<open>Bit commands\<close>

record bitcmd =
  cmd :: char
  cmd2 :: "8 word"
  bits :: mode_t

abbreviation "CMD2_CLR \<equiv> (0x01 :: 8 word)"
abbreviation "CMD2_SET \<equiv> (0x02 :: 8 word)"
abbreviation "CMD2_GBITS \<equiv> (0x04 :: 8 word)"
abbreviation "CMD2_OBITS \<equiv> (0x08 :: 8 word)"
abbreviation "CMD2_UBITS \<equiv> (0x10 :: 8 word)"

text \<open>
  \<open>getmode\<close>: one command. \<open>omode\<close> is the mode the run started from, which only the
  \<open>X\<close> command looks at. The three copy commands share the code at \<open>common\<close>.
\<close>

definition getmode_common :: "bitcmd \<Rightarrow> mode_t \<Rightarrow> mode_t \<Rightarrow> mode_t" where
  "getmode_common c value newmode =
     (let n1 =
        (if cmd2 c AND CMD2_CLR \<noteq> 0 then
           (let clrval = (if cmd2 c AND CMD2_SET \<noteq> 0 then S_IRWXO else value);
                m1 = (if cmd2 c AND CMD2_UBITS \<noteq> 0
                      then newmode AND NOT (push_bit 6 clrval AND bits c) else newmode);
                m2 = (if cmd2 c AND CMD2_GBITS \<noteq> 0
                      then m1 AND NOT (push_bit 3 clrval AND bits c) else m1)
            in if cmd2 c AND CMD2_OBITS \<noteq> 0 then m2 AND NOT (clrval AND bits c) else m2)
         else newmode)
      in if cmd2 c AND CMD2_SET \<noteq> 0 then
           (let m1 = (if cmd2 c AND CMD2_UBITS \<noteq> 0
                      then n1 OR (push_bit 6 value AND bits c) else n1);
                m2 = (if cmd2 c AND CMD2_GBITS \<noteq> 0
                      then m1 OR (push_bit 3 value AND bits c) else m1)
            in if cmd2 c AND CMD2_OBITS \<noteq> 0 then m2 OR (value AND bits c) else m2)
         else n1)"

fun getmode_run :: "bitcmd list \<Rightarrow> mode_t \<Rightarrow> mode_t \<Rightarrow> mode_t" where
  "getmode_run [] omode newmode = newmode"
| "getmode_run (c # cs) omode newmode =
     (if cmd c = CHR ''u'' then
        getmode_run cs omode (getmode_common c (drop_bit 6 (newmode AND S_IRWXU)) newmode)
      else if cmd c = CHR ''g'' then
        getmode_run cs omode (getmode_common c (drop_bit 3 (newmode AND S_IRWXG)) newmode)
      else if cmd c = CHR ''o'' then
        getmode_run cs omode (getmode_common c (newmode AND S_IRWXO) newmode)
      else if cmd c = CHR ''+'' then getmode_run cs omode (newmode OR bits c)
      else if cmd c = CHR ''-'' then getmode_run cs omode (newmode AND NOT (bits c))
      else if cmd c = CHR ''X'' then
        getmode_run cs omode
          (if omode AND (S_IFDIR OR S_IXUSR OR S_IXGRP OR S_IXOTH) \<noteq> 0
           then newmode OR bits c else newmode)
      else newmode)"

definition getmode :: "bitcmd list \<Rightarrow> mode_t \<Rightarrow> mode_t" where
  "getmode bbox omode = getmode_run bbox omode omode"

text \<open>
  \<open>addcmd\<close>: the entries it writes. \<open>fresh\<close> stands for an entry as allocated; its
  content is indeterminate in C and never read before it is written.
  \<open>oparg\<close> is a permission mask or the code of the operator.
\<close>

definition fresh :: bitcmd where
  "fresh = \<lparr>cmd = NUL, cmd2 = 0, bits = 0\<rparr>"

definition chval :: "char \<Rightarrow> 32 word" where
  "chval c = of_nat (of_char c)"

definition copy_flags :: "mode_t \<Rightarrow> mode_t \<Rightarrow> 8 word" where
  "copy_flags who oparg =
     (let f = (if who \<noteq> 0
               then (if who AND S_IRUSR \<noteq> 0 then CMD2_UBITS else 0) OR
                    (if who AND S_IRGRP \<noteq> 0 then CMD2_GBITS else 0) OR
                    (if who AND S_IROTH \<noteq> 0 then CMD2_OBITS else 0)
               else CMD2_UBITS OR CMD2_GBITS OR CMD2_OBITS)
      in if oparg = chval (CHR ''+'') then f OR CMD2_SET
         else if oparg = chval (CHR ''-'') then f OR CMD2_CLR
         else if oparg = chval (CHR ''='') then f OR (CMD2_SET OR CMD2_CLR)
         else f)"

definition addcmd :: "char \<Rightarrow> mode_t \<Rightarrow> mode_t \<Rightarrow> mode_t \<Rightarrow> bitcmd list" where
  "addcmd op who oparg msk =
     (if op = CHR ''='' then
        [fresh\<lparr>cmd := CHR ''-'', bits := (if who \<noteq> 0 then who else STANDARD_BITS)\<rparr>,
         fresh\<lparr>cmd := CHR ''+'', bits := (if who \<noteq> 0 then who else msk) AND oparg\<rparr>]
      else if op = CHR ''+'' \<or> op = CHR ''-'' \<or> op = CHR ''X'' then
        [fresh\<lparr>cmd := op, bits := (if who \<noteq> 0 then who else msk) AND oparg\<rparr>]
      else if op = CHR ''u'' \<or> op = CHR ''g'' \<or> op = CHR ''o'' then
        [fresh\<lparr>cmd := op, cmd2 := copy_flags who oparg,
               bits := (if who \<noteq> 0 then NOT 0 else msk)\<rparr>]
      else [fresh])"

text \<open>The array under construction: its entries and the number of entries allocated.\<close>

record setbuf =
  sb_cmds :: "bitcmd list"
  sb_len :: nat

abbreviation "SET_LEN \<equiv> (6 :: nat)"
abbreviation "SET_LEN_INCR \<equiv> (4 :: nat)"

text \<open>The macro \<open>ADDCMD\<close>: \<^const>\<open>None\<close> when the array cannot grow.\<close>

definition ADDCMD ::
  "(nat \<Rightarrow> bool) \<Rightarrow> char \<Rightarrow> mode_t \<Rightarrow> mode_t \<Rightarrow> mode_t \<Rightarrow> setbuf \<Rightarrow> setbuf option"
where
  "ADDCMD mem a b c d sb =
     (if length (sb_cmds sb) \<ge> sb_len sb - 2 then
        (let setlen = sb_len sb + SET_LEN_INCR in
         if mem setlen then Some \<lparr>sb_cmds = sb_cmds sb @ addcmd a b c d, sb_len = setlen\<rparr>
         else None)
      else Some (sb\<lparr>sb_cmds := sb_cmds sb @ addcmd a b c d\<rparr>))"

section \<open>Compression\<close>

text \<open>
  The inner loop of \<open>compress_mode\<close>: the bits that the run of \<open>+\<close>, \<open>-\<close> and \<open>X\<close>
  commands at the front sets, clears and conditionally sets, and what follows the run.
\<close>

fun compress_run ::
  "bitcmd list \<Rightarrow> mode_t \<Rightarrow> mode_t \<Rightarrow> mode_t \<Rightarrow> mode_t \<times> mode_t \<times> mode_t \<times> bitcmd list"
where
  "compress_run [] setbits clrbits Xbits = (setbits, clrbits, Xbits, [])"
| "compress_run (c # cs) setbits clrbits Xbits =
     (if cmd c = CHR ''-'' then
        compress_run cs (setbits AND NOT (bits c)) (clrbits OR bits c) (Xbits AND NOT (bits c))
      else if cmd c = CHR ''+'' then
        compress_run cs (setbits OR bits c) (clrbits AND NOT (bits c)) (Xbits AND NOT (bits c))
      else if cmd c = CHR ''X'' then
        compress_run cs setbits clrbits (Xbits OR (bits c AND NOT setbits))
      else (setbits, clrbits, Xbits, c # cs))"

lemma compress_run_length:
  "compress_run cs s c x = (s', c', x', rest) \<Longrightarrow> length rest \<le> length cs"
  by (induction cs arbitrary: s c x) (auto split: if_splits, fastforce+)

definition is_pmX :: "bitcmd \<Rightarrow> bool" where
  "is_pmX c \<longleftrightarrow> cmd c \<in> {CHR ''+'', CHR ''-'', CHR ''X''}"

lemma compress_run_shrinks:
  "is_pmX a \<Longrightarrow> compress_run (a # cs) s c x = (s', c', x', rest) \<Longrightarrow> length rest < Suc (length cs)"
  by (auto simp: is_pmX_def less_Suc_eq_le dest: compress_run_length)

text \<open>
  The outer loop. The code works in place; it never writes more entries than it has read
  (\<open>compress_mode_length\<close> below), so the list it builds is the array it leaves.
\<close>

function compress_mode :: "bitcmd list \<Rightarrow> bitcmd list" where
  "compress_mode [] = []"
| "compress_mode (a # cs) =
     (if \<not> is_pmX a then (if cmd a = NUL then [] else a # compress_mode cs)
      else
        (case compress_run (a # cs) 0 0 0 of (setbits, clrbits, Xbits, rest) \<Rightarrow>
           (if clrbits \<noteq> 0 then [\<lparr>cmd = CHR ''-'', cmd2 = 0, bits = clrbits\<rparr>] else []) @
           (if setbits \<noteq> 0 then [\<lparr>cmd = CHR ''+'', cmd2 = 0, bits = setbits\<rparr>] else []) @
           (if Xbits \<noteq> 0 then [\<lparr>cmd = CHR ''X'', cmd2 = 0, bits = Xbits\<rparr>] else []) @
           compress_mode rest))"
  by pat_completeness auto
termination
  by (relation "measure length") (auto dest!: compress_run_shrinks [OF _ sym])


section \<open>Parsing\<close>

text \<open>
  \<open>strtol(p, \&ep, 8)\<close> on a string that starts with a digit: the value of the leading octal
  digits, saturated at \<open>LONG_MAX\<close>, and the rest of the string.
\<close>

definition octal_digit :: "char \<Rightarrow> nat option" where
  "octal_digit c = (if c \<in> set ''01234567'' then Some (of_char c - 48) else None)"

fun strtol8 :: "nat \<Rightarrow> string \<Rightarrow> nat \<times> string" where
  "strtol8 acc [] = (acc, [])"
| "strtol8 acc (c # cs) =
     (case octal_digit c of
        None \<Rightarrow> (acc, c # cs)
      | Some d \<Rightarrow> strtol8 (min (acc * 8 + d) (2 ^ 63 - 1)) cs)"

text \<open>The scan over \<open>[augo]*\<close>.\<close>

fun who_loop :: "string \<Rightarrow> mode_t \<Rightarrow> mode_t \<times> string" where
  "who_loop [] who = (who, [])"
| "who_loop (c # cs) who =
     (if c = CHR ''a'' then who_loop cs (who OR STANDARD_BITS)
      else if c = CHR ''u'' then who_loop cs (who OR (S_ISUID OR S_IRWXU))
      else if c = CHR ''g'' then who_loop cs (who OR (S_ISGID OR S_IRWXG))
      else if c = CHR ''o'' then who_loop cs (who OR S_IRWXO)
      else (who, c # cs))"

text \<open>The variables of \<open>setmode\<close> that live across the permission loop.\<close>

record pstate =
  ps_who :: mode_t
  ps_perm :: mode_t
  ps_permX :: mode_t
  ps_equalopdone :: bool
  ps_set :: setbuf

text \<open>\<open>ADDCMD\<close> on the parser's state.\<close>

definition add_st ::
  "(nat \<Rightarrow> bool) \<Rightarrow> mode_t \<Rightarrow> char \<Rightarrow> mode_t \<Rightarrow> pstate \<Rightarrow> pstate option"
where
  "add_st mem msk a oparg st =
     map_option (\<lambda>sb. st\<lparr>ps_set := sb\<rparr>) (ADDCMD mem a (ps_who st) oparg msk (ps_set st))"

text \<open>The \<open>default\<close> case of the loop: flush what has been collected, then leave.\<close>

definition perm_flush ::
  "(nat \<Rightarrow> bool) \<Rightarrow> mode_t \<Rightarrow> char \<Rightarrow> pstate \<Rightarrow> pstate option"
where
  "perm_flush mem msk op st = do {
     st1 \<leftarrow> (if ps_perm st \<noteq> 0 \<or> (op = CHR ''='' \<and> \<not> ps_equalopdone st) then
               add_st mem msk op (ps_perm st)
                 (if op = CHR ''='' then st\<lparr>ps_equalopdone := True\<rparr> else st)
             else Some st);
     (if ps_permX st1 \<noteq> 0 then add_st mem msk (CHR ''X'') (ps_permX st1) st1 else Some st1)
   }"

text \<open>The cases \<open>u\<close>, \<open>g\<close> and \<open>o\<close>.\<close>

definition perm_copy ::
  "(nat \<Rightarrow> bool) \<Rightarrow> mode_t \<Rightarrow> char \<Rightarrow> char \<Rightarrow> pstate \<Rightarrow> pstate option"
where
  "perm_copy mem msk op c st = do {
     st1 \<leftarrow> (if ps_perm st \<noteq> 0
             then map_option (\<lambda>s. s\<lparr>ps_perm := 0\<rparr>) (add_st mem msk op (ps_perm st) st)
             else Some st);
     let st2 = (if op = CHR ''='' then st1\<lparr>ps_equalopdone := True\<rparr> else st1);
     st3 \<leftarrow> (if op = CHR ''+'' \<and> ps_permX st2 \<noteq> 0
             then map_option (\<lambda>s. s\<lparr>ps_permX := 0\<rparr>) (add_st mem msk (CHR ''X'') (ps_permX st2) st2)
             else Some st2);
     add_st mem msk c (chval op) st3
   }"

definition only_other :: "mode_t \<Rightarrow> bool" where
  "only_other who \<longleftrightarrow> who \<noteq> 0 \<and> who AND NOT S_IRWXO = 0"

definition perm_letter :: "char \<Rightarrow> pstate \<Rightarrow> pstate" where
  "perm_letter c st =
     (if c = CHR ''r'' then st\<lparr>ps_perm := ps_perm st OR (S_IRUSR OR S_IRGRP OR S_IROTH)\<rparr>
      else if c = CHR ''s'' then
        (if \<not> only_other (ps_who st)
         then st\<lparr>ps_perm := ps_perm st OR (S_ISUID OR S_ISGID)\<rparr> else st)
      else if c = CHR ''t'' then
        (if \<not> only_other (ps_who st)
         then st\<lparr>ps_who := ps_who st OR S_ISTXT, ps_perm := ps_perm st OR S_ISTXT\<rparr> else st)
      else if c = CHR ''w'' then st\<lparr>ps_perm := ps_perm st OR (S_IWUSR OR S_IWGRP OR S_IWOTH)\<rparr>
      else if c = CHR ''X'' then st\<lparr>ps_permX := S_IXUSR OR S_IXGRP OR S_IXOTH\<rparr>
      else st\<lparr>ps_perm := ps_perm st OR (S_IXUSR OR S_IXGRP OR S_IXOTH)\<rparr>)"

text \<open>The letters of the permission list, and those that copy another class's bits.\<close>

definition is_perm_letter :: "char \<Rightarrow> bool" where
  "is_perm_letter c \<longleftrightarrow> c \<in> set ''rstwXx''"

definition is_copy_letter :: "char \<Rightarrow> bool" where
  "is_copy_letter c \<longleftrightarrow> c \<in> set ''ugo''"

fun perm_loop ::
  "(nat \<Rightarrow> bool) \<Rightarrow> mode_t \<Rightarrow> char \<Rightarrow> string \<Rightarrow> pstate \<Rightarrow> (pstate \<times> string) option"
where
  "perm_loop mem msk op [] st = map_option (\<lambda>st'. (st', [])) (perm_flush mem msk op st)"
| "perm_loop mem msk op (c # cs) st =
     (if is_perm_letter c then perm_loop mem msk op cs (perm_letter c st)
      else if is_copy_letter c then
        (case perm_copy mem msk op c st of
           None \<Rightarrow> None
         | Some st' \<Rightarrow> perm_loop mem msk op cs st')
      else map_option (\<lambda>st'. (st', c # cs)) (perm_flush mem msk op st))"

lemma perm_loop_length:
  "perm_loop mem msk op cs st = Some (st', rest) \<Longrightarrow> length rest \<le> length cs"
proof (induction cs arbitrary: st)
  case (Cons c cs)
  then show ?case
    by (auto split: if_splits option.splits dest!: Cons.IH)
qed auto

lemma who_loop_length: "who_loop cs who = (who', rest) \<Longrightarrow> length rest \<le> length cs"
  by (induction cs arbitrary: who) (auto split: if_splits, fastforce+)

text \<open>
  From the label \<open>getop\<close>: one operator with its permissions, then \<open>apply\<close>: the end of the
  string, a comma that starts a new clause, or another operator of the same clause.
\<close>

definition is_op :: "char \<Rightarrow> bool" where
  "is_op op \<longleftrightarrow> op = CHR ''+'' \<or> op = CHR ''-'' \<or> op = CHR ''=''"

function getop_loop ::
  "(nat \<Rightarrow> bool) \<Rightarrow> mode_t \<Rightarrow> string \<Rightarrow> mode_t \<Rightarrow> bool \<Rightarrow> setbuf \<Rightarrow> setbuf option"
where
  "getop_loop mem msk p who eq sb =
     (case p of
        [] \<Rightarrow> None
      | op # q \<Rightarrow>
          if \<not> is_op op then None
          else
            (case perm_loop mem msk op q
                    \<lparr>ps_who = who AND NOT S_ISTXT, ps_perm = 0, ps_permX = 0,
                     ps_equalopdone = (if op = CHR ''='' then False else eq), ps_set = sb\<rparr> of
               None \<Rightarrow> None
             | Some (st, rest) \<Rightarrow>
                 (case rest of
                    [] \<Rightarrow> Some (ps_set st)
                  | c # r \<Rightarrow>
                      if c = CHR '','' then
                        getop_loop mem msk (snd (who_loop r 0)) (fst (who_loop r 0))
                          (ps_equalopdone st) (ps_set st)
                      else getop_loop mem msk rest (ps_who st) (ps_equalopdone st) (ps_set st))))"
  by pat_completeness auto
termination
proof (relation "measure (\<lambda>(mem, msk, p, who, eq, sb). length p)", goal_cases)
  case 1
  show ?case by simp
next
  case (2 mem msk p who eq sb op q x st rest c r)
  then have "length rest \<le> length q" by (blast intro: perm_loop_length)
  moreover have "length (snd (who_loop r 0)) \<le> length r"
    by (rule who_loop_length [of r 0 "fst (who_loop r 0)"]) simp
  ultimately show ?case using 2 by simp
next
  case (3 mem msk p who eq sb op q x st rest c r)
  then have "length rest \<le> length q" by (blast intro: perm_loop_length)
  then show ?case using 3 by simp
qed

declare getop_loop.simps [simp del]

text \<open>
  \<open>setmode\<close>, with the process's umask as a parameter. The result is the command array with
  the number of entries allocated for it.
\<close>

definition setmode :: "(nat \<Rightarrow> bool) \<Rightarrow> mode_t \<Rightarrow> string \<Rightarrow> setbuf option" where
  "setmode mem um p =
     (let msk = NOT um in
      if p = [] then None
      else if \<not> mem (SET_LEN + 2) then None
      else
        (let sb = \<lparr>sb_cmds = [], sb_len = SET_LEN + 2\<rparr> in
         if isdigit_c (hd p) then
           (let (perml, ep) = strtol8 0 p in
            if ep \<noteq> [] \<or> (word_of_nat perml :: 64 word) AND NOT (ucast (STANDARD_BITS OR S_ISTXT)) \<noteq> 0
            then None
            else ADDCMD mem (CHR ''='') (STANDARD_BITS OR S_ISTXT) (word_of_nat perml) msk sb)
         else
           (let (who, q) = who_loop p 0 in
            map_option (\<lambda>s. s\<lparr>sb_cmds := compress_mode (sb_cmds s)\<rparr>)
              (getop_loop mem msk q who False sb))))"


section \<open>Lemmas\<close>

lemma getmode_run_append:
  "\<forall>c \<in> set cs. cmd c \<in> {CHR ''u'', CHR ''g'', CHR ''o'', CHR ''+'', CHR ''-'', CHR ''X''} \<Longrightarrow>
   getmode_run (cs @ ds) om m = getmode_run ds om (getmode_run cs om m)"
  by (induction cs arbitrary: m) auto

text \<open>What a compressed run does to a mode, in the order compression emits it.\<close>

definition run_effect :: "mode_t \<Rightarrow> mode_t \<Rightarrow> mode_t \<Rightarrow> mode_t \<Rightarrow> mode_t \<Rightarrow> mode_t" where
  "run_effect om s c x m =
     (m AND NOT c OR s) OR (if om AND (S_IFDIR OR S_IXUSR OR S_IXGRP OR S_IXOTH) \<noteq> 0 then x else 0)"

lemma run_effect_minus:
  "run_effect om (s AND NOT b) (c OR b) (x AND NOT b) m = run_effect om s c x m AND NOT b"
  by (rule bit_word_eqI) (auto simp: run_effect_def bit_simps)

lemma run_effect_plus:
  "run_effect om (s OR b) (c AND NOT b) (x AND NOT b) m = run_effect om s c x m OR b"
  by (rule bit_word_eqI) (auto simp: run_effect_def bit_simps)

lemma run_effect_X:
  "run_effect om s c (x OR (b AND NOT s)) m =
     (if om AND (S_IFDIR OR S_IXUSR OR S_IXGRP OR S_IXOTH) \<noteq> 0
      then run_effect om s c x m OR b else run_effect om s c x m)"
  by (rule bit_word_eqI) (auto simp: run_effect_def bit_simps)

lemma compress_run_effect:
  "compress_run cs s c x = (s', c', x', rest) \<Longrightarrow>
   getmode_run cs om (run_effect om s c x m) = getmode_run rest om (run_effect om s' c' x' m)"
proof (induction cs arbitrary: s c x)
  case (Cons a cs)
  show ?case
  proof (cases "is_pmX a")
    case True
    then consider "cmd a = CHR ''-''" | "cmd a = CHR ''+''" | "cmd a = CHR ''X''"
      by (auto simp: is_pmX_def)
    then show ?thesis
    proof cases
      case 1
      with Cons.prems Cons.IH show ?thesis by (simp flip: run_effect_minus)
    next
      case 2
      with Cons.prems Cons.IH show ?thesis by (simp flip: run_effect_plus)
    next
      case 3
      then have "compress_run cs s c (x OR bits a AND NOT s) = (s', c', x', rest)"
        using Cons.prems by simp
      from Cons.IH [OF this] 3 show ?thesis by (simp add: run_effect_X)
    qed
  next
    case False
    with Cons.prems show ?thesis by (simp add: is_pmX_def)
  qed
qed simp

lemma getmode_emit:
  "getmode_run
     ((if c \<noteq> 0 then [\<lparr>cmd = CHR ''-'', cmd2 = 0, bits = c\<rparr>] else []) @
      (if s \<noteq> 0 then [\<lparr>cmd = CHR ''+'', cmd2 = 0, bits = s\<rparr>] else []) @
      (if x \<noteq> 0 then [\<lparr>cmd = CHR ''X'', cmd2 = 0, bits = x\<rparr>] else []) @ rest) om m =
   getmode_run rest om (run_effect om s c x m)"
  by (auto simp: run_effect_def)

lemma getmode_run_compress: "getmode_run (compress_mode cs) om m = getmode_run cs om m"
proof (induction cs arbitrary: m rule: compress_mode.induct)
  case (2 a cs)
  show ?case
  proof (cases "is_pmX a")
    case False
    with "2.IH"(1) show ?thesis by (auto simp: is_pmX_def)
  next
    case True
    obtain s c x rest where r: "compress_run (a # cs) 0 0 0 = (s, c, x, rest)"
      by (metis prod_cases4)
    have "getmode_run (compress_mode (a # cs)) om m =
        getmode_run (compress_mode rest) om (run_effect om s c x m)"
      using True r by (simp only: compress_mode.simps simp_thms if_False prod.case getmode_emit)
    also have "\<dots> = getmode_run rest om (run_effect om s c x m)"
      using "2.IH"(2) True r by simp
    also have "\<dots> = getmode_run (a # cs) om (run_effect om 0 0 0 m)"
      using compress_run_effect [OF r] by simp
    finally show ?thesis by (simp add: run_effect_def)
  qed
qed simp

text \<open>Compression writes at most one entry for each kind of command it has read.\<close>

definition nz :: "mode_t \<Rightarrow> nat" where
  "nz w = (if w = 0 then 0 else 1)"

lemma nz_0 [simp]: "nz 0 = 0"
  by (simp add: nz_def)

lemma nz_and: "nz (a AND b) \<le> nz a"
  by (simp add: nz_def)

lemma nz_or: "nz (a OR b) \<le> Suc (nz a)"
  by (simp add: nz_def)

lemma compress_run_zero:
  "compress_run cs s c x = (s', c', x', rest) \<Longrightarrow>
   nz c' + nz s' + nz x' + length rest \<le> nz c + nz s + nz x + length cs"
proof (induction cs arbitrary: s c x)
  case (Cons a cs)
  let ?P = "\<lambda>s c x. nz c' + nz s' + nz x' + length rest \<le> nz c + nz s + nz x + length cs"
  consider "cmd a = CHR ''-''" | "cmd a = CHR ''+''" | "cmd a = CHR ''X''" | "\<not> is_pmX a"
    by (auto simp: is_pmX_def)
  then show ?case
  proof cases
    case 1
    then have "?P (s AND NOT (bits a)) (c OR bits a) (x AND NOT (bits a))"
      using Cons.prems by (intro Cons.IH) simp
    then show ?thesis
      using nz_and [of s "NOT (bits a)"] nz_and [of x "NOT (bits a)"] nz_or [of c "bits a"] by simp
  next
    case 2
    then have "?P (s OR bits a) (c AND NOT (bits a)) (x AND NOT (bits a))"
      using Cons.prems by (intro Cons.IH) simp
    then show ?thesis
      using nz_and [of c "NOT (bits a)"] nz_and [of x "NOT (bits a)"] nz_or [of s "bits a"] by simp
  next
    case 3
    then have "?P s c (x OR (bits a AND NOT s))"
      using Cons.prems by (intro Cons.IH) simp
    then show ?thesis using nz_or [of x "bits a AND NOT s"] by simp
  next
    case 4
    with Cons.prems show ?thesis by (simp add: is_pmX_def)
  qed
qed simp

lemma emit_length:
  "length ((if c \<noteq> 0 then [a1] else []) @ (if s \<noteq> 0 then [a2] else []) @
     (if x \<noteq> 0 then [a3] else []) @ rest) = nz c + nz s + nz x + length rest"
  by (simp add: nz_def)

lemma compress_mode_length: "length (compress_mode cs) \<le> length cs"
proof (induction cs rule: compress_mode.induct)
  case (2 a cs)
  show ?case
  proof (cases "is_pmX a")
    case False
    with "2.IH"(1) show ?thesis by auto
  next
    case True
    obtain s c x rest where r: "compress_run (a # cs) 0 0 0 = (s, c, x, rest)"
      by (metis prod_cases4)
    have "length (compress_mode (a # cs)) = nz c + nz s + nz x + length (compress_mode rest)"
      using True r by (simp only: compress_mode.simps simp_thms if_False prod.case emit_length)
    also have "\<dots> \<le> nz c + nz s + nz x + length rest"
      using "2.IH"(2) True r by simp
    also have "\<dots> \<le> length (a # cs)"
      using compress_run_zero [OF r] by simp
    finally show ?thesis .
  qed
qed simp


section \<open>Invariants of the array under construction\<close>

definition within :: "mode_t \<Rightarrow> bool" where
  "within w \<longleftrightarrow> w AND NOT 0xFFF = 0"

lemma within_simps [simp]:
  "within 0" "within STANDARD_BITS"
  by (simp_all add: within_def STANDARD_BITS_def)

lemma within_or [simp]: "within (a OR b) \<longleftrightarrow> within a \<and> within b"
  by (simp add: within_def bit.conj_disj_distrib2 or_eq_0_iff)

lemma within_and: "within a \<Longrightarrow> within (a AND b)"
  unfolding within_def by (metis and.assoc and.commute and_zero_eq)

lemma within_and2: "within b \<Longrightarrow> within (a AND b)"
  using within_and [of b a] by (simp add: and.commute)

lemma within_num [simp]:
  "within (numeral n) \<longleftrightarrow> (numeral n :: mode_t) AND NOT 0xFFF = 0" "within 1"
  by (simp_all add: within_def)

definition mode_ops :: "char set" where
  "mode_ops = {CHR ''='', CHR ''+'', CHR ''-'', CHR ''X'', CHR ''u'', CHR ''g'', CHR ''o''}"

lemma mode_opsI [simp, intro]:
  "is_op op \<Longrightarrow> op \<in> mode_ops" "is_copy_letter c \<Longrightarrow> c \<in> mode_ops" "CHR ''X'' \<in> mode_ops"
  "CHR ''='' \<in> mode_ops"
  by (auto simp: is_op_def is_copy_letter_def mode_ops_def)

lemma within_chval: "is_op op \<Longrightarrow> within (chval op)"
  by (auto simp: within_def chval_def is_op_def)

text \<open>
  The contract between \<open>ADDCMD\<close> and the parser: whatever property of the array every
  \<open>ADDCMD\<close> with permission masks keeps, the whole parse keeps.
\<close>

locale addcmd_inv =
  fixes mem :: "nat \<Rightarrow> bool"
    and msk :: mode_t
    and I :: "setbuf \<Rightarrow> bool"
  assumes add: "a \<in> mode_ops \<Longrightarrow> within b \<Longrightarrow> within c \<Longrightarrow> I sb \<Longrightarrow>
    ADDCMD mem a b c msk sb = Some sb' \<Longrightarrow> I sb'"
begin

definition J :: "pstate \<Rightarrow> bool" where
  "J st \<longleftrightarrow> within (ps_who st) \<and> within (ps_perm st) \<and> within (ps_permX st) \<and> I (ps_set st)"

lemma J_letter: "J st \<Longrightarrow> J (perm_letter c st)"
  by (simp add: J_def perm_letter_def)

lemma J_upd [simp]:
  "J (st\<lparr>ps_equalopdone := e\<rparr>) = J st"
  "J st \<Longrightarrow> J (st\<lparr>ps_perm := 0\<rparr>)" "J st \<Longrightarrow> J (st\<lparr>ps_permX := 0\<rparr>)"
  by (simp_all add: J_def)

lemma J_withinD: "J st \<Longrightarrow> within (ps_perm st)" "J st \<Longrightarrow> within (ps_permX st)"
  by (simp_all add: J_def)

lemma J_add:
  "add_st mem msk a c st = Some st' \<Longrightarrow> J st \<Longrightarrow> a \<in> mode_ops \<Longrightarrow> within c \<Longrightarrow> J st'"
  unfolding J_def add_st_def by (auto simp: add [of a "ps_who st" c "ps_set st"])

lemma J_flush:
  assumes op: "is_op op" and J: "J st" and fl: "perm_flush mem msk op st = Some st'"
  shows "J st'"
proof -
  from fl obtain st1 where
    1: "(if ps_perm st \<noteq> 0 \<or> op = CHR ''='' \<and> \<not> ps_equalopdone st
         then add_st mem msk op (ps_perm st)
           (if op = CHR ''='' then st\<lparr>ps_equalopdone := True\<rparr> else st) else Some st) = Some st1"
    and 2: "(if ps_permX st1 \<noteq> 0 then add_st mem msk (CHR ''X'') (ps_permX st1) st1
             else Some st1) = Some st'"
    unfolding perm_flush_def bind_eq_Some_conv by blast
  from 1 op J have "J st1"
    by (auto split: if_splits elim!: J_add simp: J_withinD)
  with 2 show "J st'" by (auto split: if_splits elim!: J_add simp: J_withinD)
qed

lemma J_copy:
  assumes op: "is_op op" and c: "is_copy_letter c"
    and J: "J st" and copy: "perm_copy mem msk op c st = Some st'"
  shows "J st'"
proof -
  define g where "g st1 = (if op = CHR ''='' then st1\<lparr>ps_equalopdone := True\<rparr> else st1)"
    for st1 :: pstate
  from copy obtain st1 st3 where
    1: "(if ps_perm st \<noteq> 0 then map_option (\<lambda>s. s\<lparr>ps_perm := 0\<rparr>) (add_st mem msk op (ps_perm st) st)
         else Some st) = Some st1"
    and 3: "(if op = CHR ''+'' \<and> ps_permX (g st1) \<noteq> 0
         then map_option (\<lambda>s. s\<lparr>ps_permX := 0\<rparr>) (add_st mem msk (CHR ''X'') (ps_permX (g st1)) (g st1))
         else Some (g st1)) = Some st3"
    and 4: "add_st mem msk c (chval op) st3 = Some st'"
    unfolding perm_copy_def bind_eq_Some_conv Let_def g_def by blast
  from 1 op J have "J st1"
    by (auto split: if_splits dest!: J_add simp: J_withinD)
  then have "J (g st1)" by (simp add: g_def)
  with 3 have "J st3" by (auto split: if_splits dest!: J_add simp: J_withinD)
  with 4 show "J st'" by (rule J_add) (use op c in \<open>auto intro: within_chval\<close>)
qed

lemma J_loop:
  "is_op op \<Longrightarrow> J st \<Longrightarrow> perm_loop mem msk op cs st = Some (st', rest) \<Longrightarrow> J st'"
proof (induction cs arbitrary: st)
  case Nil
  then show ?case using J_flush by auto
next
  case (Cons c cs)
  consider "is_perm_letter c" | "\<not> is_perm_letter c" "is_copy_letter c"
    | "\<not> is_perm_letter c" "\<not> is_copy_letter c" by blast
  then show ?case
  proof cases
    case 1
    with Cons.prems Cons.IH [OF Cons.prems(1) J_letter [OF Cons.prems(2)]] show ?thesis by simp
  next
    case 2
    with Cons.prems obtain st1 where "perm_copy mem msk op c st = Some st1"
      "perm_loop mem msk op cs st1 = Some (st', rest)" by (auto split: option.splits)
    then show ?thesis using Cons J_copy 2 by blast
  next
    case 3
    with Cons.prems J_flush show ?thesis by auto
  qed
qed

lemma within_who_loop: "within who \<Longrightarrow> within (fst (who_loop cs who))"
  by (induction cs arbitrary: who) simp_all

lemma I_getop:
  "within who \<Longrightarrow> I sb \<Longrightarrow> getop_loop mem msk p who eq sb = Some sb' \<Longrightarrow> I sb'"
proof (induction "length p" arbitrary: p who eq sb rule: less_induct)
  case less
  from less.prems(3) obtain op q st rest where p: "p = op # q" "is_op op"
    and pl: "perm_loop mem msk op q \<lparr>ps_who = who AND NOT S_ISTXT, ps_perm = 0, ps_permX = 0,
        ps_equalopdone = (if op = CHR ''='' then False else eq), ps_set = sb\<rparr> = Some (st, rest)"
    by (subst (asm) getop_loop.simps) (auto split: list.splits if_splits option.splits prod.splits)
  have "J \<lparr>ps_who = who AND NOT S_ISTXT, ps_perm = 0, ps_permX = 0,
        ps_equalopdone = (if op = CHR ''='' then False else eq), ps_set = sb\<rparr>"
    using less.prems by (simp add: J_def within_and del: within_num)
  from J_loop [OF p(2) this pl] have J: "within (ps_who st)" "I (ps_set st)"
    by (simp_all add: J_def)
  have len: "length rest < length p" using perm_loop_length [OF pl] p by simp
  show ?case
  proof (cases rest)
    case Nil
    with less.prems(3) p pl J show ?thesis by (subst (asm) getop_loop.simps) simp
  next
    case (Cons c r)
    show ?thesis
    proof (cases "c = CHR '',''")
      case True
      obtain w r' where w: "who_loop r 0 = (w, r')" by (cases "who_loop r 0")
      have "within w" using within_who_loop [of 0 r] w by simp
      moreover have "length r' < length p" using who_loop_length [OF w] len Cons by simp
      moreover have "getop_loop mem msk p who eq sb =
          getop_loop mem msk r' w (ps_equalopdone st) (ps_set st)"
        by (subst getop_loop.simps) (use p pl Cons True w in simp)
      ultimately show ?thesis using less.hyps less.prems(3) J by simp
    next
      case False
      have "getop_loop mem msk p who eq sb =
          getop_loop mem msk rest (ps_who st) (ps_equalopdone st) (ps_set st)"
        by (subst getop_loop.simps) (use p pl Cons False in simp)
      then show ?thesis using less.hyps [OF len J] less.prems(3) by simp
    qed
  qed
qed

end


text \<open>A run of commands whose bits are permission bits keeps the file type.\<close>

definition cmd_ok :: "bitcmd \<Rightarrow> bool" where
  "cmd_ok c \<longleftrightarrow> cmd c \<in> {CHR ''u'', CHR ''g'', CHR ''o''} \<or> (is_pmX c \<and> within (bits c))"

definition setbuf_ok :: "setbuf \<Rightarrow> bool" where
  "setbuf_ok sb \<longleftrightarrow> (\<forall>c \<in> set (sb_cmds sb). cmd_ok c)"


lemma addcmd_eq:
  "addcmd (CHR ''='') b c d =
     [\<lparr>cmd = CHR ''-'', cmd2 = 0, bits = (if b \<noteq> 0 then b else STANDARD_BITS)\<rparr>,
      \<lparr>cmd = CHR ''+'', cmd2 = 0, bits = (if b \<noteq> 0 then b else d) AND c\<rparr>]"
  by (simp add: addcmd_def fresh_def)

lemma addcmd_pmX:
  "a = CHR ''+'' \<or> a = CHR ''-'' \<or> a = CHR ''X'' \<Longrightarrow>
   addcmd a b c d = [\<lparr>cmd = a, cmd2 = 0, bits = (if b \<noteq> 0 then b else d) AND c\<rparr>]"
  by (auto simp: addcmd_def fresh_def)

lemma addcmd_copy:
  "a = CHR ''u'' \<or> a = CHR ''g'' \<or> a = CHR ''o'' \<Longrightarrow>
   addcmd a b c d = [\<lparr>cmd = a, cmd2 = copy_flags b c, bits = (if b \<noteq> 0 then NOT 0 else d)\<rparr>]"
  by (auto simp: addcmd_def fresh_def)

lemma mode_ops_cases:
  assumes "a \<in> mode_ops"
  obtains (eq) "a = CHR ''=''" | (pmX) "a = CHR ''+'' \<or> a = CHR ''-'' \<or> a = CHR ''X''"
    | (copy) "a = CHR ''u'' \<or> a = CHR ''g'' \<or> a = CHR ''o''"
  using assms by (auto simp: mode_ops_def)

lemma addcmd_ok:
  assumes "a \<in> mode_ops" and "within b" and "within c"
  shows "\<forall>x \<in> set (addcmd a b c d). cmd_ok x"
  using assms(1)
proof (cases rule: mode_ops_cases)
  case eq
  with assms show ?thesis by (simp add: addcmd_eq cmd_ok_def is_pmX_def within_and2)
next
  case pmX
  with assms show ?thesis by (auto simp: addcmd_pmX cmd_ok_def is_pmX_def within_and2)
next
  case copy
  then show ?thesis by (auto simp: addcmd_copy cmd_ok_def)
qed


interpretation ok: addcmd_inv mem msk setbuf_ok for mem msk
proof unfold_locales
  fix a b c sb sb'
  assume "a \<in> mode_ops" "within b" "within c" "setbuf_ok sb" "ADDCMD mem a b c msk sb = Some sb'"
  with addcmd_ok [of a b c msk] show "setbuf_ok sb'"
    by (auto simp: ADDCMD_def setbuf_ok_def Let_def split: if_splits)
qed


lemma compress_run_ok:
  "compress_run cs s c x = (s', c', x', rest) \<Longrightarrow> \<forall>a \<in> set cs. cmd_ok a \<Longrightarrow>
   within s \<Longrightarrow> within c \<Longrightarrow> within x \<Longrightarrow>
   within s' \<and> within c' \<and> within x' \<and> (\<forall>a \<in> set rest. cmd_ok a)"
proof (induction cs arbitrary: s c x)
  case (Cons a cs)
  consider "cmd a = CHR ''-''" | "cmd a = CHR ''+''" | "cmd a = CHR ''X''" | "\<not> is_pmX a"
    by (auto simp: is_pmX_def)
  moreover have "is_pmX a \<Longrightarrow> within (bits a)" using Cons.prems by (auto simp: cmd_ok_def is_pmX_def)
  ultimately show ?case
    using Cons.prems Cons.IH
    by cases (auto simp: is_pmX_def within_and)
qed simp

lemma compress_mode_ok:
  "\<forall>a \<in> set cs. cmd_ok a \<Longrightarrow> \<forall>a \<in> set (compress_mode cs). cmd_ok a"
proof (induction cs rule: compress_mode.induct)
  case (2 a cs)
  show ?case
  proof (cases "is_pmX a")
    case False
    with 2 show ?thesis by auto
  next
    case True
    obtain s c x rest where r: "compress_run (a # cs) 0 0 0 = (s, c, x, rest)"
      by (metis prod_cases4)
    have w: "within s" "within c" "within x" "\<forall>a \<in> set rest. cmd_ok a"
      using compress_run_ok [OF r "2.prems"] by simp_all
    then have "\<forall>a \<in> set (compress_mode rest). cmd_ok a"
      using "2.IH"(2) True r by simp
    with w True r show ?thesis
      by (auto simp del: compress_run.simps simp: cmd_ok_def [of "\<lparr>cmd = _, cmd2 = _, bits = _\<rparr>"] is_pmX_def)
  qed
qed simp

lemma FFF_mask: "(0xFFF :: mode_t) = mask 12"
  by (simp add: mask_eq_exp_minus_1)

lemma bit_len32: "bit (w :: mode_t) i \<Longrightarrow> i < 32"
  by (drule bit_imp_le_length) simp

lemma within_iff_bits: "within w \<longleftrightarrow> (\<forall>i. bit w i \<longrightarrow> i < 12)"
  unfolding within_def FFF_mask
  by (auto simp: bit_eq_iff bit_simps) (blast dest: bit_len32)

lemma within_bit: "within w \<Longrightarrow> 12 \<le> i \<Longrightarrow> \<not> bit w i"
  by (auto simp: within_iff_bits)

definition ftype :: "mode_t \<Rightarrow> mode_t" where
  "ftype m = m AND NOT 0xFFF"

lemma ftype_bits: "ftype m = ftype n \<longleftrightarrow> (\<forall>i \<ge> 12. bit m i = bit n i)"
  unfolding ftype_def FFF_mask
  by (auto simp: bit_eq_iff bit_simps) (meson bit_len32 not_le)+

lemma ftype_set: "within b \<Longrightarrow> ftype (m OR b) = ftype m"
  by (auto simp: ftype_bits bit_simps dest: within_bit)

lemma ftype_clear: "within b \<Longrightarrow> ftype (m AND NOT b) = ftype m"
  by (auto simp: ftype_bits bit_simps dest: within_bit bit_imp_le_length)

text \<open>The value a copy command moves around has three bits.\<close>

definition small3 :: "mode_t \<Rightarrow> bool" where
  "small3 v \<longleftrightarrow> (\<forall>i. bit v i \<longrightarrow> i < 3)"

lemma rwx_masks:
  "S_IRWXU = push_bit 6 (mask 3)" "S_IRWXG = push_bit 3 (mask 3)" "S_IRWXO = mask 3"
  by (simp_all add: mask_eq_exp_minus_1)

lemma small3_values:
  "small3 (drop_bit 6 (m AND S_IRWXU))" "small3 (drop_bit 3 (m AND S_IRWXG))"
  "small3 (m AND S_IRWXO)" "small3 S_IRWXO"
  unfolding rwx_masks by (auto simp: small3_def bit_simps)

lemma within_small3:
  assumes "small3 v"
  shows "within (push_bit 6 v AND b)" "within (push_bit 3 v AND b)" "within (v AND b)"
proof -
  have b: "bit v i \<Longrightarrow> i < 3" for i using assms by (simp add: small3_def)
  have c: "bit v (i - n) \<Longrightarrow> n \<le> i \<Longrightarrow> i < 3 + n" for i n using b [of "i - n"] by linarith
  show "within (push_bit 6 v AND b)" "within (push_bit 3 v AND b)"
    using c [of _ 6] c [of _ 3] by (force simp: within_iff_bits bit_simps)+
  show "within (v AND b)"
    using b by (force simp: within_iff_bits bit_simps)
qed

lemma ftype_common:
  assumes v: "small3 v"
  shows "ftype (getmode_common c v m) = ftype m"
proof -
  define clr where "clr = (if cmd2 c AND CMD2_SET \<noteq> 0 then S_IRWXO else v)"
  have "small3 clr" using v by (simp add: clr_def small3_values)
  with v show ?thesis
    unfolding getmode_common_def Let_def clr_def [symmetric]
    by (simp add: ftype_set ftype_clear within_small3 del: bit.de_Morgan_conj split del: if_split
        split: if_split)
qed

lemma getmode_run_type:
  "\<forall>c \<in> set cs. cmd_ok c \<Longrightarrow> ftype (getmode_run cs om m) = ftype m"
  by (induction cs arbitrary: m)
    (auto simp: ftype_common small3_values cmd_ok_def is_pmX_def ftype_set ftype_clear)


lemma getop_ok:
  "getop_loop mem msk (snd (who_loop p 0)) (fst (who_loop p 0)) False
     \<lparr>sb_cmds = [], sb_len = n\<rparr> = Some sb \<Longrightarrow> setbuf_ok sb"
  by (rule ok.I_getop [OF ok.within_who_loop]) (auto simp: setbuf_ok_def)


text \<open>Octal arguments.\<close>

definition oct_val :: "nat \<Rightarrow> string \<Rightarrow> nat" where
  "oct_val acc ds = foldl (\<lambda>a c. a * 8 + (of_char c - 48)) acc ds"

definition is_octal :: "string \<Rightarrow> bool" where
  "is_octal ds \<longleftrightarrow> (\<forall>c \<in> set ds. octal_digit c \<noteq> None)"

abbreviation "LONG_MAX \<equiv> (2 ^ 63 - 1 :: nat)"

lemma octal_digit_Some: "octal_digit c = Some d \<Longrightarrow> d = of_char c - 48"
  by (simp add: octal_digit_def split: if_splits)

lemma min_min_step: "min (min a m * 8 + d) m = min (a * 8 + d) (m :: nat)"
  by (auto simp: min_def)

lemma oct_val_min: "min (oct_val (min a m) ds) m = min (oct_val a ds) m"
proof (induction ds arbitrary: a)
  case (Cons c ds)
  let ?d = "of_char c - 48 :: nat"
  have "min (oct_val (min a m * 8 + ?d) ds) m = min (oct_val (min (min a m * 8 + ?d) m) ds) m"
    by (rule Cons [symmetric])
  also have "\<dots> = min (oct_val (min (a * 8 + ?d) m) ds) m" by (simp only: min_min_step)
  also have "\<dots> = min (oct_val (a * 8 + ?d) ds) m" by (rule Cons)
  finally show ?case by (simp add: oct_val_def)
qed (simp add: oct_val_def)

lemma strtol8_octal:
  "is_octal ds \<Longrightarrow> acc \<le> LONG_MAX \<Longrightarrow> strtol8 acc ds = (min (oct_val acc ds) LONG_MAX, [])"
proof (induction ds arbitrary: acc)
  case (Cons c ds)
  then obtain d where d: "octal_digit c = Some d" by (auto simp: is_octal_def)
  have "strtol8 acc (c # ds) = strtol8 (min (acc * 8 + d) LONG_MAX) ds" using d by simp
  also have "\<dots> = (min (oct_val (min (acc * 8 + d) LONG_MAX) ds) LONG_MAX, [])"
    using Cons.prems by (intro Cons.IH) (auto simp: is_octal_def)
  also have "\<dots> = (min (oct_val (acc * 8 + d) ds) LONG_MAX, [])" by (simp only: oct_val_min)
  finally show ?case using octal_digit_Some [OF d] by (simp add: oct_val_def)
qed (simp add: oct_val_def)

lemma strtol8_nonoctal: "\<not> is_octal ds \<Longrightarrow> snd (strtol8 acc ds) \<noteq> []"
  by (induction ds arbitrary: acc) (auto simp: is_octal_def split: option.splits)

lemma FFF_mask64: "ucast (STANDARD_BITS OR S_ISTXT) = (mask 12 :: 64 word)"
  by (simp add: STANDARD_BITS_def mask_eq_exp_minus_1)

lemma octal_range: "v \<le> LONG_MAX \<Longrightarrow>
  (word_of_nat v :: 64 word) AND NOT (ucast (STANDARD_BITS OR S_ISTXT)) = 0 \<longleftrightarrow> v < 4096"
proof -
  assume v: "v \<le> LONG_MAX"
  let ?w = "word_of_nat v :: 64 word"
  have u: "unat ?w = v" using v by (simp add: unat_of_nat)
  have "?w AND NOT (mask 12) = 0 \<longleftrightarrow> take_bit 12 ?w = ?w"
    by (auto simp: bit_eq_iff bit_simps)
  also have "\<dots> \<longleftrightarrow> unat (take_bit 12 ?w) = unat ?w" by (simp add: word_unat_eq_iff)
  also have "\<dots> \<longleftrightarrow> v < 4096" unfolding unsigned_take_bit_eq u by (auto simp: take_bit_nat_eq_self_iff)
  finally show ?thesis unfolding FFF_mask64 .
qed

lemma setmode_digit:
  assumes "p \<noteq> []" and "isdigit_c (hd p)" and "mem 8"
  shows "setmode mem um p =
    (if is_octal p \<and> oct_val 0 p < 4096
     then Some \<lparr>sb_cmds = [\<lparr>cmd = CHR ''-'', cmd2 = 0, bits = 0xFFF\<rparr>,
                         \<lparr>cmd = CHR ''+'', cmd2 = 0, bits = 0xFFF AND word_of_nat (oct_val 0 p)\<rparr>],
                sb_len = 8\<rparr>
     else None)"
proof (cases "is_octal p")
  case True
  then have s: "strtol8 0 p = (min (oct_val 0 p) LONG_MAX, [])" by (rule strtol8_octal) simp
  have r: "(word_of_nat (min (oct_val 0 p) LONG_MAX) :: 64 word) AND NOT (ucast (STANDARD_BITS OR S_ISTXT)) = 0
      \<longleftrightarrow> oct_val 0 p < 4096"
    by (subst octal_range) auto
  have "STANDARD_BITS OR S_ISTXT = 0xFFF" by (simp add: STANDARD_BITS_def)
  with True assms s r show ?thesis
    by (simp add: setmode_def Let_def ADDCMD_def addcmd_eq del: min_less_iff_conj)
next
  case False
  then show ?thesis
    using assms strtol8_nonoctal [OF False, of 0]
    by (cases "strtol8 0 p") (simp add: setmode_def Let_def)
qed


text \<open>Symbolic arguments of one clause with the letters \<open>r\<close>, \<open>w\<close> and \<open>x\<close>.\<close>

definition who_bits :: "char \<Rightarrow> mode_t" where
  "who_bits c =
     (if c = CHR ''a'' then STANDARD_BITS else if c = CHR ''u'' then S_ISUID OR S_IRWXU
      else if c = CHR ''g'' then S_ISGID OR S_IRWXG else S_IRWXO)"

definition perm_bits :: "char \<Rightarrow> mode_t" where
  "perm_bits c =
     (if c = CHR ''r'' then S_IRUSR OR S_IRGRP OR S_IROTH
      else if c = CHR ''w'' then S_IWUSR OR S_IWGRP OR S_IWOTH
      else S_IXUSR OR S_IXGRP OR S_IXOTH)"

definition union_bits :: "('a \<Rightarrow> mode_t) \<Rightarrow> 'a list \<Rightarrow> mode_t" where
  "union_bits f xs = foldr (\<lambda>c w. f c OR w) xs 0"

lemma union_bits_simps [simp]:
  "union_bits f [] = 0" "union_bits f (x # xs) = f x OR union_bits f xs"
  by (simp_all add: union_bits_def)

lemma who_loop_prefix:
  "set ws \<subseteq> set ''augo'' \<Longrightarrow> is_op op \<Longrightarrow>
   who_loop (ws @ op # ps) w = (w OR union_bits who_bits ws, op # ps)"
proof (induction ws arbitrary: w)
  case Nil
  then show ?case by (auto simp: is_op_def)
next
  case (Cons c ws)
  then have "c = CHR ''a'' \<or> c = CHR ''u'' \<or> c = CHR ''g'' \<or> c = CHR ''o''" by auto
  then show ?case using Cons by (elim disjE) (simp_all add: who_bits_def or.assoc)
qed

lemma perm_loop_rwx:
  "set ps \<subseteq> set ''rwx'' \<Longrightarrow>
   perm_loop mem msk op ps st =
     map_option (\<lambda>st'. (st', []))
       (perm_flush mem msk op (st\<lparr>ps_perm := ps_perm st OR union_bits perm_bits ps\<rparr>))"
proof (induction ps arbitrary: st)
  case (Cons c ps)
  then have "c = CHR ''r'' \<or> c = CHR ''w'' \<or> c = CHR ''x''" by auto
  then show ?case using Cons
    by (elim disjE)
      (simp_all add: is_perm_letter_def perm_letter_def perm_bits_def or.assoc)
qed simp

lemma who_no_sticky: "union_bits who_bits ws AND NOT S_ISTXT = union_bits who_bits ws"
proof (induction ws)
  case (Cons c ws)
  have "who_bits c AND NOT S_ISTXT = who_bits c" by (simp add: who_bits_def STANDARD_BITS_def)
  with Cons show ?case by (simp add: bit.conj_disj_distrib2)
qed simp

lemma setmode_clause:
  assumes "set ws \<subseteq> set ''augo''" and "is_op op" and "set ps \<subseteq> set ''rwx''" and "mem 8"
  shows "setmode mem um (ws @ op # ps) =
    Some \<lparr>sb_cmds = compress_mode
            (if union_bits perm_bits ps \<noteq> 0 \<or> op = CHR ''=''
             then addcmd op (union_bits who_bits ws) (union_bits perm_bits ps) (NOT um) else []),
          sb_len = 8\<rparr>"
proof -
  let ?W = "union_bits who_bits ws" and ?P = "union_bits perm_bits ps"
  have "hd (ws @ op # ps) \<in> set ''augo+-=''"
    using assms(1,2) by (cases ws) (auto simp: is_op_def)
  then have nd: "\<not> isdigit_c (hd (ws @ op # ps))" by (auto simp: isdigit_c_def)
  have "getop_loop mem (NOT um) (op # ps) ?W False \<lparr>sb_cmds = [], sb_len = 8\<rparr> =
      Some \<lparr>sb_cmds = (if ?P \<noteq> 0 \<or> op = CHR ''='' then addcmd op ?W ?P (NOT um) else []), sb_len = 8\<rparr>"
    using assms(2,3)
    by (subst getop_loop.simps)
      (simp add: who_no_sticky who_no_sticky [simplified] perm_loop_rwx perm_flush_def add_st_def ADDCMD_def)
  with assms nd show ?thesis
    by (simp add: setmode_def Let_def who_loop_prefix)
qed

section \<open>Printing a mode\<close>

text \<open>
  \<open>strmode\<close>, on a system without whiteouts. The result is the string without its NUL.
  \<open>xswitch\<close> is the switch over an execute bit and its companion; it has no default case.
\<close>

definition xswitch :: "mode_t \<Rightarrow> mode_t \<Rightarrow> mode_t \<Rightarrow> char \<Rightarrow> char \<Rightarrow> char \<Rightarrow> string" where
  "xswitch mode x sp cx csp cboth =
     (let v = mode AND (x OR sp) in
      if v = 0 then ''-'' else if v = x then [cx] else if v = sp then [csp]
      else if v = x OR sp then [cboth] else [])"

definition bitchar :: "mode_t \<Rightarrow> mode_t \<Rightarrow> char \<Rightarrow> string" where
  "bitchar mode b c = (if mode AND b \<noteq> 0 then [c] else ''-'')"

definition strmode_type :: "mode_t \<Rightarrow> string" where
  "strmode_type mode =
     (let t = mode AND S_IFMT in
      if t = S_IFDIR then ''d'' else if t = S_IFCHR then ''c'' else if t = S_IFBLK then ''b''
      else if t = S_IFREG then ''-'' else if t = S_IFLNK then ''l'' else if t = S_IFSOCK then ''s''
      else if t = S_IFIFO then ''p'' else ''?'')"

definition strmode :: "mode_t \<Rightarrow> string" where
  "strmode mode =
     strmode_type mode @
     bitchar mode S_IRUSR (CHR ''r'') @ bitchar mode S_IWUSR (CHR ''w'') @
     xswitch mode S_IXUSR S_ISUID (CHR ''x'') (CHR ''S'') (CHR ''s'') @
     bitchar mode S_IRGRP (CHR ''r'') @ bitchar mode S_IWGRP (CHR ''w'') @
     xswitch mode S_IXGRP S_ISGID (CHR ''x'') (CHR ''S'') (CHR ''s'') @
     bitchar mode S_IROTH (CHR ''r'') @ bitchar mode S_IWOTH (CHR ''w'') @
     xswitch mode S_IXOTH S_ISVTX (CHR ''x'') (CHR ''T'') (CHR ''t'') @
     '' ''"

lemma xswitch_bits:
  assumes "a \<noteq> b" and "a < 32" and "b < 32"
  shows "xswitch mode (2 ^ a) (2 ^ b) cx csp cboth =
    [if bit mode a then (if bit mode b then cboth else cx) else (if bit mode b then csp else CHR ''-'')]"
proof -
  define A B :: mode_t where "A = 2 ^ a" and "B = 2 ^ b"
  have A: "bit A i \<longleftrightarrow> i = a" and B: "bit B i \<longleftrightarrow> i = b" for i
    using assms by (auto simp: A_def B_def bit_simps)
  have v: "mode AND (A OR B) = (if bit mode a then A else 0) OR (if bit mode b then B else 0)"
    by (rule bit_word_eqI) (auto simp: bit_simps A B)
  have ne: "A \<noteq> 0" "B \<noteq> 0" "A \<noteq> B" "A OR B \<noteq> 0" "A OR B \<noteq> A" "A OR B \<noteq> B"
    using A B assms(1) by (metis bit_0_eq bot_apply bot_bool_def bit_or_iff)+
  show ?thesis
    unfolding A_def [symmetric] B_def [symmetric] xswitch_def Let_def v
    using ne by auto
qed

lemma bitchar_bit: "bitchar mode (2 ^ a) c = [if bit mode a then c else CHR ''-'']"
  by (simp add: bitchar_def and_exp_eq_0_iff_not_bit)

lemma strmode_bits:
  "strmode mode = strmode_type mode @
     [if bit mode 8 then CHR ''r'' else CHR ''-'', if bit mode 7 then CHR ''w'' else CHR ''-'',
      if bit mode 6 then (if bit mode 11 then CHR ''s'' else CHR ''x'')
      else (if bit mode 11 then CHR ''S'' else CHR ''-''),
      if bit mode 5 then CHR ''r'' else CHR ''-'', if bit mode 4 then CHR ''w'' else CHR ''-'',
      if bit mode 3 then (if bit mode 10 then CHR ''s'' else CHR ''x'')
      else (if bit mode 10 then CHR ''S'' else CHR ''-''),
      if bit mode 2 then CHR ''r'' else CHR ''-'', if bit mode 1 then CHR ''w'' else CHR ''-'',
      if bit mode 0 then (if bit mode 9 then CHR ''t'' else CHR ''x'')
      else (if bit mode 9 then CHR ''T'' else CHR ''-''),
      CHR '' '']"
proof -
  have b: "bitchar mode S_IRUSR c = [if bit mode 8 then c else CHR ''-'']"
    "bitchar mode S_IWUSR c = [if bit mode 7 then c else CHR ''-'']"
    "bitchar mode S_IRGRP c = [if bit mode 5 then c else CHR ''-'']"
    "bitchar mode S_IWGRP c = [if bit mode 4 then c else CHR ''-'']"
    "bitchar mode S_IROTH c = [if bit mode 2 then c else CHR ''-'']"
    "bitchar mode S_IWOTH c = [if bit mode 1 then c else CHR ''-'']" for c
    using bitchar_bit [of mode 8 c] bitchar_bit [of mode 7 c] bitchar_bit [of mode 5 c]
      bitchar_bit [of mode 4 c] bitchar_bit [of mode 2 c] bitchar_bit [of mode 1 c] by simp_all
  have x: "xswitch mode S_IXUSR S_ISUID c d e =
      [if bit mode 6 then (if bit mode 11 then e else c) else (if bit mode 11 then d else CHR ''-'')]"
    "xswitch mode S_IXGRP S_ISGID c d e =
      [if bit mode 3 then (if bit mode 10 then e else c) else (if bit mode 10 then d else CHR ''-'')]"
    "xswitch mode S_IXOTH S_ISVTX c d e =
      [if bit mode 0 then (if bit mode 9 then e else c) else (if bit mode 9 then d else CHR ''-'')]"
    for c d e
    using xswitch_bits [of 6 11 mode c d e] xswitch_bits [of 3 10 mode c d e]
      xswitch_bits [of 0 9 mode c d e] by simp_all
  show ?thesis unfolding strmode_def b x by (simp only: append.simps)
qed

lemma length_strmode_type: "length (strmode_type mode) = 1"
  by (simp add: strmode_type_def Let_def)


section \<open>Properties\<close>

text \<open>
  C7. \<open>compress_mode\<close> is an optimisation: on every command array the compressed array
  computes the same mode from every mode, and it is never longer.
\<close>

theorem compress_mode_correct:
  "getmode (compress_mode cs) m = getmode cs m \<and> length (compress_mode cs) \<le> length cs"
  by (simp add: getmode_def getmode_run_compress compress_mode_length)

text \<open>
  C24. An argument that starts with a digit is accepted exactly when all its characters are octal
  digits and its value is at most 07777, and then the compiled commands replace the twelve
  permission bits by that value and keep the other bits.
\<close>

theorem setmode_octal:
  assumes "p \<noteq> []" and "isdigit_c (hd p)" and "mem 8"
  shows "(setmode mem um p \<noteq> None \<longleftrightarrow> is_octal p \<and> oct_val 0 p < 4096) \<and>
    (\<forall>sb m. setmode mem um p = Some sb \<longrightarrow>
       getmode (sb_cmds sb) m = (m AND NOT 0xFFF) OR word_of_nat (oct_val 0 p))"
proof (cases "is_octal p \<and> oct_val 0 p < 4096")
  case True
  have "(0xFFF :: mode_t) AND word_of_nat (oct_val 0 p) = word_of_nat (oct_val 0 p)"
  proof -
    have "take_bit 12 (oct_val 0 p) = oct_val 0 p" using True by (simp add: take_bit_nat_eq_self_iff)
    then show ?thesis unfolding FFF_mask
      by (metis and.commute of_nat_take_bit take_bit_eq_mask take_bit_of_nat)
  qed
  then show ?thesis
    using True setmode_digit [of p mem um] assms by (auto simp: getmode_def)
next
  case False
  then show ?thesis using setmode_digit [of p mem um] assms by auto
qed

theorem setmode_octal_witness:
  "\<exists>sb. setmode (\<lambda>n. True) 0x12 ''0755'' = Some sb \<and> getmode (sb_cmds sb) 0x8124 = 0x81ED"
  using setmode_octal [where p = "''0755''" and mem = "\<lambda>n. True" and um = "0x12"]
  by (auto simp: isdigit_c_def oct_val_def is_octal_def octal_digit_def)

text \<open>
  C16. A symbolic argument \<open>[ugoa]*[+-=][rwx]*\<close>: the compiled commands add, remove or assign
  the selected permissions of the selected classes; without a class letter the permissions the
  umask forbids are left alone, and an assignment then first clears all classes and the set-id
  bits.
\<close>

theorem setmode_symbolic:
  assumes "set ws \<subseteq> set ''augo''" and "is_op op" and "set ps \<subseteq> set ''rwx''" and "mem 8"
  shows "\<exists>sb. setmode mem um (ws @ op # ps) = Some sb \<and>
    getmode (sb_cmds sb) m =
      (let W = union_bits who_bits ws;
           E = (if W = 0 then NOT um else W) AND union_bits perm_bits ps
       in if op = CHR ''+'' then m OR E
          else if op = CHR ''-'' then m AND NOT E
          else (m AND NOT (if W = 0 then STANDARD_BITS else W)) OR E)"
proof -
  define W P where "W = union_bits who_bits ws" and "P = union_bits perm_bits ps"
  have "getmode (compress_mode (if P \<noteq> 0 \<or> op = CHR ''='' then addcmd op W P (NOT um) else [])) m =
      (let E = (if W = 0 then NOT um else W) AND P
       in if op = CHR ''+'' then m OR E else if op = CHR ''-'' then m AND NOT E
          else (m AND NOT (if W = 0 then STANDARD_BITS else W)) OR E)"
    using assms(2) unfolding is_op_def getmode_def getmode_run_compress
    by (elim disjE) (simp_all add: addcmd_eq addcmd_pmX Let_def)
  then have "getmode (sb_cmds \<lparr>sb_cmds = compress_mode (if P \<noteq> 0 \<or> op = CHR ''=''
        then addcmd op W P (NOT um) else []), sb_len = 8\<rparr>) m =
      (let E = (if W = 0 then NOT um else W) AND P
       in if op = CHR ''+'' then m OR E else if op = CHR ''-'' then m AND NOT E
          else (m AND NOT (if W = 0 then STANDARD_BITS else W)) OR E)"
    by (simp only: setbuf.select_convs)
  then show ?thesis
    using setmode_clause [of ws op ps mem um, OF assms] unfolding W_def P_def Let_def by blast
qed

theorem setmode_symbolic_witness:
  "\<exists>sb. setmode (\<lambda>n. True) 0x12 ''go-w'' = Some sb \<and> getmode (sb_cmds sb) 0x1FF = 0x1ED"
  using setmode_symbolic [where ws = "''go''" and op = "CHR ''-''" and ps = "''w''"
      and mem = "\<lambda>n. True" and um = "0x12" and m = "0x1FF"]
  by (simp add: is_op_def who_bits_def perm_bits_def)

text \<open>
  C20. Whatever the argument, running the compiled commands changes nothing but the twelve
  permission bits: the file type of the mode survives.
\<close>

theorem setmode_keeps_file_type:
  assumes "setmode mem um p = Some sb"
  shows "getmode (sb_cmds sb) m AND NOT 0xFFF = m AND NOT 0xFFF"
proof -
  have "setbuf_ok sb"
  proof (cases "isdigit_c (hd p)")
    case True
    have "within (STANDARD_BITS OR S_ISTXT)" by simp
    with True assms show ?thesis
      by (auto simp: setmode_def Let_def ADDCMD_def addcmd_eq setbuf_ok_def cmd_ok_def is_pmX_def
          within_and STANDARD_BITS_def split: if_splits prod.splits)
  next
    case False
    then obtain sb0 where "getop_loop mem (NOT um) (snd (who_loop p 0)) (fst (who_loop p 0)) False
        \<lparr>sb_cmds = [], sb_len = 8\<rparr> = Some sb0" "sb = sb0\<lparr>sb_cmds := compress_mode (sb_cmds sb0)\<rparr>"
      using assms by (auto simp: setmode_def Let_def split: if_splits prod.splits)
    moreover from this(1) have "setbuf_ok sb0" by (rule getop_ok)
    ultimately show ?thesis
      using compress_mode_ok [of "sb_cmds sb0"] by (simp add: setbuf_ok_def)
  qed
  then have "ftype (getmode (sb_cmds sb) m) = ftype m"
    unfolding setbuf_ok_def getmode_def by (rule getmode_run_type)
  then show ?thesis by (simp add: ftype_def)
qed

theorem setmode_keeps_file_type_witness:
  "\<exists>sb. setmode (\<lambda>n. True) 0 ''a=rX,u+w'' = Some sb \<and>
     getmode (sb_cmds sb) 0x41C0 AND NOT 0xFFF = 0x4000"
proof -
  have "setmode (\<lambda>n. True) 0 ''a=rX,u+w'' \<noteq> None" by code_simp
  then obtain sb where "setmode (\<lambda>n. True) 0 ''a=rX,u+w'' = Some sb" by blast
  with setmode_keeps_file_type [OF this, where m = "0x41C0"] show ?thesis by auto
qed



lemma if_char_eq: "c \<noteq> d \<Longrightarrow> (if a then c else d) = (if b then c else d) \<longleftrightarrow> a = b"
  by simp

lemma if_char4_eq:
  "distinct [c, d, e, f] \<Longrightarrow>
   (if a then (if b then c else d) else (if b then e else f)) =
   (if a' then (if b' then c else d) else (if b' then e else f)) \<longleftrightarrow> a = a' \<and> b = b'"
  by auto

text \<open>
  C26. \<open>strmode\<close> always prints eleven characters and is faithful on the permission bits: two
  modes with the same text have the same twelve permission bits.
\<close>

theorem strmode_faithful:
  "length (strmode m) = 11 \<and> (strmode m = strmode n \<longrightarrow> m AND 0xFFF = n AND 0xFFF)"
proof (intro conjI impI)
  show "length (strmode m) = 11" by (simp add: strmode_bits length_strmode_type)
next
  assume "strmode m = strmode n"
  then have eqs: "bit m 8 = bit n 8" "bit m 7 = bit n 7" "bit m 6 = bit n 6" "bit m 11 = bit n 11"
    "bit m 5 = bit n 5" "bit m 4 = bit n 4" "bit m 3 = bit n 3" "bit m 10 = bit n 10"
    "bit m 2 = bit n 2" "bit m 1 = bit n 1" "bit m 0 = bit n 0" "bit m 9 = bit n 9"
    unfolding strmode_bits
    using append_eq_append_conv [OF disjI1, of "strmode_type m" "strmode_type n"]
    by (simp_all only: length_strmode_type list.inject if_char_eq if_char4_eq char.inject
        distinct.simps list.set simp_thms insert_iff empty_iff)
  have "bit m i = bit n i" if "i < 12" for i
  proof -
    from that have "i = 0 \<or> i = 1 \<or> i = 2 \<or> i = 3 \<or> i = 4 \<or> i = 5 \<or> i = 6 \<or> i = 7 \<or>
      i = 8 \<or> i = 9 \<or> i = 10 \<or> i = 11" by arith
    then show ?thesis by (elim disjE) (simp_all only: eqs)
  qed
  then show "m AND 0xFFF = n AND 0xFFF"
    unfolding FFF_mask by (auto simp: bit_eq_iff bit_simps)
qed

theorem strmode_faithful_witness:
  "strmode 0x81A4 = ''-rw-r--r-- '' \<and> (0x81A4 :: mode_t) AND 0xFFF = 0x181A4 AND 0xFFF"
proof -
  have "strmode 0x81A4 = ''-rw-r--r-- ''" "strmode 0x81A4 = strmode 0x181A4"
    by (simp_all add: strmode_def strmode_type_def xswitch_def bitchar_def)
  with strmode_faithful [of "0x81A4" "0x181A4"] show ?thesis by simp
qed

end
