(* ===== verification/CLib.thy ===== *)
theory CLib
  imports FSU_Prelude "HOL-Library.List_Lexorder"
begin

text \<open>
  Functions of the C library that several components rest on: \<open>strtol\<close>, and the two on which
  the table-driven parts of the program rest:
  \<open>strcmp\<close>, which compares strings as sequences of unsigned characters, and
  \<open>bsearch\<close>, here with the bisection the usual C libraries use. The locale
  \<open>sorted_table\<close> states what a caller of \<open>bsearch\<close> must establish (a table sorted by
  its keys, a comparison function that compares a key with the key of an element) and what
  it gets: bisection is lookup.
\<close>

section \<open>Numbers\<close>

definition digit_val :: "char \<Rightarrow> nat option" where
  "digit_val c =
     (let n = of_char c in
      if 48 \<le> n \<and> n \<le> 57 then Some (n - 48)
      else if 97 \<le> n \<and> n \<le> 122 then Some (n - 87)
      else if 65 \<le> n \<and> n \<le> 90 then Some (n - 55)
      else None)"

fun digits_in :: "nat \<Rightarrow> nat \<Rightarrow> string \<Rightarrow> nat \<times> string" where
  "digits_in b acc [] = (acc, [])"
| "digits_in b acc (c # cs) =
     (case digit_val c of
        Some d \<Rightarrow> if d < b then digits_in b (acc * b + d) cs else (acc, c # cs)
      | None \<Rightarrow> (acc, c # cs))"

definition is_digit_in :: "nat \<Rightarrow> string \<Rightarrow> bool" where
  "is_digit_in b s = (case s of [] \<Rightarrow> False | c # _ \<Rightarrow> case digit_val c of Some d \<Rightarrow> d < b | None \<Rightarrow> False)"

text \<open>
  \<open>strtol(s, \&ep, base)\<close> and \<open>strtoul\<close>, before the result is forced into the range of the
  type: the number and the string at \<open>ep\<close>, which is \<open>s\<close> if there are no digits.
\<close>

definition strtol :: "nat \<Rightarrow> string \<Rightarrow> int \<times> string" where
  "strtol base s =
     (let s1 = dropWhile isspace_c s;
          neg = (take 1 s1 = ''-'');
          s2 = (if neg \<or> take 1 s1 = ''+'' then drop 1 s1 else s1);
          hex = (base = 0 \<or> base = 16) \<and> (take 2 s2 = ''0x'' \<or> take 2 s2 = ''0X'') \<and> is_digit_in 16 (drop 2 s2);
          b = (if base \<noteq> 0 then base else if hex then 16 else if take 1 s2 = ''0'' then 8 else 10);
          s3 = (if hex then drop 2 s2 else s2) in
      if is_digit_in b s3
      then (case digits_in b 0 s3 of (n, ep) \<Rightarrow> (if neg then - int n else int n, ep))
      else (0, s))"

text \<open>The value as a \<open>long\<close>, and whether \<open>errno\<close> is set to \<open>ERANGE\<close>.\<close>

definition to_long :: "int \<Rightarrow> int \<times> bool" where
  "to_long v = (if v > 2 ^ 63 - 1 then (2 ^ 63 - 1, True) else if v < - (2 ^ 63) then (- (2 ^ 63), True) else (v, False))"

section \<open>Searching\<close>

definition codes :: "string \<Rightarrow> nat list" where
  "codes s = map of_char s"

lemma codes_inj: "codes s = codes t \<longleftrightarrow> s = t"
  by (auto simp: codes_def inj_map_eq_map inj_on_def)

definition strcmp_c :: "string \<Rightarrow> string \<Rightarrow> int" where
  "strcmp_c s t = (if codes s < codes t then -1 else if s = t then 0 else 1)"

lemma strcmp_c_simps:
  "strcmp_c s t < 0 \<longleftrightarrow> codes s < codes t"
  "strcmp_c s t = 0 \<longleftrightarrow> s = t"
  "0 < strcmp_c s t \<longleftrightarrow> codes t < codes s"
  by (auto simp: strcmp_c_def codes_inj [symmetric])

text \<open>
  \<open>bsearch key base nmemb compar\<close> over the slice \<open>[lo, hi)\<close> of the table; \<open>compar\<close> is
  already applied to the key.
\<close>

function bsearch_from :: "('e \<Rightarrow> int) \<Rightarrow> 'e list \<Rightarrow> nat \<Rightarrow> nat \<Rightarrow> 'e option" where
  "bsearch_from compar base lo hi =
     (if lo < hi then
        (let mid = (lo + hi) div 2; c = compar (base ! mid) in
         if c < 0 then bsearch_from compar base lo mid
         else if c > 0 then bsearch_from compar base (Suc mid) hi
         else Some (base ! mid))
      else None)"
  by pat_completeness auto
termination
  by (relation "measure (\<lambda>(c, b, lo, hi). hi - lo)") auto

declare bsearch_from.simps [simp del]

definition bsearch :: "('e \<Rightarrow> int) \<Rightarrow> 'e list \<Rightarrow> 'e option" where
  "bsearch compar base = bsearch_from compar base 0 (length base)"

locale sorted_table =
  fixes base :: "'e list"
    and name_of :: "'e \<Rightarrow> string"
    and compar :: "string \<Rightarrow> 'e \<Rightarrow> int"
  assumes sorted: "sorted_wrt (\<lambda>a b. codes (name_of a) < codes (name_of b)) base"
    and compar: "compar key e = strcmp_c key (name_of e)"
begin

lemma order: "i < j \<Longrightarrow> j < length base \<Longrightarrow> codes (name_of (base ! i)) < codes (name_of (base ! j))"
  using sorted by (simp add: sorted_wrt_iff_nth_less)

lemma bsearch_from_lookup:
  "hi \<le> length base \<Longrightarrow>
   bsearch_from (compar key) base lo hi = Some e \<longleftrightarrow>
     (\<exists>i. lo \<le> i \<and> i < hi \<and> base ! i = e \<and> name_of e = key)"
proof (induction "hi - lo" arbitrary: lo hi rule: less_induct)
  case less
  let ?mid = "(lo + hi) div 2"
  show ?case
  proof (cases "lo < hi")
    case False
    then show ?thesis by (subst bsearch_from.simps) auto
  next
    case True
    then have mid: "lo \<le> ?mid" "?mid < hi" "?mid < length base" using less.prems by auto
    have ne: "name_of (base ! i) \<noteq> key"
      if "compar key (base ! ?mid) < 0 \<and> ?mid \<le> i \<or> 0 < compar key (base ! ?mid) \<and> i \<le> ?mid"
        "i < hi" for i
    proof -
      have "?mid < i \<Longrightarrow> codes (name_of (base ! ?mid)) < codes (name_of (base ! i))"
        using that less.prems by (intro order) auto
      moreover have "i < ?mid \<Longrightarrow> codes (name_of (base ! i)) < codes (name_of (base ! ?mid))"
        using mid by (intro order) auto
      ultimately show ?thesis
        using that by (cases "i = ?mid") (auto simp: compar strcmp_c_simps)
    qed
    consider "compar key (base ! ?mid) < 0" | "0 < compar key (base ! ?mid)"
      | "compar key (base ! ?mid) = 0" by linarith
    then show ?thesis
    proof cases
      case 1
      have "bsearch_from (compar key) base lo hi = bsearch_from (compar key) base lo ?mid"
        using True 1 by (subst bsearch_from.simps) simp
      then have "bsearch_from (compar key) base lo hi = Some e \<longleftrightarrow> (\<exists>i. lo \<le> i \<and> i < ?mid \<and> base ! i = e \<and> name_of e = key)"
        using mid less.prems by (simp only:) (intro less.hyps; simp)
      moreover have "i < ?mid \<longleftrightarrow> i < hi" if "name_of (base ! i) = key" for i
        using ne [of i] 1 that mid(2) by (meson not_le less_trans)
      ultimately show ?thesis by blast
    next
      case 2
      have "bsearch_from (compar key) base lo hi = bsearch_from (compar key) base (Suc ?mid) hi"
        using True 2 by (subst bsearch_from.simps) simp
      then have "bsearch_from (compar key) base lo hi = Some e \<longleftrightarrow> (\<exists>i. Suc ?mid \<le> i \<and> i < hi \<and> base ! i = e \<and> name_of e = key)"
        using mid less.prems by (simp only:) (intro less.hyps; simp)
      moreover have "Suc ?mid \<le> i \<longleftrightarrow> lo \<le> i" if "i < hi" "name_of (base ! i) = key" for i
        using ne [of i] 2 that mid(1) by (meson not_less_eq_eq Suc_leD le_trans)
      ultimately show ?thesis by blast
    next
      case 3
      have r: "bsearch_from (compar key) base lo hi = Some (base ! ?mid)"
        using True 3 by (subst bsearch_from.simps) simp
      have k: "name_of (base ! ?mid) = key" using 3 by (simp add: compar strcmp_c_simps)
      have u: "i = ?mid" if "i < hi" "name_of (base ! i) = key" for i
        using that k mid less.prems order [of i ?mid] order [of ?mid i]
        by (cases i ?mid rule: linorder_cases) simp_all
      show ?thesis unfolding r option.inject using k u mid(1,2) by blast
    qed
  qed
qed

text \<open>Bisection finds the entry with the given name if the table has one, else nothing.\<close>

lemma bsearch_Some:
  "bsearch (compar key) base = Some e \<longleftrightarrow> e \<in> set base \<and> name_of e = key"
  unfolding bsearch_def by (subst bsearch_from_lookup) (auto simp: in_set_conv_nth)

lemma bsearch_None:
  "bsearch (compar key) base = None \<longleftrightarrow> key \<notin> name_of ` set base"
  by (metis (no_types, lifting) bsearch_Some image_iff not_None_eq)

end

end
