(* ===== verification/Pack_Dev.thy ===== *)
theory Pack_Dev
  imports CLib
begin

text \<open>
  \<^verbatim>\<open>src/src/pack_dev.c\<close> and \<^verbatim>\<open>pack_dev.h\<close>: how \<^verbatim>\<open>fsu_mknod\<close>
  packs a device's major and minor numbers into a \<open>dev_t\<close> for sixteen systems. The model is
  the LP64 one: \<open>u_long\<close> and \<open>portdev_t\<close> have 64 bits, \<open>int32_t\<close> has 32 and is sign
  extended when it is compared with a \<open>u_long\<close>. The C library's \<open>makedev\<close>, \<open>major\<close>
  and \<open>minor\<close>, which only the native format uses, are parameters.
\<close>

type_synonym u_long = "64 word"
type_synonym portdev_t = "64 word"

text \<open>The conversion \<open>(u_long)(int32_t)x\<close>.\<close>

definition int32_ulong :: "64 word \<Rightarrow> u_long" where
  "int32_ulong x = scast (ucast x :: 32 word)"

datatype pack_error =
  iMajorError | iMinorError | tooManyFields | invalid_unit_number | invalid_subunit_number

text \<open>A pack function returns the device number and the error it stores, if any.\<close>

type_synonym pack_t = "u_long list \<Rightarrow> portdev_t \<times> pack_error option"

section \<open>The formats\<close>

definition pack_native ::
  "(u_long \<Rightarrow> u_long \<Rightarrow> portdev_t) \<Rightarrow> (portdev_t \<Rightarrow> u_long) \<Rightarrow> (portdev_t \<Rightarrow> u_long) \<Rightarrow> pack_t"
where
  "pack_native makedev major minor numbers =
     (case numbers of
        [x, y] \<Rightarrow>
          (let dev = makedev x y in
           (dev, if major dev \<noteq> x then Some iMajorError
                 else if minor dev \<noteq> y then Some iMinorError else None))
      | _ \<Rightarrow> (0, Some tooManyFields))"

definition major_netbsd :: "portdev_t \<Rightarrow> u_long" where
  "major_netbsd x = int32_ulong (drop_bit 8 (x AND 0x000fff00))"

definition minor_netbsd :: "portdev_t \<Rightarrow> u_long" where
  "minor_netbsd x = int32_ulong (drop_bit 12 (x AND 0xfff00000) OR drop_bit 0 (x AND 0x000000ff))"

definition makedev_netbsd :: "u_long \<Rightarrow> u_long \<Rightarrow> portdev_t" where
  "makedev_netbsd x y =
     (push_bit 8 x AND 0x000fff00) OR (push_bit 12 y AND 0xfff00000) OR
     (push_bit 0 y AND 0x000000ff)"

definition pack_netbsd :: pack_t where
  "pack_netbsd numbers =
     (case numbers of
        [x, y] \<Rightarrow>
          (let dev = makedev_netbsd x y in
           (dev, if major_netbsd dev \<noteq> x then Some iMajorError
                 else if minor_netbsd dev \<noteq> y then Some iMinorError else None))
      | _ \<Rightarrow> (0, Some tooManyFields))"

text \<open>
  The other formats test both fields and let the second error replace the first.
\<close>

definition check2 :: "(portdev_t \<Rightarrow> u_long) \<Rightarrow> (portdev_t \<Rightarrow> u_long) \<Rightarrow> portdev_t \<Rightarrow> u_long \<Rightarrow> u_long
    \<Rightarrow> pack_error option" where
  "check2 major minor dev x y =
     (let e = (if major dev \<noteq> x then Some iMajorError else None) in
      if minor dev \<noteq> y then Some iMinorError else e)"

definition major_freebsd :: "portdev_t \<Rightarrow> u_long" where
  "major_freebsd x = int32_ulong (drop_bit 8 (x AND 0x0000ff00))"

definition minor_freebsd :: "portdev_t \<Rightarrow> u_long" where
  "minor_freebsd x = int32_ulong (drop_bit 0 (x AND 0xffff00ff))"

definition makedev_freebsd :: "u_long \<Rightarrow> u_long \<Rightarrow> portdev_t" where
  "makedev_freebsd x y = (push_bit 8 x AND 0x0000ff00) OR (push_bit 0 y AND 0xffff00ff)"

definition pack_freebsd :: pack_t where
  "pack_freebsd numbers =
     (case numbers of
        [x, y] \<Rightarrow> (let dev = makedev_freebsd x y in (dev, check2 major_freebsd minor_freebsd dev x y))
      | _ \<Rightarrow> (0, Some tooManyFields))"

definition major_8_8 :: "portdev_t \<Rightarrow> u_long" where
  "major_8_8 x = int32_ulong (drop_bit 8 (x AND 0x0000ff00))"

definition minor_8_8 :: "portdev_t \<Rightarrow> u_long" where
  "minor_8_8 x = int32_ulong (drop_bit 0 (x AND 0x000000ff))"

definition makedev_8_8 :: "u_long \<Rightarrow> u_long \<Rightarrow> portdev_t" where
  "makedev_8_8 x y = (push_bit 8 x AND 0x0000ff00) OR (push_bit 0 y AND 0x000000ff)"

definition pack_8_8 :: pack_t where
  "pack_8_8 numbers =
     (case numbers of
        [x, y] \<Rightarrow> (let dev = makedev_8_8 x y in (dev, check2 major_8_8 minor_8_8 dev x y))
      | _ \<Rightarrow> (0, Some tooManyFields))"

definition major_12_20 :: "portdev_t \<Rightarrow> u_long" where
  "major_12_20 x = int32_ulong (drop_bit 20 (x AND 0xfff00000))"

definition minor_12_20 :: "portdev_t \<Rightarrow> u_long" where
  "minor_12_20 x = int32_ulong (drop_bit 0 (x AND 0x000fffff))"

definition makedev_12_20 :: "u_long \<Rightarrow> u_long \<Rightarrow> portdev_t" where
  "makedev_12_20 x y = (push_bit 20 x AND 0xfff00000) OR (push_bit 0 y AND 0x000fffff)"

definition pack_12_20 :: pack_t where
  "pack_12_20 numbers =
     (case numbers of
        [x, y] \<Rightarrow> (let dev = makedev_12_20 x y in (dev, check2 major_12_20 minor_12_20 dev x y))
      | _ \<Rightarrow> (0, Some tooManyFields))"

definition major_14_18 :: "portdev_t \<Rightarrow> u_long" where
  "major_14_18 x = int32_ulong (drop_bit 18 (x AND 0xfffc0000))"

definition minor_14_18 :: "portdev_t \<Rightarrow> u_long" where
  "minor_14_18 x = int32_ulong (drop_bit 0 (x AND 0x0003ffff))"

definition makedev_14_18 :: "u_long \<Rightarrow> u_long \<Rightarrow> portdev_t" where
  "makedev_14_18 x y = (push_bit 18 x AND 0xfffc0000) OR (push_bit 0 y AND 0x0003ffff)"

definition pack_14_18 :: pack_t where
  "pack_14_18 numbers =
     (case numbers of
        [x, y] \<Rightarrow> (let dev = makedev_14_18 x y in (dev, check2 major_14_18 minor_14_18 dev x y))
      | _ \<Rightarrow> (0, Some tooManyFields))"

definition major_8_24 :: "portdev_t \<Rightarrow> u_long" where
  "major_8_24 x = int32_ulong (drop_bit 24 (x AND 0xff000000))"

definition minor_8_24 :: "portdev_t \<Rightarrow> u_long" where
  "minor_8_24 x = int32_ulong (drop_bit 0 (x AND 0x00ffffff))"

definition makedev_8_24 :: "u_long \<Rightarrow> u_long \<Rightarrow> portdev_t" where
  "makedev_8_24 x y = (push_bit 24 x AND 0xff000000) OR (push_bit 0 y AND 0x00ffffff)"

definition pack_8_24 :: pack_t where
  "pack_8_24 numbers =
     (case numbers of
        [x, y] \<Rightarrow> (let dev = makedev_8_24 x y in (dev, check2 major_8_24 minor_8_24 dev x y))
      | _ \<Rightarrow> (0, Some tooManyFields))"

definition major_12_12_8 :: "portdev_t \<Rightarrow> u_long" where
  "major_12_12_8 x = int32_ulong (drop_bit 20 (x AND 0xfff00000))"

definition unit_12_12_8 :: "portdev_t \<Rightarrow> u_long" where
  "unit_12_12_8 x = int32_ulong (drop_bit 8 (x AND 0x000fff00))"

definition subunit_12_12_8 :: "portdev_t \<Rightarrow> u_long" where
  "subunit_12_12_8 x = int32_ulong (drop_bit 0 (x AND 0x000000ff))"

definition makedev_12_12_8 :: "u_long \<Rightarrow> u_long \<Rightarrow> u_long \<Rightarrow> portdev_t" where
  "makedev_12_12_8 x y z =
     (push_bit 20 x AND 0xfff00000) OR (push_bit 8 y AND 0x000fff00) OR
     (push_bit 0 z AND 0x000000ff)"

definition pack_bsdos :: pack_t where
  "pack_bsdos numbers =
     (case numbers of
        [x, y] \<Rightarrow> (let dev = makedev_12_20 x y in (dev, check2 major_12_20 minor_12_20 dev x y))
      | [x, y, z] \<Rightarrow>
          (let dev = makedev_12_12_8 x y z;
               e1 = (if major_12_12_8 dev \<noteq> x then Some iMajorError else None);
               e2 = (if unit_12_12_8 dev \<noteq> y then Some invalid_unit_number else e1)
           in (dev, if subunit_12_12_8 dev \<noteq> z then Some invalid_subunit_number else e2))
      | _ \<Rightarrow> (0, Some tooManyFields))"

section \<open>The format table\<close>

record format =
  f_name :: string
  f_pack :: pack_t

definition formats :: "pack_t \<Rightarrow> format list" where
  "formats native =
     [\<lparr>f_name = ''386bsd'', f_pack = pack_8_8\<rparr>,
      \<lparr>f_name = ''4bsd'', f_pack = pack_8_8\<rparr>,
      \<lparr>f_name = ''bsdos'', f_pack = pack_bsdos\<rparr>,
      \<lparr>f_name = ''freebsd'', f_pack = pack_freebsd\<rparr>,
      \<lparr>f_name = ''hpux'', f_pack = pack_8_24\<rparr>,
      \<lparr>f_name = ''isc'', f_pack = pack_8_8\<rparr>,
      \<lparr>f_name = ''linux'', f_pack = pack_8_8\<rparr>,
      \<lparr>f_name = ''native'', f_pack = native\<rparr>,
      \<lparr>f_name = ''netbsd'', f_pack = pack_netbsd\<rparr>,
      \<lparr>f_name = ''osf1'', f_pack = pack_12_20\<rparr>,
      \<lparr>f_name = ''sco'', f_pack = pack_8_8\<rparr>,
      \<lparr>f_name = ''solaris'', f_pack = pack_14_18\<rparr>,
      \<lparr>f_name = ''sunos'', f_pack = pack_8_8\<rparr>,
      \<lparr>f_name = ''svr3'', f_pack = pack_8_8\<rparr>,
      \<lparr>f_name = ''svr4'', f_pack = pack_14_18\<rparr>,
      \<lparr>f_name = ''ultrix'', f_pack = pack_8_8\<rparr>]"

definition compare_format :: "string \<Rightarrow> format \<Rightarrow> int" where
  "compare_format key element = strcmp_c key (f_name element)"

definition pack_find :: "pack_t \<Rightarrow> string \<Rightarrow> pack_t option" where
  "pack_find native name = map_option f_pack (bsearch (compare_format name) (formats native))"

section \<open>Lemmas\<close>

lemma formats_sorted:
  "sorted_wrt (\<lambda>a b. codes (f_name a) < codes (f_name b)) (formats native)"
  by (simp add: formats_def codes_def)

interpretation fmt: sorted_table "formats native" f_name compare_format for native
  by unfold_locales (simp_all add: formats_sorted compare_format_def)

text \<open>Bits of the building blocks.\<close>

lemma bit_int32_ulong:
  "bit (int32_ulong w) i \<longleftrightarrow> i < 64 \<and> (if i < 32 then bit w i else bit w 31)"
proof -
  consider "i < 31" | "i = 31" | "32 \<le> i" by linarith
  then show ?thesis by cases (auto simp: int32_ulong_def bit_simps min_def)
qed

lemma bit_len64: "bit (x :: u_long) i \<Longrightarrow> i < 64"
  by (drule bit_imp_le_length) simp

lemma u_long_eq_iff: "(x :: u_long) = y \<longleftrightarrow> (\<forall>i < 64. bit x i \<longleftrightarrow> bit y i)"
  by (simp add: bit_eq_iff)

lemma below_iff_bits: "unat (x :: u_long) < 2 ^ k \<longleftrightarrow> (\<forall>i. bit x i \<longrightarrow> i < k)"
proof -
  have "unat x < 2 ^ k \<longleftrightarrow> take_bit k (unat x) = unat x" by (simp add: take_bit_nat_eq_self_iff)
  also have "\<dots> \<longleftrightarrow> take_bit k x = x" by (simp add: word_unat_eq_iff unsigned_take_bit_eq)
  also have "\<dots> \<longleftrightarrow> (\<forall>i. bit x i \<longrightarrow> i < k)"
    by (auto simp: bit_eq_iff bit_simps) (blast dest: bit_len64)
  finally show ?thesis .
qed

text \<open>A field of \<open>k\<close> bits at position \<open>n\<close>, read back.\<close>

definition fld :: "nat \<Rightarrow> nat \<Rightarrow> 64 word" where
  "fld n k = push_bit n (mask k)"

lemma bit_fld: "n + k \<le> 64 \<Longrightarrow> bit (fld n k) i \<longleftrightarrow> n \<le> i \<and> i < n + k"
  by (auto simp: fld_def bit_simps)

lemma fld_numerals:
  "0x0000ff00 = fld 8 8" "0x000000ff = fld 0 8" "0xfff00000 = fld 20 12" "0x000fffff = fld 0 20"
  "0xfffc0000 = fld 18 14" "0x0003ffff = fld 0 18" "0xff000000 = fld 24 8" "0x00ffffff = fld 0 24"
  "0x000fff00 = fld 8 12" "0xffff00ff = fld 16 16 OR fld 0 8"
  by (simp_all add: fld_def mask_eq_exp_minus_1)

lemma int32_fld:
  assumes "k < 32" and "n + k \<le> 64"
  shows "bit (int32_ulong (drop_bit n (w AND fld n k))) i \<longleftrightarrow> i < k \<and> bit w (n + i)"
  using assms by (auto simp: bit_int32_ulong bit_simps bit_fld dest: bit_imp_le_length)

text \<open>
  The contract of a two-field format: when reading a field back gives the number that was packed
  into it.
\<close>

locale dev_format =
  fixes makedev :: "u_long \<Rightarrow> u_long \<Rightarrow> portdev_t"
    and major minor :: "portdev_t \<Rightarrow> u_long"
    and ok_major ok_minor :: "u_long \<Rightarrow> bool"
  assumes major_makedev: "major (makedev x y) = x \<longleftrightarrow> ok_major x"
    and minor_makedev: "minor (makedev x y) = y \<longleftrightarrow> ok_minor y"
begin

lemma check2_None: "check2 major minor (makedev x y) x y = None \<longleftrightarrow> ok_major x \<and> ok_minor y"
  by (auto simp: check2_def Let_def major_makedev minor_makedev)

lemma check2_error:
  "check2 major minor (makedev x y) x y =
     (if \<not> ok_minor y then Some iMinorError else if \<not> ok_major x then Some iMajorError else None)"
  by (auto simp: check2_def Let_def major_makedev minor_makedev)

lemma makedev_inj:
  "ok_major x \<Longrightarrow> ok_minor y \<Longrightarrow> ok_major x' \<Longrightarrow> ok_minor y' \<Longrightarrow>
   makedev x y = makedev x' y' \<longleftrightarrow> x = x' \<and> y = y'"
  by (metis major_makedev minor_makedev)

end

abbreviation fits :: "nat \<Rightarrow> u_long \<Rightarrow> bool" where
  "fits k x \<equiv> unat x < 2 ^ k"

text \<open>The general form of the formats with two contiguous fields.\<close>

lemma two_fields:
  assumes "0 < k" "k < 32" "l < 32" "n + k \<le> 64" "l \<le> n"
  shows "int32_ulong (drop_bit n ((push_bit n x AND fld n k OR push_bit 0 y AND fld 0 l) AND fld n k)) = x
      \<longleftrightarrow> fits k x"
    and "int32_ulong (drop_bit 0 ((push_bit n x AND fld n k OR push_bit 0 y AND fld 0 l) AND fld 0 l)) = y
      \<longleftrightarrow> fits l y"
proof -
  let ?d = "push_bit n x AND fld n k OR push_bit 0 y AND fld 0 l"
  have "bit (int32_ulong (drop_bit n (?d AND fld n k))) i \<longleftrightarrow> i < k \<and> bit x i" for i
    using assms by (subst int32_fld) (auto simp: bit_simps bit_fld)
  then show "int32_ulong (drop_bit n (?d AND fld n k)) = x \<longleftrightarrow> fits k x"
    by (auto simp: below_iff_bits bit_eq_iff [of _ x] dest: bit_len64)
  have "bit (int32_ulong (drop_bit 0 (?d AND fld 0 l))) i \<longleftrightarrow> i < l \<and> bit y i" for i
    using assms by (subst int32_fld) (auto simp: bit_simps bit_fld)
  then show "int32_ulong (drop_bit 0 (?d AND fld 0 l)) = y \<longleftrightarrow> fits l y"
    by (auto simp: below_iff_bits bit_eq_iff [of _ y] dest: bit_len64)
qed

interpretation f_8_8: dev_format makedev_8_8 major_8_8 minor_8_8 "fits 8" "fits 8"
  unfolding makedev_8_8_def major_8_8_def minor_8_8_def fld_numerals
  by unfold_locales (rule two_fields; simp)+

interpretation f_12_20: dev_format makedev_12_20 major_12_20 minor_12_20 "fits 12" "fits 20"
  unfolding makedev_12_20_def major_12_20_def minor_12_20_def fld_numerals
  by unfold_locales (rule two_fields; simp)+

interpretation f_14_18: dev_format makedev_14_18 major_14_18 minor_14_18 "fits 14" "fits 18"
  unfolding makedev_14_18_def major_14_18_def minor_14_18_def fld_numerals
  by unfold_locales (rule two_fields; simp)+

interpretation f_8_24: dev_format makedev_8_24 major_8_24 minor_8_24 "fits 8" "fits 24"
  unfolding makedev_8_24_def major_8_24_def minor_8_24_def fld_numerals
  by unfold_locales (rule two_fields; simp)+


text \<open>Facts for the formats whose fields are not two contiguous ones.\<close>

lemma bit_field:
  "n + k \<le> 64 \<Longrightarrow> m \<le> n \<Longrightarrow> bit (drop_bit m (w AND fld n k)) i \<longleftrightarrow> n \<le> m + i \<and> m + i < n + k \<and> bit w (m + i)"
  by (simp add: bit_drop_bit_eq bit_and_iff bit_fld) blast

lemma int32_ulong_id: "(\<And>i. bit w i \<Longrightarrow> i < 31) \<Longrightarrow> int32_ulong w = w"
  by (rule bit_eqI) (force simp: bit_int32_ulong)

lemma eq_iff_below:
  assumes "\<And>i. bit (w :: u_long) i \<longleftrightarrow> i < k \<and> bit x i"
  shows "w = x \<longleftrightarrow> fits k x"
  unfolding below_iff_bits bit_eq_iff assms using bit_len64 by auto

lemma bit_shift_field:
  "n + k \<le> 64 \<Longrightarrow> m \<le> n \<Longrightarrow> bit (push_bit m x AND fld n k) i \<longleftrightarrow> n \<le> i \<and> i < n + k \<and> bit (x :: u_long) (i - m)"
  by (auto simp: bit_and_iff bit_push_bit_iff bit_fld)

interpretation f_netbsd: dev_format makedev_netbsd major_netbsd minor_netbsd "fits 12" "fits 20"
proof
  fix x y
  let ?d = "makedev_netbsd x y"
  have d: "bit ?d i \<longleftrightarrow> 8 \<le> i \<and> i < 20 \<and> bit x (i - 8) \<or> 20 \<le> i \<and> i < 32 \<and> bit y (i - 12) \<or>
      i < 8 \<and> bit y i" for i
    by (simp add: makedev_netbsd_def fld_numerals bit_or_iff bit_shift_field del: push_bit_of_0 push_bit_0_id)
  have "bit (major_netbsd ?d) i \<longleftrightarrow> i < 12 \<and> bit x i" for i
    unfolding major_netbsd_def fld_numerals by (subst int32_fld) (auto simp: d)
  then show "major_netbsd ?d = x \<longleftrightarrow> fits 12 x" by (rule eq_iff_below)
  let ?w = "drop_bit 12 (?d AND fld 20 12) OR drop_bit 0 (?d AND fld 0 8)"
  have w: "bit ?w i \<longleftrightarrow> i < 20 \<and> bit y i" for i
    by (auto simp: bit_or_iff bit_drop_bit_eq bit_and_iff bit_fld d)
  have "minor_netbsd ?d = ?w"
    unfolding minor_netbsd_def fld_numerals by (rule int32_ulong_id, unfold w) simp
  with w show "minor_netbsd ?d = y \<longleftrightarrow> fits 20 y"
    by (simp only:) (rule eq_iff_below)
qed

text \<open>
  The minor field of FreeBSD's format has a hole for the major number and, being the full width of
  an \<open>int32_t\<close>, is read back with its sign.
\<close>

definition freebsd_minor_ok :: "u_long \<Rightarrow> bool" where
  "freebsd_minor_ok y \<longleftrightarrow> y AND 0xff00 = 0 \<and> int32_ulong y = y"

interpretation f_freebsd: dev_format makedev_freebsd major_freebsd minor_freebsd "fits 8" freebsd_minor_ok
proof
  fix x y
  let ?d = "makedev_freebsd x y" and ?M = "fld 16 16 OR fld 0 8"
  have M: "bit ?M i \<longleftrightarrow> 16 \<le> i \<and> i < 32 \<or> i < 8" for i by (simp add: bit_or_iff bit_fld)
  have d: "bit ?d i \<longleftrightarrow> 8 \<le> i \<and> i < 16 \<and> bit x (i - 8) \<or> (16 \<le> i \<and> i < 32 \<or> i < 8) \<and> bit y i" for i
    unfolding makedev_freebsd_def fld_numerals(1,10) bit_or_iff
    by (subst bit_shift_field) (auto simp: bit_and_iff M bit_push_bit_iff dest: bit_len64)
  have "bit (major_freebsd ?d) i \<longleftrightarrow> i < 8 \<and> bit x i" for i
    unfolding major_freebsd_def fld_numerals by (subst int32_fld) (auto simp: d)
  then show "major_freebsd ?d = x \<longleftrightarrow> fits 8 x" by (rule eq_iff_below)
  have w: "bit (?d AND ?M) i \<longleftrightarrow> (16 \<le> i \<and> i < 32 \<or> i < 8) \<and> bit y i" for i
    by (auto simp: bit_and_iff M d)
  have m: "bit (minor_freebsd ?d) i \<longleftrightarrow>
      i < 64 \<and> (if i < 32 then (i < 8 \<or> 16 \<le> i) \<and> bit y i else bit y 31)" for i
    unfolding minor_freebsd_def fld_numerals(10) drop_bit_0 id_apply bit_int32_ulong w by auto
  have hole: "y AND 0xff00 = 0 \<longleftrightarrow> (\<forall>i. 8 \<le> i \<and> i < 16 \<longrightarrow> \<not> bit y i)"
    unfolding fld_numerals(1) bit_eq_iff bit_and_iff by (simp add: bit_fld) (use bit_len64 [of y] in blast)
  have "minor_freebsd ?d = y \<longleftrightarrow> (\<forall>i. i < 64 \<longrightarrow> (bit y i \<longleftrightarrow>
      (if i < 32 then (i < 8 \<or> 16 \<le> i) \<and> bit y i else bit y 31)))"
    unfolding u_long_eq_iff m by (meson order_refl)
  also have "\<dots> \<longleftrightarrow> (\<forall>i. 8 \<le> i \<and> i < 16 \<longrightarrow> \<not> bit y i) \<and>
      (\<forall>i. i < 64 \<longrightarrow> (bit y i \<longleftrightarrow> (if i < 32 then bit y i else bit y 31)))"
  proof -
    have p: "(B i \<longleftrightarrow> (if i < 32 then (i < 8 \<or> 16 \<le> i) \<and> B i else C)) \<longleftrightarrow>
        (8 \<le> i \<and> i < 16 \<longrightarrow> \<not> B i) \<and> (B i \<longleftrightarrow> (if i < 32 then B i else C))"
      for i :: nat and B :: "nat \<Rightarrow> bool" and C by auto
    have "i < 16 \<Longrightarrow> i < 64" for i :: nat by simp
    then show ?thesis unfolding p by blast
  qed
  also have "\<dots> \<longleftrightarrow> freebsd_minor_ok y"
    unfolding freebsd_minor_ok_def hole u_long_eq_iff [of "int32_ulong y"] bit_int32_ulong
    by auto
  finally show "minor_freebsd ?d = y \<longleftrightarrow> freebsd_minor_ok y" .
qed

lemma bsdos3_fields:
  "major_12_12_8 (makedev_12_12_8 x y z) = x \<longleftrightarrow> fits 12 x"
  "unit_12_12_8 (makedev_12_12_8 x y z) = y \<longleftrightarrow> fits 12 y"
  "subunit_12_12_8 (makedev_12_12_8 x y z) = z \<longleftrightarrow> fits 8 z"
proof -
  let ?d = "makedev_12_12_8 x y z"
  have d: "bit ?d i \<longleftrightarrow> 20 \<le> i \<and> i < 32 \<and> bit x (i - 20) \<or> 8 \<le> i \<and> i < 20 \<and> bit y (i - 8) \<or>
      i < 8 \<and> bit z i" for i
    by (simp add: makedev_12_12_8_def fld_numerals bit_or_iff bit_shift_field) (auto simp add: bit_and_iff bit_fld)
  have "bit (major_12_12_8 ?d) i \<longleftrightarrow> i < 12 \<and> bit x i" for i
    unfolding major_12_12_8_def fld_numerals by (subst int32_fld) (auto simp: d)
  then show "major_12_12_8 ?d = x \<longleftrightarrow> fits 12 x" by (rule eq_iff_below)
  have "bit (unit_12_12_8 ?d) i \<longleftrightarrow> i < 12 \<and> bit y i" for i
    unfolding unit_12_12_8_def fld_numerals by (subst int32_fld) (auto simp: d)
  then show "unit_12_12_8 ?d = y \<longleftrightarrow> fits 12 y" by (rule eq_iff_below)
  have "bit (subunit_12_12_8 ?d) i \<longleftrightarrow> i < 8 \<and> bit z i" for i
    unfolding subunit_12_12_8_def fld_numerals by (subst int32_fld) (auto simp: d)
  then show "subunit_12_12_8 ?d = z \<longleftrightarrow> fits 8 z" by (rule eq_iff_below)
qed

lemmas pack_defs = pack_8_8_def pack_12_20_def pack_14_18_def pack_8_24_def pack_netbsd_def
  pack_freebsd_def pack_bsdos_def




definition later_error :: "bool \<Rightarrow> bool \<Rightarrow> pack_error option" where
  "later_error major_ok minor_ok =
     (if \<not> minor_ok then Some iMinorError else if \<not> major_ok then Some iMajorError else None)"

section \<open>Properties\<close>

text \<open>
  C22. Which error each format stores for a pair of numbers: none exactly when both fit into their
  fields (for FreeBSD the minor number must leave the byte of the major number free and survive
  the conversion to a signed 32-bit integer). When neither fits, NetBSD's format reports the major
  number and the others the minor number; BSD/OS's format for three numbers reports the last of
  the three that does not fit.
\<close>

theorem pack_errors:
  "(snd (pack_8_8 [x, y]) = later_error (fits 8 x) (fits 8 y)) \<and>
   (snd (pack_12_20 [x, y]) = later_error (fits 12 x) (fits 20 y)) \<and>
   (snd (pack_14_18 [x, y]) = later_error (fits 14 x) (fits 18 y)) \<and>
   (snd (pack_8_24 [x, y]) = later_error (fits 8 x) (fits 24 y)) \<and>
   (snd (pack_freebsd [x, y]) = later_error (fits 8 x) (freebsd_minor_ok y)) \<and>
   (snd (pack_netbsd [x, y]) =
     (if \<not> fits 12 x then Some iMajorError else if \<not> fits 20 y then Some iMinorError else None)) \<and>
   (snd (pack_bsdos [x, y]) = later_error (fits 12 x) (fits 20 y)) \<and>
   (snd (pack_bsdos [x, y, z]) =
     (if \<not> fits 8 z then Some invalid_subunit_number
      else if \<not> fits 12 y then Some invalid_unit_number
      else if \<not> fits 12 x then Some iMajorError else None))"
  by (intro conjI) (simp_all add: pack_defs Let_def later_error_def f_8_8.check2_error f_12_20.check2_error
      f_14_18.check2_error f_8_24.check2_error f_netbsd.major_makedev f_netbsd.minor_makedev
      f_freebsd.check2_error bsdos3_fields)



text \<open>
  C25. The format table is sorted, so the binary search of \<open>pack_find\<close> is table lookup: it finds
  the pack function of exactly the sixteen listed names.
\<close>

theorem pack_find_lookup:
  "pack_find native name = map_of (map (\<lambda>f. (f_name f, f_pack f)) (formats native)) name"
proof (cases "bsearch (compare_format name) (formats native)")
  case None
  then have "name \<notin> f_name ` set (formats native)"
    by (rule fmt.bsearch_None [THEN iffD1])
  then have "map_of (map (\<lambda>f. (f_name f, f_pack f)) (formats native)) name = None"
    unfolding map_of_eq_None_iff set_map image_image fst_conv .
  with None show ?thesis by (simp add: pack_find_def)
next
  case (Some f)
  then have f: "f \<in> set (formats native)" "f_name f = name"
    using fmt.bsearch_Some [of name native f] by simp_all
  have "distinct (map fst (map (\<lambda>f. (f_name f, f_pack f)) (formats native)))"
    by (simp add: formats_def)
  then have "map_of (map (\<lambda>f. (f_name f, f_pack f)) (formats native)) name = Some (f_pack f)"
    using f by (intro map_of_is_SomeI) (auto simp: image_iff)
  with Some show ?thesis by (simp add: pack_find_def)
qed

end
