(* ===== verification/Rump_Sys.thy ===== *)
theory Rump_Sys
  imports Setmode
begin

text \<open>
  The rump kernel as the utilities see it. The kernel is not part of the repository, so its
  system calls are parameters: a record of functions on an unknown kernel state \<^typ>\<open>'k\<close>.
  A call returns \<open>Inl errno\<close> where the C function returns -1 and \<open>Inr\<close> its result
  otherwise. \<open>errno\<close> is a variable of the program: \<open>call\<close> sets it when a call fails
  and leaves it alone when it succeeds.

  At the end stands a small concrete kernel with one file, for the closed examples.
\<close>

type_synonym fd = int

record stat =
  st_dev :: "64 word"
  st_ino :: "64 word"
  st_mode :: mode_t
  st_nlink :: "32 word"
  st_uid :: "32 word"
  st_gid :: "32 word"
  st_size :: size_t
  st_atime :: int
  st_mtime :: int
  st_ctime :: int
  st_flags :: "32 word"

record dirent =
  d_ino :: "64 word"
  d_type :: nat
  d_name :: string

record 'k rump =
  sys_open :: "string \<Rightarrow> 32 word \<Rightarrow> mode_t \<Rightarrow> 'k \<Rightarrow> (errno + fd) \<times> 'k"
  sys_close :: "fd \<Rightarrow> 'k \<Rightarrow> 'k"
  sys_read :: "fd \<Rightarrow> nat \<Rightarrow> 'k \<Rightarrow> (errno + byte list) \<times> 'k"
  sys_pwrite :: "fd \<Rightarrow> byte list \<Rightarrow> size_t \<Rightarrow> 'k \<Rightarrow> (errno + nat) \<times> 'k"
  sys_fstat :: "fd \<Rightarrow> 'k \<Rightarrow> (errno + stat) \<times> 'k"
  sys_stat :: "string \<Rightarrow> 'k \<Rightarrow> (errno + stat) \<times> 'k"
  sys_lstat :: "string \<Rightarrow> 'k \<Rightarrow> (errno + stat) \<times> 'k"
  sys_chdir :: "string \<Rightarrow> 'k \<Rightarrow> (errno + unit) \<times> 'k"
  sys_getdents :: "fd \<Rightarrow> nat \<Rightarrow> 'k \<Rightarrow> (errno + dirent list) \<times> 'k"

record 'k world =
  kern :: 'k
  errno :: errno

definition call :: "('k \<Rightarrow> (errno + 'a) \<times> 'k) \<Rightarrow> 'k world \<Rightarrow> 'a option \<times> 'k world" where
  "call f w =
     (case f (kern w) of
        (Inl e, k) \<Rightarrow> (None, w\<lparr>kern := k, errno := e\<rparr>)
      | (Inr x, k) \<Rightarrow> (Some x, w\<lparr>kern := k\<rparr>))"

lemma call_Inr: "f (kern w) = (Inr x, k) \<Longrightarrow> call f w = (Some x, w\<lparr>kern := k\<rparr>)"
  by (simp add: call_def)

lemma call_Inl: "f (kern w) = (Inl e, k) \<Longrightarrow> call f w = (None, w\<lparr>kern := k, errno := e\<rparr>)"
  by (simp add: call_def)

abbreviation "EOF \<equiv> (-1 :: int)"

abbreviation "O_RDONLY \<equiv> (0 :: 32 word)"
abbreviation "O_WRONLY \<equiv> (0x1 :: 32 word)"
abbreviation "O_RDWR \<equiv> (0x2 :: 32 word)"
abbreviation "O_APPEND \<equiv> (0x8 :: 32 word)"
abbreviation "O_CREAT \<equiv> (0x200 :: 32 word)"
abbreviation "O_TRUNC \<equiv> (0x400 :: 32 word)"
abbreviation "O_DIRECTORY \<equiv> (0x200000 :: 32 word)"

section \<open>What the utilities rely on\<close>

text \<open>
  Reading a regular file: the descriptor has bytes left to read, \<open>read\<close> returns the next
  ones, as many as asked for unless the file ends first.
\<close>

definition reads_file :: "'k rump \<Rightarrow> fd \<Rightarrow> ('k \<Rightarrow> byte list) \<Rightarrow> bool" where
  "reads_file R fd left \<longleftrightarrow>
     (\<forall>n k. \<exists>k'. sys_read R fd n k = (Inr (take n (left k)), k') \<and> left k' = drop n (left k))"

text \<open>
  Writing a regular file at a position: all bytes are written, and the new contents are the old
  ones with the bytes at the position replaced (a gap reads as zeroes).
\<close>

definition write_at :: "nat \<Rightarrow> byte list \<Rightarrow> byte list \<Rightarrow> byte list" where
  "write_at off bs xs =
     take off (xs @ replicate (off - length xs) 0) @ bs @ drop (off + length bs) xs"

definition pwrites_file :: "'k rump \<Rightarrow> fd \<Rightarrow> ('k \<Rightarrow> byte list) \<Rightarrow> bool" where
  "pwrites_file R fd contents \<longleftrightarrow>
     (\<forall>bs off k. \<exists>k'. sys_pwrite R fd bs off k = (Inr (length bs), k') \<and>
        contents k' = write_at (unat off) bs (contents k))"

text \<open>A descriptor opened for writing only cannot be read.\<close>

definition write_only :: "'k rump \<Rightarrow> fd \<Rightarrow> bool" where
  "write_only R fd \<longleftrightarrow> (\<forall>n k. sys_read R fd n k = (Inl EBADF, k))"

lemma write_at_0: "write_at 0 bs xs = bs @ drop (length bs) xs"
  by (simp add: write_at_def)

section \<open>A kernel with one file\<close>

record one_file =
  of_data :: "byte list"
  of_off :: nat
  of_wronly :: bool

definition file_stat :: "size_t \<Rightarrow> stat" where
  "file_stat n =
     \<lparr>st_dev = 0, st_ino = 2, st_mode = 0x81A4, st_nlink = 1, st_uid = 0, st_gid = 0, st_size = n,
      st_atime = 0, st_mtime = 0, st_ctime = 0, st_flags = 0\<rparr>"

definition one_file_rump :: "one_file rump" where
  "one_file_rump =
     \<lparr>sys_open = (\<lambda>path flags mode k.
        (Inr 3, k\<lparr>of_data := (if flags AND O_TRUNC \<noteq> 0 then [] else of_data k), of_off := 0,
                  of_wronly := (flags AND O_WRONLY \<noteq> 0)\<rparr>)),
      sys_close = (\<lambda>fd k. k),
      sys_read = (\<lambda>fd n k.
        if of_wronly k then (Inl EBADF, k)
        else (Inr (take n (drop (of_off k) (of_data k))), k\<lparr>of_off := of_off k + n\<rparr>)),
      sys_pwrite = (\<lambda>fd bs off k. (Inr (length bs), k\<lparr>of_data := write_at (unat off) bs (of_data k)\<rparr>)),
      sys_fstat = (\<lambda>fd k. (Inr (file_stat (of_nat (length (of_data k)))), k)),
      sys_stat = (\<lambda>path k. (Inr (file_stat (of_nat (length (of_data k)))), k)),
      sys_lstat = (\<lambda>path k. (Inr (file_stat (of_nat (length (of_data k)))), k)),
      sys_chdir = (\<lambda>path k. (Inl 20, k)),
      sys_getdents = (\<lambda>fd n k. (Inl 20, k))\<rparr>"

text \<open>The same file, always opened for reading only or for writing only.\<close>

definition rd_rump :: "one_file rump" where
  "rd_rump = one_file_rump
     \<lparr>sys_read := (\<lambda>fd n k.
        (Inr (take n (drop (of_off k) (of_data k))), k\<lparr>of_off := of_off k + n\<rparr>))\<rparr>"

definition wr_rump :: "one_file rump" where
  "wr_rump = one_file_rump\<lparr>sys_read := (\<lambda>fd n k. (Inl EBADF, k))\<rparr>"

lemma reads_rd_rump: "reads_file rd_rump fd (\<lambda>k. drop (of_off k) (of_data k))"
  by (simp add: reads_file_def rd_rump_def add.commute)

lemma pwrites_wr_rump: "pwrites_file wr_rump fd of_data"
  by (simp add: pwrites_file_def wr_rump_def one_file_rump_def)

lemma write_only_wr_rump: "write_only wr_rump fd"
  by (simp add: write_only_def wr_rump_def)

end
