(* ===== verification/FSU_File.thy ===== *)
theory FSU_File
  imports Rump_Sys
begin

text \<open>
  \<^verbatim>\<open>src/lib/fsu_file.c\<close>: buffered files over the rump system calls. The state is the
  C structure with its integers at their width; an access outside the 8192-byte buffer is
  \<^const>\<open>None\<close>. \<open>sizeof(file->fd_buf)\<close> is \<open>BUF_SIZE\<close>.
\<close>

record FSU_FILE =
  fd_fd :: fd
  fd_buf :: "byte list"
  fd_bpos :: size_t
  fd_fpos :: size_t
  fd_last :: size_t
  fd_eof :: bool
  fd_err :: errno
  fd_mode :: byte
  fd_dirty :: bool

abbreviation "FSU_FILE_READ \<equiv> (1 :: byte)"
abbreviation "FSU_FILE_WRITE \<equiv> (2 :: byte)"
abbreviation "BUF_SIZE \<equiv> (8192 :: nat)"

section \<open>Operations\<close>

definition fsu_fflush :: "'k rump \<Rightarrow> FSU_FILE \<Rightarrow> 'k world \<Rightarrow> (int \<times> FSU_FILE \<times> 'k world) option" where
  "fsu_fflush R file w =
     (if fd_mode file AND FSU_FILE_WRITE = 0 then Some (EOF, file, w\<lparr>errno := EBADF\<rparr>)
      else if fd_dirty file then
        (let n = unat (fd_bpos file) in
         if length (fd_buf file) < n then None
         else
           (let (rv, w1) = call (sys_pwrite R (fd_fd file) (take n (fd_buf file))
                                   (fd_fpos file - fd_bpos file)) w;
                file1 = (if rv \<noteq> Some n then file\<lparr>fd_err := errno w1\<rparr> else file)
            in Some (0, file1\<lparr>fd_dirty := False\<rparr>, w1)))
      else Some (0, file, w))"

definition fsu_fill_buffer :: "'k rump \<Rightarrow> FSU_FILE \<Rightarrow> 'k world \<Rightarrow> (FSU_FILE \<times> 'k world) option" where
  "fsu_fill_buffer R file w = do {
     (_, file, w) \<leftarrow> fsu_fflush R file w;
     let (rv, w) = call (sys_read R (fd_fd file) BUF_SIZE) w;
     (case rv of
        None \<Rightarrow> Some (file\<lparr>fd_err := errno w, fd_eof := True\<rparr>, w)
      | Some bs \<Rightarrow>
          if BUF_SIZE < length bs then None
          else
            (let file = file\<lparr>fd_buf := bs @ drop (length bs) (fd_buf file)\<rparr>;
                 file = (if length bs < BUF_SIZE then file\<lparr>fd_eof := True\<rparr> else file)
             in Some (file\<lparr>fd_last := fd_fpos file + of_nat (length bs), fd_bpos := 0\<rparr>, w)))
   }"

text \<open>
  \<open>fsu_fgetc\<close> returns a \<open>char\<close>: the end of the file is the byte \<open>(char)EOF\<close>.
\<close>

definition fsu_fgetc :: "'k rump \<Rightarrow> FSU_FILE \<Rightarrow> 'k world \<Rightarrow> (byte \<times> FSU_FILE \<times> 'k world) option" where
  "fsu_fgetc R file w =
     (if fd_mode file AND FSU_FILE_READ = 0 then Some (-1, file, w\<lparr>errno := EBADF\<rparr>)
      else if fd_fpos file = fd_last file \<and> (fd_eof file \<or> fd_err file \<noteq> 0) then Some (-1, file, w)
      else do {
        (file, w) \<leftarrow> (if fd_fpos file = fd_last file then fsu_fill_buffer R file w else Some (file, w));
        c \<leftarrow> rd (fd_buf file) (unat (fd_bpos file));
        Some (c, file\<lparr>fd_fpos := fd_fpos file + 1, fd_bpos := fd_bpos file + 1\<rparr>, w)
      })"

definition fsu_fputc :: "'k rump \<Rightarrow> int \<Rightarrow> FSU_FILE \<Rightarrow> 'k world \<Rightarrow> (int \<times> FSU_FILE \<times> 'k world) option" where
  "fsu_fputc R c file w =
     (if fd_mode file AND FSU_FILE_WRITE = 0 then Some (EOF, file, w\<lparr>errno := EBADF\<rparr>)
      else if fd_fpos file = fd_last file \<and> (fd_eof file \<or> fd_err file \<noteq> 0) then Some (EOF, file, w)
      else do {
        (file, w) \<leftarrow> (if fd_fpos file = fd_last file then fsu_fill_buffer R file w else Some (file, w));
        buf \<leftarrow> wr (fd_buf file) (unat (fd_bpos file)) (word_of_int c);
        Some (uint (word_of_int c :: byte),
              file\<lparr>fd_buf := buf, fd_fpos := fd_fpos file + 1, fd_dirty := True,
                   fd_bpos := fd_bpos file + 1\<rparr>, w)
      })"

text \<open>
  \<open>fsu_fopen\<close>. What \<open>malloc\<close> returns is a parameter: \<^const>\<open>None\<close> for \<open>NULL\<close>, or
  memory with indeterminate bytes. So is the indeterminate \<open>sb.st_size\<close>, which the mode
  \<open>a\<close> reads. The mode string keeps its terminator: \<open>mode[0]\<close> of the empty string is the
  NUL.
\<close>

definition fopen_flags :: "string \<Rightarrow> 32 word" where
  "fopen_flags mode =
     (let m0 = hd (mode @ [NUL]);
          flags = (if m0 = CHR ''r'' then O_RDONLY
                   else if m0 = CHR ''w'' then O_WRONLY OR O_CREAT OR O_TRUNC
                   else if m0 = CHR ''a'' then O_WRONLY OR O_CREAT OR O_APPEND
                   else 0)
      in if CHR ''+'' \<in> set mode then flags OR O_RDWR else flags)"

definition fsu_fopen ::
  "'k rump \<Rightarrow> mode_t \<Rightarrow> byte list option \<Rightarrow> size_t \<Rightarrow> string \<Rightarrow> string \<Rightarrow> 'k world
   \<Rightarrow> FSU_FILE option \<times> 'k world"
where
  "fsu_fopen R um mem sb_st_size fname mode w =
     (case mem of
        None \<Rightarrow> (None, w)
      | Some junk \<Rightarrow>
          (let pos = (if hd (mode @ [NUL]) = CHR ''a'' then sb_st_size else 0);
               flags = fopen_flags mode;
               (rv, w) = call (sys_open R fname flags (0x1B6 AND NOT um)) w
           in case rv of
                None \<Rightarrow> (None, w)
              | Some rv \<Rightarrow>
                  (Some \<lparr>fd_fd = rv, fd_buf = junk, fd_bpos = 0, fd_fpos = pos, fd_last = pos,
                         fd_eof = False, fd_err = 0,
                         fd_mode = (if flags AND O_WRONLY \<noteq> 0 then FSU_FILE_WRITE else FSU_FILE_READ),
                         fd_dirty = False\<rparr>, w)))"

definition fsu_fclose :: "'k rump \<Rightarrow> FSU_FILE \<Rightarrow> 'k world \<Rightarrow> 'k world option" where
  "fsu_fclose R file w = do {
     (_, file, w) \<leftarrow> fsu_fflush R file w;
     Some (w\<lparr>kern := sys_close R (fd_fd file) (kern w)\<rparr>)
   }"


definition fsu_feof :: "FSU_FILE \<Rightarrow> bool" where
  "fsu_feof file = fd_eof file"

definition fsu_clearerr :: "FSU_FILE \<Rightarrow> FSU_FILE" where
  "fsu_clearerr file = file\<lparr>fd_err := 0\<rparr>"

definition fsu_ferror :: "FSU_FILE \<Rightarrow> errno" where
  "fsu_ferror file = fd_err file"

text \<open>
  \<open>fsu_fwrite\<close>: the loop that writes whole buffers. \<open>None\<close> inside the result is the
  \<open>return 0\<close> after a failed write; a kernel that keeps writing nothing makes the loop run
  for ever.
\<close>

partial_function (option) fwrite_loop ::
  "'k rump \<Rightarrow> byte list \<Rightarrow> int \<Rightarrow> FSU_FILE \<Rightarrow> 'k world
   \<Rightarrow> ((byte list \<times> int) option \<times> FSU_FILE \<times> 'k world) option"
where
  "fwrite_loop R p rsize file w =
     (if int BUF_SIZE < rsize then
        (if length p < BUF_SIZE then None
         else
           (case call (sys_pwrite R (fd_fd file) (take BUF_SIZE p) (fd_fpos file)) w of
              (None, w) \<Rightarrow> Some (None, file\<lparr>fd_err := errno w\<rparr>, w)
            | (Some rv, w) \<Rightarrow>
                fwrite_loop R (drop rv p) (rsize - int rv)
                  (file\<lparr>fd_fpos := fd_fpos file + of_nat rv\<rparr>) w))
      else Some (Some (p, rsize), file, w))"

text \<open>\<open>ptr\<close> is the caller's memory from \<open>ptr\<close> on.\<close>

definition fsu_fwrite ::
  "'k rump \<Rightarrow> byte list \<Rightarrow> size_t \<Rightarrow> size_t \<Rightarrow> FSU_FILE \<Rightarrow> 'k world
   \<Rightarrow> (size_t \<times> FSU_FILE \<times> 'k world) option"
where
  "fsu_fwrite R ptr isize nmemb file w =
     (let rsize = sint (isize * nmemb) in
      if rsize = 0 then Some (0, file, w)
      else if fd_mode file AND FSU_FILE_WRITE = 0 then Some (0, file, w\<lparr>errno := EBADF\<rparr>)
      else if fd_err file \<noteq> 0 then Some (0, file, w)
      else if sint (of_nat BUF_SIZE - fd_bpos file) < rsize then do {
        (_, file, w) \<leftarrow> fsu_fflush R file w;
        (r, file, w) \<leftarrow> fwrite_loop R ptr rsize file w;
        (case r of
           None \<Rightarrow> Some (0, file, w)
         | Some (p, rsize) \<Rightarrow>
             if rsize < 0 \<or> int (length p) < rsize then None
             else
               (case call (sys_pwrite R (fd_fd file) (take (nat rsize) p) (fd_fpos file)) w of
                  (None, w) \<Rightarrow> Some (0, file\<lparr>fd_err := errno w\<rparr>, w)
                | (Some rv, w) \<Rightarrow>
                    (let file = file\<lparr>fd_fpos := fd_fpos file + of_nat rv\<rparr> in
                     if int rv = rsize then do {
                       (file, w) \<leftarrow> fsu_fill_buffer R (file\<lparr>fd_last := fd_fpos file\<rparr>) w;
                       Some (nmemb, file, w)
                     }
                     else Some (word_of_int (rsize - int rv) div isize, file, w))))
      }
      else if rsize < 0 \<or> int (length ptr) < rsize \<or>
              length (fd_buf file) < unat (fd_bpos file) + nat rsize then None
      else
        (let n = nat rsize; b = unat (fd_bpos file) in
         Some (nmemb,
               file\<lparr>fd_buf := take b (fd_buf file) @ take n ptr @ drop (b + n) (fd_buf file),
                    fd_fpos := fd_fpos file + of_nat n, fd_bpos := fd_bpos file + of_nat n,
                    fd_dirty := True\<rparr>, w)))"

datatype whence = SEEK_SET | SEEK_CUR | SEEK_END | SEEK_other

text \<open>
  \<open>fsu_fseeko\<close>. A failing \<open>fstat\<close> goes unnoticed and leaves the size indeterminate: the
  parameter \<open>sb_st_size\<close>.
\<close>

definition fsu_fseeko ::
  "'k rump \<Rightarrow> size_t \<Rightarrow> FSU_FILE \<Rightarrow> size_t \<Rightarrow> whence \<Rightarrow> 'k world
   \<Rightarrow> (int \<times> FSU_FILE \<times> 'k world) option"
where
  "fsu_fseeko R sb_st_size file off whence w = do {
     (_, file, w) \<leftarrow> fsu_fflush R file w;
     let file = fsu_clearerr file;
     let (rv, w) = call (sys_fstat R (fd_fd file)) w;
     let sz = (case rv of None \<Rightarrow> sb_st_size | Some sb \<Rightarrow> st_size sb);
     let pos = (case whence of
                  SEEK_CUR \<Rightarrow> Some (fd_fpos file + off)
                | SEEK_SET \<Rightarrow> Some off
                | SEEK_END \<Rightarrow> Some (sz + off)
                | SEEK_other \<Rightarrow> None);
     (case pos of
        None \<Rightarrow> Some (-1, file, w\<lparr>errno := EINVAL\<rparr>)
      | Some fpos \<Rightarrow>
          (let file = file\<lparr>fd_fpos := fpos\<rparr> in
           if sz \<le> fpos then Some (0, file\<lparr>fd_last := fpos, fd_bpos := 0\<rparr>, w)
           else do {
             (file, w) \<leftarrow> fsu_fill_buffer R file w;
             Some (0, file, w)
           }))
   }"

definition fsu_fseek ::
  "'k rump \<Rightarrow> size_t \<Rightarrow> FSU_FILE \<Rightarrow> size_t \<Rightarrow> whence \<Rightarrow> 'k world
   \<Rightarrow> (int \<times> FSU_FILE \<times> 'k world) option"
where
  "fsu_fseek R sb_st_size file off whence w = fsu_fseeko R sb_st_size file off whence w"


definition fsu_ftello :: "FSU_FILE \<Rightarrow> int" where
  "fsu_ftello file = sint (fd_fpos file)"

text \<open>
  The loop of \<open>fsu_fread\<close>. \<open>r\<close> is an \<open>int\<close>, its comparison with \<open>resid\<close> is one of
  \<open>size_t\<close>s. \<open>Inl\<close> is the return inside the loop.
\<close>

definition buffered :: "FSU_FILE \<Rightarrow> int" where
  "buffered file = sint (ucast (fd_last file - fd_fpos file) :: 32 word)"

definition buf_copy :: "FSU_FILE \<Rightarrow> nat \<Rightarrow> byte list option" where
  "buf_copy file n =
     (if unat (fd_bpos file) + n \<le> length (fd_buf file)
      then Some (take n (drop (unat (fd_bpos file)) (fd_buf file))) else None)"

text \<open>Termination: a refill either reaches the end of the file or fills the whole buffer.\<close>

lemma fill_buffer_cases:
  assumes "fsu_fill_buffer R f w = Some (f', w')" and "\<not> fd_eof f'"
  shows "fd_last f' - fd_fpos f' = of_nat BUF_SIZE"
  using assms
  by (auto simp: fsu_fill_buffer_def Let_def split: option.splits prod.splits if_splits Option.bind_splits)

lemma buffered_size: "0 \<le> buffered f \<Longrightarrow> unat (word_of_int (buffered f) :: size_t) = nat (buffered f)"
proof -
  assume p: "0 \<le> buffered f"
  have "buffered f < 2 ^ 31"
    unfolding buffered_def using sint_lt [of "ucast (fd_last f - fd_fpos f) :: 32 word"] by simp
  with p have "uint (word_of_int (buffered f) :: size_t) = buffered f"
    by (simp add: uint_word_of_int)
  then show ?thesis by (metis nat_uint_eq)
qed

function fread_loop ::
  "'k rump \<Rightarrow> size_t \<Rightarrow> byte list \<Rightarrow> FSU_FILE \<Rightarrow> 'k world
   \<Rightarrow> (bool \<times> size_t \<times> byte list \<times> FSU_FILE \<times> 'k world) option"
where
  "fread_loop R resid out file w =
     (let r = buffered file in
      if word_of_int r < resid then
        (if r < 0 then None
         else
           (case buf_copy file (nat r) of
              None \<Rightarrow> None
            | Some bs \<Rightarrow>
                (let file1 = file\<lparr>fd_fpos := fd_fpos file + word_of_int r\<rparr>;
                     resid1 = resid - word_of_int r
                 in if fd_eof file1 then Some (True, resid1, out @ bs, file1, w)
                    else
                      (case fsu_fill_buffer R file1 w of
                         None \<Rightarrow> None
                       | Some (file2, w2) \<Rightarrow> fread_loop R resid1 (out @ bs) file2 w2))))
      else Some (False, resid, out, file, w))"
  by pat_completeness auto
termination
proof (relation "measures [\<lambda>(R, resid, out, f, w). unat resid,
      \<lambda>(R, resid, out, f, w). if fd_eof f then 0 else if buffered f = 0 then 2 else 1]", goal_cases)
  case 1
  show ?case by simp
next
  case (2 R resid out f w r bs f1 resid1 p f2 w2)
  have full: "buffered f2 = 8192" if "\<not> fd_eof f2"
    using fill_buffer_cases [of R f1 w f2 w2] 2 that by (simp add: buffered_def)
  show ?case
  proof (cases "r = 0")
    case True
    then show ?thesis using 2 full by auto
  next
    case False
    with 2 have "0 < buffered f" by simp
    then have "0 < unat (word_of_int r :: size_t)" using 2(1) buffered_size [of f] by simp
    moreover have "unat (resid - word_of_int r) = unat resid - unat (word_of_int r :: size_t)"
      using 2(2) by (intro unat_sub) (rule less_imp_le)
    ultimately have "unat (resid - word_of_int r) < unat resid"
      using 2(2) by (simp add: word_less_nat_alt)
    then show ?thesis using 2 by simp
  qed
qed

declare fread_loop.simps [simp del]

definition fsu_fread ::
  "'k rump \<Rightarrow> size_t \<Rightarrow> size_t \<Rightarrow> FSU_FILE \<Rightarrow> 'k world
   \<Rightarrow> (size_t \<times> byte list \<times> FSU_FILE \<times> 'k world) option"
where
  "fsu_fread R isize count file w =
     (let total = count * isize in
      if total = 0 then Some (0, [], file, w)
      else do {
        (_, file, w) \<leftarrow> fsu_fflush R file w;
        (early, resid, out, file, w) \<leftarrow> fread_loop R total [] file w;
        (if early then Some ((total - resid) div isize, out, file, w)
         else do {
           bs \<leftarrow> buf_copy file (unat resid);
           Some (count, out @ bs,
                 file\<lparr>fd_fpos := fd_fpos file + resid, fd_bpos := fd_bpos file + resid\<rparr>, w)
         })
      })"



section \<open>Reading\<close>

text \<open>
  A file open for reading: \<open>ahead\<close> are the bytes of the buffer that have not been delivered,
  \<open>pending\<close> everything the file still has to deliver when the kernel has \<open>left k\<close>.
\<close>

definition ahead :: "FSU_FILE \<Rightarrow> byte list" where
  "ahead f = take (unat (fd_last f - fd_fpos f)) (drop (unat (fd_bpos f)) (fd_buf f))"

definition rd_ok :: "FSU_FILE \<Rightarrow> bool" where
  "rd_ok f \<longleftrightarrow> fd_mode f = FSU_FILE_READ \<and> fd_err f = 0 \<and> length (fd_buf f) = BUF_SIZE \<and>
     unat (fd_bpos f) + unat (fd_last f - fd_fpos f) \<le> BUF_SIZE"

definition pending :: "('k \<Rightarrow> byte list) \<Rightarrow> FSU_FILE \<Rightarrow> 'k world \<Rightarrow> byte list" where
  "pending left f w = ahead f @ (if fd_eof f then [] else left (kern w))"

lemma length_ahead: "rd_ok f \<Longrightarrow> length (ahead f) = unat (fd_last f - fd_fpos f)"
  by (auto simp: rd_ok_def ahead_def)

lemma fflush_read [simp]: "rd_ok f \<Longrightarrow> fsu_fflush R f w = Some (EOF, f, w\<lparr>errno := EBADF\<rparr>)"
  by (simp add: rd_ok_def fsu_fflush_def)

lemma fill_buffer_read:
  assumes "reads_file R (fd_fd f) left" and "rd_ok f"
  obtains k where "left k = drop BUF_SIZE (left (kern w))"
    and "fsu_fill_buffer R f w =
      (let bs = take BUF_SIZE (left (kern w)) in
       Some (f\<lparr>fd_buf := bs @ drop (length bs) (fd_buf f),
               fd_eof := (fd_eof f \<or> length bs < BUF_SIZE),
               fd_last := fd_fpos f + of_nat (length bs), fd_bpos := 0\<rparr>,
             w\<lparr>errno := EBADF, kern := k\<rparr>))"
proof -
  obtain k where k: "sys_read R (fd_fd f) BUF_SIZE (kern w) = (Inr (take BUF_SIZE (left (kern w))), k)"
    "left k = drop BUF_SIZE (left (kern w))"
    using assms(1) unfolding reads_file_def by blast
  show thesis
    by (rule that [OF k(2)])
      (use assms(2) k(1) in \<open>auto simp: fsu_fill_buffer_def call_def Let_def min_def\<close>)
qed

text \<open>A refill of an exhausted buffer keeps what is pending.\<close>

lemma fill_buffer_pending:
  assumes "reads_file R (fd_fd f) left" and "rd_ok f" and "\<not> fd_eof f"
  shows "\<exists>f' w'. fsu_fill_buffer R f w = Some (f', w') \<and> rd_ok f' \<and> fd_fd f' = fd_fd f \<and>
    fd_fpos f' = fd_fpos f \<and> fd_bpos f' = 0 \<and>
    ahead f' = take BUF_SIZE (left (kern w)) \<and> pending left f' w' = left (kern w) \<and>
    fd_eof f' = (length (left (kern w)) < BUF_SIZE)"
proof -
  obtain k where k: "left k = drop BUF_SIZE (left (kern w))"
    "fsu_fill_buffer R f w =
      (let bs = take BUF_SIZE (left (kern w)) in
       Some (f\<lparr>fd_buf := bs @ drop (length bs) (fd_buf f),
               fd_eof := (fd_eof f \<or> length bs < BUF_SIZE),
               fd_last := fd_fpos f + of_nat (length bs), fd_bpos := 0\<rparr>,
             w\<lparr>errno := EBADF, kern := k\<rparr>))"
    by (rule fill_buffer_read [OF assms(1,2)])
  have n: "unat (of_nat (min (length (left (kern w))) BUF_SIZE) :: size_t) = min (length (left (kern w))) BUF_SIZE"
    by (rule unat_of_nat_small) simp
  show ?thesis
    using assms(2,3) k
    by (auto simp: rd_ok_def Let_def ahead_def pending_def n)
qed


text \<open>Moving the position over bytes that are buffered.\<close>

lemma ahead_advance:
  assumes "rd_ok f" and "n \<le> unat (fd_last f - fd_fpos f)"
  shows "rd_ok (f\<lparr>fd_fpos := fd_fpos f + of_nat n, fd_bpos := fd_bpos f + of_nat n\<rparr>)" (is "rd_ok ?f")
    and "ahead (f\<lparr>fd_fpos := fd_fpos f + of_nat n, fd_bpos := fd_bpos f + of_nat n\<rparr>) = drop n (ahead f)"
    and "buf_copy f n = Some (take n (ahead f))"
proof -
  let ?d = "fd_last f - fd_fpos f"
  have b: "unat (fd_bpos f) + unat ?d \<le> BUF_SIZE" using assms(1) by (simp add: rd_ok_def)
  have n: "unat (of_nat n :: size_t) = n" using assms(2) b by (intro unat_of_nat_small) simp
  have d: "unat (fd_last f - (fd_fpos f + of_nat n)) = unat ?d - n"
  proof -
    have "fd_last f - (fd_fpos f + of_nat n) = ?d - of_nat n" by simp
    moreover have "(of_nat n :: size_t) \<le> ?d" using assms(2) n by (simp add: word_le_nat_alt)
    ultimately show ?thesis using n by (simp only: unat_sub)
  qed
  have p: "unat (fd_bpos f + of_nat n) = unat (fd_bpos f) + n"
    using b assms(2) n by (subst unat_add_lem [THEN iffD1]) simp_all
  show "rd_ok ?f" using assms d p b by (simp add: rd_ok_def)
  show "ahead ?f = drop n (ahead f)"
    by (simp add: ahead_def d p drop_take add.commute)
  show "buf_copy f n = Some (take n (ahead f))"
    using assms b by (simp add: buf_copy_def ahead_def rd_ok_def min_absorb1)
qed

lemma buffered_ahead: "rd_ok f \<Longrightarrow> buffered f = int (length (ahead f))"
proof -
  assume f: "rd_ok f"
  let ?d = "fd_last f - fd_fpos f"
  have "unat ?d \<le> 8192" using f by (simp add: rd_ok_def)
  then have "sint (ucast ?d :: 32 word) = int (unat ?d)" by (intro sint_ucast_small) simp
  then show ?thesis by (simp add: buffered_def length_ahead [OF f])
qed

lemma fread_loop_pending:
  assumes "reads_file R (fd_fd f) left" and "rd_ok f"
  shows "\<exists>early resid' bs f' w'.
    fread_loop R resid out f w = Some (early, resid', out @ bs, f', w') \<and>
    rd_ok f' \<and> fd_fd f' = fd_fd f \<and>
    pending left f w = bs @ pending left f' w' \<and>
    unat resid = length bs + unat resid' \<and>
    (if early then 0 < unat resid' \<and> pending left f' w' = [] else unat resid' \<le> length (ahead f'))"
  using assms
proof (induction R resid out f w rule: fread_loop.induct)
  case (1 R resid out f w)
  note f = \<open>rd_ok f\<close> and rf = \<open>reads_file R (fd_fd f) left\<close>
  let ?r = "buffered f" and ?n = "length (ahead f)"
  have r: "?r = int ?n" using f by (rule buffered_ahead)
  have n: "?n = unat (fd_last f - fd_fpos f)" using f by (rule length_ahead)
  have wn: "word_of_int ?r = (of_nat ?n :: size_t)" by (simp add: r)
  have un: "unat (of_nat ?n :: size_t) = ?n" by (simp add: n)
  show ?case
  proof (cases "word_of_int ?r < resid")
    case False
    then have "unat resid \<le> ?n" by (simp add: wn word_less_nat_alt un)
    with False f show ?thesis by (subst fread_loop.simps) (auto simp: Let_def)
  next
    case True
    then have lt: "?n < unat resid" by (simp add: wn word_less_nat_alt un)
    define f1 where "f1 = f\<lparr>fd_fpos := fd_fpos f + word_of_int ?r\<rparr>"
    have resid1: "unat (resid - word_of_int ?r) = unat resid - ?n"
      using lt un by (simp add: wn unat_sub word_le_nat_alt)
    have copy: "buf_copy f (nat ?r) = Some (ahead f)"
      using ahead_advance(3) [OF f, of ?n] by (simp add: r n)
    have d1: "fd_last f - fd_fpos f1 = 0" by (simp add: f1_def wn n)
    have f1: "rd_ok f1" "ahead f1 = []" "fd_fd f1 = fd_fd f" "fd_eof f1 = fd_eof f"
      using f d1 by (simp_all add: rd_ok_def ahead_def f1_def)
    have unf: "fread_loop R resid out f w =
      (if fd_eof f1 then Some (True, resid - word_of_int ?r, out @ ahead f, f1, w)
       else (case fsu_fill_buffer R f1 w of None \<Rightarrow> None
             | Some (file2, w2) \<Rightarrow> fread_loop R (resid - word_of_int ?r) (out @ ahead f) file2 w2))"
      using True copy r by (subst fread_loop.simps) (simp add: Let_def f1_def split: option.split)
    show ?thesis
    proof (cases "fd_eof f")
      case True
      with unf f1 lt resid1 show ?thesis
        by (auto simp: pending_def)
    next
      case False
      then obtain f2 w2 where fill: "fsu_fill_buffer R f1 w = Some (f2, w2)" "rd_ok f2"
        "fd_fd f2 = fd_fd f1" "pending left f2 w2 = left (kern w)"
        using fill_buffer_pending [of R f1 left w] rf f1 by auto
      have "\<exists>early resid' bs f' w'.
        fread_loop R (resid - word_of_int ?r) (out @ ahead f) f2 w2 = Some (early, resid', (out @ ahead f) @ bs, f', w') \<and>
        rd_ok f' \<and> fd_fd f' = fd_fd f2 \<and>
        pending left f2 w2 = bs @ pending left f' w' \<and>
        unat (resid - word_of_int ?r) = length bs + unat resid' \<and>
        (if early then 0 < unat resid' \<and> pending left f' w' = [] else unat resid' \<le> length (ahead f'))"
        by (rule "1.IH" [OF refl True _ copy f1_def refl _ fill(1) refl])
          (use rf f1 fill False r in simp_all)
      then obtain early resid' bs f' w' where ih:
        "fread_loop R (resid - word_of_int ?r) (out @ ahead f) f2 w2 = Some (early, resid', (out @ ahead f) @ bs, f', w')"
        "rd_ok f'" "fd_fd f' = fd_fd f2" "pending left f2 w2 = bs @ pending left f' w'"
        "unat (resid - word_of_int ?r) = length bs + unat resid'"
        "if early then 0 < unat resid' \<and> pending left f' w' = [] else unat resid' \<le> length (ahead f')"
        by blast
      show ?thesis
        by (rule exI [of _ early], rule exI [of _ resid'], rule exI [of _ "ahead f @ bs"],
            rule exI [of _ f'], rule exI [of _ w'])
          (use ih unf f1 fill False resid1 lt in \<open>auto simp: pending_def\<close>)
    qed
  qed
qed


text \<open>Reading byte by byte.\<close>

lemma fgetc_buffered:
  assumes "rd_ok f" and "ahead f \<noteq> []"
  shows "\<exists>f'. fsu_fgetc R f w = Some (hd (ahead f), f', w) \<and> rd_ok f' \<and> fd_fd f' = fd_fd f \<and>
    ahead f' = tl (ahead f) \<and> fd_eof f' = fd_eof f \<and>
    f' = f\<lparr>fd_fpos := fd_fpos f + 1, fd_bpos := fd_bpos f + 1\<rparr>"
proof -
  have n: "0 < unat (fd_last f - fd_fpos f)"
    using assms length_ahead [OF assms(1)] by (simp add: length_greater_0_conv [symmetric] del: length_greater_0_conv)
  then have ne: "fd_fpos f \<noteq> fd_last f" by auto
  have b: "unat (fd_bpos f) < length (fd_buf f)" using assms(1) n by (simp add: rd_ok_def)
  then have h: "hd (ahead f) = fd_buf f ! unat (fd_bpos f)"
    using n by (simp add: ahead_def hd_drop_conv_nth)
  have "fsu_fgetc R f w = Some (hd (ahead f), f\<lparr>fd_fpos := fd_fpos f + 1, fd_bpos := fd_bpos f + 1\<rparr>, w)"
    using assms(1) ne b h by (simp add: fsu_fgetc_def rd_ok_def rd_def)
  then show ?thesis
    using ahead_advance [OF assms(1), of 1] n by (simp add: drop_Suc)
qed

fun fgetc_n ::
  "'k rump \<Rightarrow> nat \<Rightarrow> FSU_FILE \<Rightarrow> 'k world \<Rightarrow> (byte list \<times> FSU_FILE \<times> 'k world) option"
where
  "fgetc_n R 0 f w = Some ([], f, w)"
| "fgetc_n R (Suc n) f w = do {
     (c, f, w) \<leftarrow> fsu_fgetc R f w;
     (cs, f, w) \<leftarrow> fgetc_n R n f w;
     Some (c # cs, f, w)
   }"

lemma fgetc_n_add:
  "fgetc_n R (m + n) f w = do {
     (cs, f1, w1) \<leftarrow> fgetc_n R m f w;
     (ds, f2, w2) \<leftarrow> fgetc_n R n f1 w1;
     Some (cs @ ds, f2, w2)
   }"
  by (induction m arbitrary: f w) (auto split: Option.bind_splits prod.splits)

text \<open>
  While \<open>L\<close> is the length of the file, the end of the file has been noticed only if the last
  refill was short, and otherwise only whole buffers have been read.
\<close>

definition rd_inv :: "('k \<Rightarrow> byte list) \<Rightarrow> nat \<Rightarrow> FSU_FILE \<Rightarrow> 'k world \<Rightarrow> bool" where
  "rd_inv left L f w \<longleftrightarrow> rd_ok f \<and>
     (if fd_eof f then L mod BUF_SIZE \<noteq> 0 else length (left (kern w)) mod BUF_SIZE = L mod BUF_SIZE)"

lemma fgetc_pending:
  assumes "reads_file R (fd_fd f) left" and "rd_inv left L f w" and "pending left f w \<noteq> []"
  shows "\<exists>f' w'. fsu_fgetc R f w = Some (hd (pending left f w), f', w') \<and> rd_inv left L f' w' \<and>
    fd_fd f' = fd_fd f \<and> pending left f' w' = tl (pending left f w)"
proof (cases "ahead f = []")
  case False
  have f: "rd_ok f" using assms(2) by (simp add: rd_inv_def)
  show ?thesis
    using fgetc_buffered [OF f False, of R w] assms(2) False by (auto simp: pending_def rd_inv_def)
next
  case True
  have f: "rd_ok f" using assms(2) by (simp add: rd_inv_def)
  from True assms(3) have ne: "\<not> fd_eof f" "left (kern w) \<noteq> []"
    by (simp_all add: pending_def split: if_splits)
  have e: "fd_fpos f = fd_last f"
    using True length_ahead [OF f] by (simp add: unat_eq_zero)
  from fill_buffer_pending [OF assms(1) f ne(1)] obtain f1 w1 where fill:
    "fsu_fill_buffer R f w = Some (f1, w1)" "rd_ok f1" "fd_fd f1 = fd_fd f"
    "ahead f1 = take BUF_SIZE (left (kern w))" "pending left f1 w1 = left (kern w)"
    "fd_eof f1 = (length (left (kern w)) < BUF_SIZE)" by blast
  have ne1: "ahead f1 \<noteq> []" using ne fill(4) by simp
  then have "fd_fpos f1 \<noteq> fd_last f1" using length_ahead [OF fill(2)] by auto
  then have "fsu_fgetc R f w = fsu_fgetc R f1 w1"
    using f e ne(1) fill(1,2) by (simp add: fsu_fgetc_def rd_ok_def)
  moreover from fgetc_buffered [OF fill(2) ne1, of R w1] obtain f2 where f2:
    "fsu_fgetc R f1 w1 = Some (hd (ahead f1), f2, w1)" "rd_ok f2" "fd_fd f2 = fd_fd f1"
    "ahead f2 = tl (ahead f1)" "fd_eof f2 = fd_eof f1" by blast
  moreover have "hd (ahead f1) = hd (left (kern w))" using ne by (simp add: fill(4))
  moreover have "pending left f2 w1 = tl (pending left f1 w1)"
    using ne1 f2 by (simp add: pending_def)
  moreover have "rd_inv left L f2 w1"
  proof (cases "fd_eof f1")
    case True
    then have "length (left (kern w)) < BUF_SIZE" by (simp add: fill(6))
    moreover have "length (left (kern w)) mod BUF_SIZE = L mod BUF_SIZE"
      using assms(2) ne by (simp add: rd_inv_def)
    moreover have "0 < length (left (kern w))" using ne by simp
    ultimately have "L mod BUF_SIZE \<noteq> 0" by (metis mod_less neq0_conv)
    then show ?thesis using True f2 by (simp add: rd_inv_def)
  next
    case False
    then have "length (left (kern w)) = BUF_SIZE + length (left (kern w1))"
      using fill(4,5) by (simp add: pending_def fill(6))
        (metis fill(6) False length_append length_take min_absorb2 not_less)
    with False f2 assms(2) ne show ?thesis by (simp add: rd_inv_def)
  qed
  moreover have "pending left f w = left (kern w)" using True ne by (simp add: pending_def)
  ultimately show ?thesis
    using fill(3,5) by (metis (no_types))
qed

lemma fgetc_n_pending:
  assumes "reads_file R (fd_fd f) left" and "rd_inv left L f w" and "n \<le> length (pending left f w)"
  shows "\<exists>f' w'. fgetc_n R n f w = Some (take n (pending left f w), f', w') \<and> rd_inv left L f' w' \<and>
    fd_fd f' = fd_fd f \<and> pending left f' w' = drop n (pending left f w)"
  using assms
proof (induction n arbitrary: f w)
  case (Suc n)
  then have ne: "pending left f w \<noteq> []" by auto
  from fgetc_pending [OF Suc.prems(1,2) ne] obtain f1 w1 where s:
    "fsu_fgetc R f w = Some (hd (pending left f w), f1, w1)" "rd_inv left L f1 w1"
    "fd_fd f1 = fd_fd f" "pending left f1 w1 = tl (pending left f w)" by blast
  with Suc.prems have "reads_file R (fd_fd f1) left" "n \<le> length (pending left f1 w1)" by simp_all
  from Suc.IH [OF this(1) s(2) this(2)] obtain f2 w2 where
    "fgetc_n R n f1 w1 = Some (take n (pending left f1 w1), f2, w2)" "rd_inv left L f2 w2"
    "fd_fd f2 = fd_fd f1" "pending left f2 w2 = drop n (pending left f1 w1)" by blast
  with s ne show ?case by (auto simp: take_Suc drop_Suc)
qed (simp add: pending_def)

text \<open>A refill at the very end of the file: the buffer keeps its old bytes.\<close>

lemma fgetc_stale:
  assumes "length (fd_buf f) = BUF_SIZE" and "fd_mode f = FSU_FILE_READ"
    and "fd_fpos f - fd_last f = of_nat b" and "0 < b" and "unat (fd_bpos f) = b" and "b + n \<le> BUF_SIZE"
  shows "fgetc_n R n f w = Some (take n (drop b (fd_buf f)),
    f\<lparr>fd_fpos := fd_fpos f + of_nat n, fd_bpos := fd_bpos f + of_nat n\<rparr>, w)"
  using assms
proof (induction n arbitrary: f b)
  case 0
  show ?case by simp
next
  case (Suc n)
  have "unat (of_nat b :: size_t) = b" using Suc.prems by (intro unat_of_nat_small) simp
  then have ne: "fd_fpos f \<noteq> fd_last f" using Suc.prems by auto
  let ?f1 = "f\<lparr>fd_fpos := fd_fpos f + 1, fd_bpos := fd_bpos f + 1\<rparr>"
  have step: "fsu_fgetc R f w = Some (fd_buf f ! b, ?f1, w)"
    using ne Suc.prems by (simp add: fsu_fgetc_def rd_def)
  have b1: "unat (fd_bpos f + 1) = Suc b"
    using Suc.prems by (subst unat_add_lem [THEN iffD1]) simp_all
  have "fgetc_n R n ?f1 w = Some (take n (drop (Suc b) (fd_buf f)),
    ?f1\<lparr>fd_fpos := fd_fpos ?f1 + of_nat n, fd_bpos := fd_bpos ?f1 + of_nat n\<rparr>, w)"
    using Suc.IH [of ?f1 "Suc b"] Suc.prems b1 by (simp add: algebra_simps)
  moreover have "take (Suc n) (drop b (fd_buf f)) = fd_buf f ! b # take n (drop (Suc b) (fd_buf f))"
    using Suc.prems by (simp add: Cons_nth_drop_Suc [symmetric])
  ultimately show ?case using step by (simp add: add.assoc)
qed

lemma fgetc_runaway:
  assumes "reads_file R (fd_fd f) left" and "rd_ok f" and "ahead f = []" and "\<not> fd_eof f"
    and "left (kern w) = []"
  shows "\<exists>f' w'. fgetc_n R BUF_SIZE f w = Some (fd_buf f, f', w') \<and> fsu_fgetc R f' w' = None"
proof -
  obtain k where k: "left k = []"
    "fsu_fill_buffer R f w =
       Some (f\<lparr>fd_eof := True, fd_last := fd_fpos f, fd_bpos := 0\<rparr>, w\<lparr>errno := EBADF, kern := k\<rparr>)"
    by (rule fill_buffer_read [OF assms(1,2), of w]) (use assms(5) in \<open>simp add: Let_def\<close>)
  have e: "fd_fpos f = fd_last f"
    using assms(3) length_ahead [OF assms(2)] by (simp add: unat_eq_zero)
  let ?w = "w\<lparr>errno := EBADF, kern := k\<rparr>"
  let ?f = "f\<lparr>fd_eof := True, fd_last := fd_fpos f, fd_bpos := 1, fd_fpos := fd_fpos f + 1\<rparr>"
  let ?e = "?f\<lparr>fd_fpos := fd_fpos ?f + of_nat 8191, fd_bpos := fd_bpos ?f + of_nat 8191\<rparr>"
  have first: "fsu_fgetc R f w = Some (fd_buf f ! 0, ?f, ?w)"
    using assms k(2) e by (simp add: fsu_fgetc_def rd_ok_def rd_def)
  have rest: "fgetc_n R 8191 ?f ?w = Some (take 8191 (drop 1 (fd_buf f)), ?e, ?w)"
    using fgetc_stale [of ?f 1 8191 R ?w] assms(2) by (simp add: rd_ok_def)
  have "fgetc_n R (Suc 8191) f w = Some (fd_buf f ! 0 # take 8191 (drop 1 (fd_buf f)), ?e, ?w)"
    by (simp only: fgetc_n.simps first rest Option.bind.bind_lunit prod.case)
  moreover have "fd_buf f ! 0 # take 8191 (drop 1 (fd_buf f)) = fd_buf f"
    using assms(2) Cons_nth_drop_Suc [of 0 "fd_buf f"] by (simp add: rd_ok_def)
  moreover have "fsu_fgetc R ?e ?w = None"
    using assms(2) by (simp add: fsu_fgetc_def rd_ok_def rd_def)
  ultimately show ?thesis by auto
qed


section \<open>Writing\<close>

text \<open>
  A file open for writing that has been written through the buffer only: the buffer holds all the
  bytes written so far.
\<close>

definition wr_ok :: "FSU_FILE \<Rightarrow> byte list \<Rightarrow> bool" where
  "wr_ok f bs \<longleftrightarrow> fd_mode f = FSU_FILE_WRITE \<and> fd_err f = 0 \<and> length (fd_buf f) = BUF_SIZE \<and>
     length bs \<le> BUF_SIZE \<and> take (length bs) (fd_buf f) = bs \<and>
     fd_bpos f = of_nat (length bs) \<and> fd_fpos f = of_nat (length bs) \<and> (bs \<noteq> [] \<longrightarrow> fd_dirty f)"

lemma fwrite_small:
  assumes "wr_ok f bs" and "length bs + length cs \<le> BUF_SIZE"
    and "length cs = unat isize * unat nmemb" and "cs \<noteq> []"
  shows "\<exists>f'. fsu_fwrite R cs isize nmemb f w = Some (nmemb, f', w) \<and> wr_ok f' (bs @ cs) \<and> fd_fd f' = fd_fd f"
proof -
  have m: "unat (isize * nmemb) = length cs"
    using assms(2,3) by (simp add: unat_mult_lem [THEN iffD1])
  then have s: "sint (isize * nmemb) = int (length cs)"
    using assms(2) by (simp add: sint_eq_unat_small)
  have b: "unat (fd_bpos f) = length bs"
    using assms(1) by (simp add: wr_ok_def unat_of_nat_small)
  have "sint (of_nat BUF_SIZE - fd_bpos f) = int (BUF_SIZE - length bs)"
  proof -
    have "unat (of_nat BUF_SIZE - fd_bpos f) = BUF_SIZE - length bs"
      using b assms(2) by (subst unat_sub_le) (simp_all add: word_le_nat_alt)
    then show ?thesis by (subst sint_eq_unat_small) simp_all
  qed
  then have small: "\<not> sint (of_nat BUF_SIZE - fd_bpos f) < int (length cs)" using assms(2) by simp
  show ?thesis
    unfolding fsu_fwrite_def Let_def s
    using assms(1,2,4) small b by (auto simp: wr_ok_def)
qed

lemma fclose_wr_ok:
  assumes "pwrites_file R (fd_fd f) contents" and "wr_ok f bs"
  shows "\<exists>k. fsu_fclose R f w = Some (w\<lparr>kern := sys_close R (fd_fd f) k\<rparr>) \<and>
    contents k = bs @ drop (length bs) (contents (kern w))"
proof (cases "fd_dirty f")
  case False
  with assms(2) have "bs = []" by (auto simp: wr_ok_def)
  with False assms(2) show ?thesis by (auto simp: fsu_fclose_def fsu_fflush_def wr_ok_def)
next
  case True
  have b: "unat (fd_bpos f) = length bs" "length bs \<le> length (fd_buf f)"
    using assms(2) by (simp_all add: wr_ok_def unat_of_nat_small)
  obtain k where k: "sys_pwrite R (fd_fd f) bs 0 (kern w) = (Inr (length bs), k)"
    "contents k = write_at 0 bs (contents (kern w))"
    using assms(1) unfolding pwrites_file_def by (metis unat_0)
  show ?thesis
    using assms(2) True b k
    by (auto simp: fsu_fclose_def fsu_fflush_def wr_ok_def call_def write_at_0 Let_def)
qed


lemma write_at_end: "write_at (length xs) bs xs = xs @ bs"
  by (simp add: write_at_def)

lemma fwrite_loop_append:
  assumes "pwrites_file R (fd_fd f) contents" and "unat (fd_fpos f) = length (contents (kern w))"
    and "length (contents (kern w)) + length p < 2 ^ 64"
  shows "\<exists>ps qs w'. p = ps @ qs \<and> length qs \<le> BUF_SIZE \<and> (p \<noteq> [] \<longrightarrow> qs \<noteq> []) \<and>
    contents (kern w') = contents (kern w) @ ps \<and>
    fwrite_loop R p (int (length p)) f w =
      Some (Some (qs, int (length qs)), f\<lparr>fd_fpos := fd_fpos f + of_nat (length ps)\<rparr>, w')"
  using assms
proof (induction p arbitrary: f w rule: length_induct)
  case (1 p)
  show ?case
  proof (cases "BUF_SIZE < length p")
    case False
    then show ?thesis
      by (subst fwrite_loop.simps) (auto intro!: exI [of _ "[]"])
  next
    case True
    let ?c = "take BUF_SIZE p" and ?p = "drop BUF_SIZE p"
    let ?f = "f\<lparr>fd_fpos := fd_fpos f + of_nat BUF_SIZE\<rparr>"
    obtain k where k: "sys_pwrite R (fd_fd f) ?c (fd_fpos f) (kern w) = (Inr BUF_SIZE, k)"
      "contents k = contents (kern w) @ ?c"
    proof -
      obtain k where "sys_pwrite R (fd_fd f) ?c (fd_fpos f) (kern w) = (Inr (length ?c), k)"
        "contents k = write_at (unat (fd_fpos f)) ?c (contents (kern w))"
        using "1.prems"(1) unfolding pwrites_file_def by blast
      with True "1.prems"(2) that [of k] show thesis by (simp add: write_at_end)
    qed
    have pos: "unat (fd_fpos f + of_nat BUF_SIZE) = unat (fd_fpos f) + BUF_SIZE"
      using "1.prems"(2,3) True by (subst unat_add_lem [THEN iffD1]) simp_all
    have r: "int (length p) - int BUF_SIZE = int (length ?p)" using True by simp
    have "\<exists>ps qs w'. ?p = ps @ qs \<and> length qs \<le> BUF_SIZE \<and> (?p \<noteq> [] \<longrightarrow> qs \<noteq> []) \<and>
      contents (kern w') = contents (kern (w\<lparr>kern := k\<rparr>)) @ ps \<and>
      fwrite_loop R ?p (int (length ?p)) ?f (w\<lparr>kern := k\<rparr>) =
        Some (Some (qs, int (length qs)), ?f\<lparr>fd_fpos := fd_fpos ?f + of_nat (length ps)\<rparr>, w')"
      by (rule "1.IH" [rule_format]) (use True "1.prems" pos k in simp_all)
    then obtain ps qs w' where ih: "?p = ps @ qs" "length qs \<le> BUF_SIZE" "?p \<noteq> [] \<longrightarrow> qs \<noteq> []"
      "contents (kern w') = contents (kern (w\<lparr>kern := k\<rparr>)) @ ps"
      "fwrite_loop R ?p (int (length ?p)) ?f (w\<lparr>kern := k\<rparr>) =
        Some (Some (qs, int (length qs)), ?f\<lparr>fd_fpos := fd_fpos ?f + of_nat (length ps)\<rparr>, w')"
      by blast
    have "fwrite_loop R p (int (length p)) f w =
        fwrite_loop R ?p (int (length ?p)) ?f (w\<lparr>kern := k\<rparr>)"
      using True k(1) r by (subst fwrite_loop.simps) (simp add: call_def)
    moreover have "p = (?c @ ps) @ qs"
      by (metis append.assoc append_take_drop_id ih(1))
    moreover have "contents (kern w') = contents (kern w) @ ?c @ ps" using ih(4) k(2) by simp
    moreover have "fd_fpos ?f + of_nat (length ps) = fd_fpos f + of_nat (length (?c @ ps))"
      using True by simp
    ultimately show ?thesis
      using ih(2,3,5) True by (intro exI [of _ "?c @ ps"] exI [of _ qs] exI [of _ w']) simp
  qed
qed

lemma fwrite_large:
  assumes "pwrites_file R (fd_fd f) contents" and "write_only R (fd_fd f)"
    and "wr_ok f []" and "\<not> fd_dirty f" and "contents (kern w) = []"
    and "BUF_SIZE < length cs" and "length cs < 2 ^ 63" and "length cs = unat isize * unat nmemb"
  shows "\<exists>f' w'. fsu_fwrite R cs isize nmemb f w = Some (nmemb, f', w') \<and>
    contents (kern w') = cs \<and> fd_err f' = EBADF \<and> fd_mode f' = FSU_FILE_WRITE \<and> \<not> fd_dirty f'"
proof -
  have m: "unat (isize * nmemb) = length cs"
    using assms(7) unfolding assms(8) by (subst unat_mult_lem [THEN iffD1]) simp_all
  then have s: "sint (isize * nmemb) = int (length cs)"
    using assms(7) by (simp add: sint_eq_unat_small)
  note f = assms(3) [unfolded wr_ok_def]
  have "sint (8192 :: size_t) = 8192" by simp
  with f have big: "sint (of_nat BUF_SIZE - fd_bpos f) < int (length cs)" using assms(6) by simp
  have fl: "fsu_fflush R f w = Some (0, f, w)" using f assms(4) by (simp add: fsu_fflush_def)
  have "unat (fd_fpos f) = length (contents (kern w))" using f assms(5) by simp
  moreover have "length (contents (kern w)) + length cs < 2 ^ 64" using assms(5,7) by simp
  ultimately obtain ps qs w1 where loop: "cs = ps @ qs" "length qs \<le> BUF_SIZE"
    "cs \<noteq> [] \<longrightarrow> qs \<noteq> []" "contents (kern w1) = contents (kern w) @ ps"
    "fwrite_loop R cs (int (length cs)) f w =
      Some (Some (qs, int (length qs)), f\<lparr>fd_fpos := fd_fpos f + of_nat (length ps)\<rparr>, w1)"
    using fwrite_loop_append [OF assms(1)] by blast
  let ?f1 = "f\<lparr>fd_fpos := fd_fpos f + of_nat (length ps)\<rparr>"
  have "length ps < 2 ^ 64" using assms(7) loop(1) by simp
  then have "unat (fd_fpos ?f1) = length ps" using f by (simp add: unat_of_nat_small)
  then obtain k where k: "sys_pwrite R (fd_fd f) qs (fd_fpos ?f1) (kern w1) = (Inr (length qs), k)"
    "contents k = ps @ qs"
    using assms(1,5) loop(4) unfolding pwrites_file_def by (metis append_Nil write_at_end)
  have ne: "cs \<noteq> []" using assms(6) by auto
  have rd: "sys_read R (fd_fd f) n k = (Inl EBADF, k)" for n
    using assms(2) by (simp add: write_only_def)
  show ?thesis
    unfolding fsu_fwrite_def Let_def s
    using f big fl loop k ne rd
    by (auto simp: call_def fsu_fill_buffer_def fsu_fflush_def assms(4))
qed

lemma fwrite_after_error:
  "fd_err f \<noteq> 0 \<Longrightarrow> fd_mode f = FSU_FILE_WRITE \<Longrightarrow> fsu_fwrite R cs isize nmemb f w = Some (0, f, w)"
  by (simp add: fsu_fwrite_def Let_def)


section \<open>Properties\<close>

text \<open>The last copy of \<open>fsu_fread\<close>, when the buffer holds all that is still wanted.\<close>

lemma fread_tail:
  assumes "rd_ok f1" and "pending left f w = bs @ pending left f1 w1" and "tot = length bs + unat resid"
    and "unat resid \<le> length (ahead f1)"
  defines "f2 \<equiv> f1\<lparr>fd_fpos := fd_fpos f1 + resid, fd_bpos := fd_bpos f1 + resid\<rparr>"
  shows "rd_ok f2" and "buf_copy f1 (unat resid) = Some (take (unat resid) (ahead f1))"
    and "take tot (pending left f w) = bs @ take (unat resid) (ahead f1)"
    and "drop tot (pending left f w) = pending left f2 w1"
    and "tot \<le> length (pending left f w)"
proof -
  have le: "unat resid \<le> unat (fd_last f1 - fd_fpos f1)"
    using assms(4) length_ahead [OF assms(1)] by simp
  show "rd_ok f2" "buf_copy f1 (unat resid) = Some (take (unat resid) (ahead f1))"
    using ahead_advance [OF assms(1) le] by (simp_all add: f2_def)
  have "ahead f2 = drop (unat resid) (ahead f1)"
    using ahead_advance(2) [OF assms(1) le] by (simp add: f2_def)
  then show "take tot (pending left f w) = bs @ take (unat resid) (ahead f1)"
    "drop tot (pending left f w) = pending left f2 w1" "tot \<le> length (pending left f w)"
    using assms(2-4) by (simp_all add: pending_def f2_def)
qed

text \<open>
  C5. \<open>fsu_fread\<close> delivers the byte stream of the file: whatever mixture of buffered and unread
  bytes the file is in, it stores the next \<open>size * count\<close> pending bytes (all of them if there are
  fewer), returns the number of whole items among them and leaves the rest pending. It always
  returns.
\<close>

theorem fsu_fread_stream:
  assumes "reads_file R (fd_fd f) left" and "rd_ok f" and "isize \<noteq> 0"
    and "unat count * unat isize < 2 ^ 64"
  shows "\<exists>n f' w'. fsu_fread R isize count f w =
      Some (n, take (unat count * unat isize) (pending left f w), f', w') \<and>
    unat n = min (unat count) (length (pending left f w) div unat isize) \<and>
    rd_ok f' \<and> fd_fd f' = fd_fd f \<and>
    pending left f' w' = drop (unat count * unat isize) (pending left f w)"
proof -
  let ?total = "count * isize" and ?w = "w\<lparr>errno := EBADF\<rparr>"
  have total: "unat ?total = unat count * unat isize"
    using assms(4) by (subst unat_mult_lem [THEN iffD1]) simp_all
  have size0: "0 < unat isize" using assms(3) by (simp add: unat_gt_0)
  show ?thesis
  proof (cases "?total = 0")
    case True
    then have "unat count * unat isize = 0" using total by simp
    then have "unat count = 0" using size0 by (metis mult_eq_0_iff not_gr_zero)
    then have "count = 0" by (simp only: unat_eq_zero)
    with True assms(2) show ?thesis by (auto simp: fsu_fread_def Let_def)
  next
    case False
    have pw: "pending left f ?w = pending left f w" by (simp add: pending_def)
    obtain early resid bs f1 w1 where loop:
      "fread_loop R ?total [] f ?w = Some (early, resid, bs, f1, w1)"
      "rd_ok f1" "fd_fd f1 = fd_fd f" "pending left f w = bs @ pending left f1 w1"
      "unat ?total = length bs + unat resid"
      "if early then 0 < unat resid \<and> pending left f1 w1 = [] else unat resid \<le> length (ahead f1)"
      using fread_loop_pending [OF assms(1,2), of ?total "[]" ?w] unfolding pw append_Nil by blast
    show ?thesis
    proof (cases early)
      case True
      have "unat (?total - resid) = length bs"
        using loop(5) by (subst unat_sub_le) (simp_all add: word_le_nat_alt)
      moreover have "length bs div unat isize \<le> unat count"
        using loop(5) total size0 by (metis div_le_mono le_add1 nonzero_mult_div_cancel_right not_gr_zero)
      ultimately show ?thesis
        using True False loop total assms(2)
        by (auto simp: fsu_fread_def Let_def unat_div)
    next
      case e: False
      let ?f2 = "f1\<lparr>fd_fpos := fd_fpos f1 + resid, fd_bpos := fd_bpos f1 + resid\<rparr>"
      note tail = fread_tail [OF loop(2,4,5)]
      have le: "unat resid \<le> length (ahead f1)" using loop(6) e by simp
      have "fsu_fread R isize count f w = Some (count, bs @ take (unat resid) (ahead f1), ?f2, w1)"
        using False e loop(1) tail(2) [OF le] assms(2) by (simp add: fsu_fread_def Let_def)
      moreover have "unat count \<le> length (pending left f w) div unat isize"
        using tail(5) [OF le] total size0 by (metis div_le_mono nonzero_mult_div_cancel_right not_gr_zero)
      ultimately show ?thesis using tail [OF le] loop(3) total by auto
    qed
  qed
qed

definition cat_file :: "byte list \<Rightarrow> FSU_FILE \<times> one_file world" where
  "cat_file bs =
     (\<lparr>fd_fd = 3, fd_buf = replicate BUF_SIZE 0, fd_bpos = 0, fd_fpos = 0, fd_last = 0,
       fd_eof = False, fd_err = 0, fd_mode = FSU_FILE_READ, fd_dirty = False\<rparr>,
      \<lparr>kern = \<lparr>of_data = bs, of_off = 0, of_wronly = False\<rparr>, errno = 0\<rparr>)"

lemma cat_file_facts:
  "rd_ok (fst (cat_file bs))" "ahead (fst (cat_file bs)) = []" "\<not> fd_eof (fst (cat_file bs))"
  "drop (of_off (kern (snd (cat_file bs)))) (of_data (kern (snd (cat_file bs)))) = bs"
  by (simp_all add: rd_ok_def cat_file_def ahead_def)

theorem fsu_fread_stream_witness:
  "\<exists>n f' w'. fsu_fread rd_rump 3 5 (fst (cat_file [1, 2, 3, 4, 5, 6, 7])) (snd (cat_file [1, 2, 3, 4, 5, 6, 7])) =
     Some (n, [1, 2, 3, 4, 5, 6, 7], f', w') \<and> unat n = 2"
  using fsu_fread_stream [OF reads_rd_rump cat_file_facts(1), of 3 5 "[1, 2, 3, 4, 5, 6, 7]"
      "snd (cat_file [1, 2, 3, 4, 5, 6, 7])"]
  by (force simp: pending_def ahead_def cat_file_def)

text \<open>
  C23. Reading a file byte by byte with \<open>fsu_fgetc\<close> delivers its bytes in order, and then the end
  of the file, for every file whose size is not a multiple of the buffer's.
\<close>

theorem fsu_fgetc_stream:
  assumes "reads_file R (fd_fd f) left" and "rd_ok f" and "ahead f = []" and "\<not> fd_eof f"
    and "\<not> BUF_SIZE dvd length (left (kern w))"
  shows "\<exists>f' w'. fgetc_n R (length (left (kern w))) f w = Some (left (kern w), f', w') \<and>
    fsu_fgetc R f' w' = Some (-1, f', w')"
proof -
  let ?L = "length (left (kern w))"
  have "rd_inv left ?L f w" "pending left f w = left (kern w)"
    using assms by (simp_all add: rd_inv_def pending_def)
  with fgetc_n_pending [OF assms(1), of ?L w ?L] obtain f' w' where r:
    "fgetc_n R ?L f w = Some (left (kern w), f', w')" "rd_inv left ?L f' w'" "pending left f' w' = []"
    by auto
  have ok: "rd_ok f'" using r(2) by (simp add: rd_inv_def)
  have a: "ahead f' = []" using r(3) by (simp add: pending_def)
  have "fd_eof f'"
  proof (rule ccontr)
    assume "\<not> fd_eof f'"
    with r(2,3) have "?L mod BUF_SIZE = 0" by (simp add: rd_inv_def pending_def)
    with assms(5) show False by (simp add: dvd_eq_mod_eq_0)
  qed
  moreover have "fd_fpos f' = fd_last f'"
    using a length_ahead [OF ok] by (simp add: unat_eq_zero)
  ultimately have "fsu_fgetc R f' w' = Some (-1, f', w')"
    using ok by (simp add: fsu_fgetc_def rd_ok_def)
  with r(1) show ?thesis by blast
qed

theorem fsu_fgetc_stream_witness:
  "\<exists>f' w'. fgetc_n rd_rump 3 (fst (cat_file [65, 66, 10])) (snd (cat_file [65, 66, 10])) =
     Some ([65, 66, 10], f', w') \<and> fsu_fgetc rd_rump f' w' = Some (-1, f', w')"
proof -
  have n: "length [65, 66, 10 :: byte] = 3" by simp
  have "\<not> BUF_SIZE dvd length [65, 66, 10 :: byte]" unfolding n by simp
  then show ?thesis
    using fsu_fgetc_stream [OF reads_rd_rump cat_file_facts(1-3),
        of "snd (cat_file [65, 66, 10])" "[65, 66, 10]"]
    unfolding cat_file_facts n by blast
qed

text \<open>
  C29. When the size of the file is a multiple of the buffer's size (an empty file, for one),
  \<open>fsu_fgetc\<close> never reports its end: after the bytes of the file it delivers 8192 stale bytes of
  the buffer and then reads behind it.
\<close>

theorem fsu_fgetc_misses_eof:
  assumes "reads_file R (fd_fd f) left" and "rd_ok f" and "ahead f = []" and "\<not> fd_eof f"
    and "BUF_SIZE dvd length (left (kern w))"
  shows "(\<exists>stale f' w'. length stale = BUF_SIZE \<and>
      fgetc_n R (length (left (kern w)) + BUF_SIZE) f w = Some (left (kern w) @ stale, f', w')) \<and>
    fgetc_n R (length (left (kern w)) + BUF_SIZE + 1) f w = None"
proof -
  let ?L = "length (left (kern w))"
  have "rd_inv left ?L f w" "pending left f w = left (kern w)"
    using assms by (simp_all add: rd_inv_def pending_def)
  with fgetc_n_pending [OF assms(1), of ?L w ?L] obtain f1 w1 where r:
    "fgetc_n R ?L f w = Some (left (kern w), f1, w1)" "rd_inv left ?L f1 w1" "fd_fd f1 = fd_fd f"
    "pending left f1 w1 = []"
    by auto
  have e: "\<not> fd_eof f1" using r(2) assms(5) by (auto simp: rd_inv_def dvd_eq_mod_eq_0 split: if_splits)
  with r(2,4) have "rd_ok f1" "ahead f1 = []" "left (kern w1) = []"
    by (simp_all add: rd_inv_def pending_def)
  with fgetc_runaway [of R f1 left w1] assms(1) r(3) e obtain f2 w2 where run:
    "fgetc_n R BUF_SIZE f1 w1 = Some (fd_buf f1, f2, w2)" "fsu_fgetc R f2 w2 = None" by auto
  have s: "fgetc_n R (?L + BUF_SIZE) f w = Some (left (kern w) @ fd_buf f1, f2, w2)"
    using r(1) run(1) by (simp add: fgetc_n_add)
  have "fgetc_n R (?L + BUF_SIZE + 1) f w = None"
    unfolding fgetc_n_add [of R "?L + BUF_SIZE" 1] s using run(2) by (simp add: eval_nat_numeral)
  with s \<open>rd_ok f1\<close> show ?thesis by (auto simp: rd_ok_def)
qed

theorem fsu_fgetc_misses_eof_witness:
  "fgetc_n rd_rump 8193 (fst (cat_file [])) (snd (cat_file [])) = None"
  using fsu_fgetc_misses_eof [OF reads_rd_rump cat_file_facts(1-3), of "snd (cat_file [])" "[]"]
  unfolding cat_file_facts by simp

fun fwrite_all ::
  "'k rump \<Rightarrow> byte list list \<Rightarrow> FSU_FILE \<Rightarrow> 'k world \<Rightarrow> (FSU_FILE \<times> 'k world) option"
where
  "fwrite_all R [] f w = Some (f, w)"
| "fwrite_all R (cs # css) f w = do {
     (n, f, w) \<leftarrow> fsu_fwrite R cs 1 (of_nat (length cs)) f w;
     (if n = of_nat (length cs) then fwrite_all R css f w else None)
   }"

lemma fwrite_all_ok:
  assumes "wr_ok f bs" and "length bs + length (concat css) \<le> BUF_SIZE" and "[] \<notin> set css"
  shows "\<exists>f'. fwrite_all R css f w = Some (f', w) \<and> wr_ok f' (bs @ concat css) \<and> fd_fd f' = fd_fd f"
  using assms
proof (induction css arbitrary: f bs)
  case (Cons cs css)
  then have cs: "cs \<noteq> []" "length bs + length cs \<le> BUF_SIZE" by auto
  have "length cs = unat (1 :: size_t) * unat (of_nat (length cs) :: size_t)"
    using cs(2) by (simp add: unat_of_nat_small)
  from fwrite_small [OF Cons.prems(1) cs(2) this cs(1)] obtain f1 where
    f1: "fsu_fwrite R cs 1 (of_nat (length cs)) f w = Some (of_nat (length cs), f1, w)"
    "wr_ok f1 (bs @ cs)" "fd_fd f1 = fd_fd f" by blast
  have "\<exists>f'. fwrite_all R css f1 w = Some (f', w) \<and> wr_ok f' ((bs @ cs) @ concat css) \<and> fd_fd f' = fd_fd f1"
    by (rule Cons.IH [OF f1(2)]) (use Cons.prems in auto)
  with f1 show ?case by auto
qed simp

lemma fopen_w:
  assumes "fsu_fopen R um (Some junk) sz fname ''w'' w0 = (Some f, w)" and "length junk = BUF_SIZE"
  shows "wr_ok f []" and "\<not> fd_dirty f"
  using assms
  by (auto simp: fsu_fopen_def fopen_flags_def wr_ok_def Let_def split: prod.splits option.splits)

text \<open>
  C14. Small writes: chunks that fit into the buffer together are all accepted, and closing the file
  writes exactly their concatenation to the new file.
\<close>

theorem fwrite_fclose_contents:
  assumes "fsu_fopen R um (Some junk) sz fname ''w'' w0 = (Some f, w)" and "length junk = BUF_SIZE"
    and "pwrites_file R (fd_fd f) contents" and "contents (kern w) = []"
    and "length (concat css) \<le> BUF_SIZE" and "[] \<notin> set css"
  shows "\<exists>f' k. fwrite_all R css f w = Some (f', w) \<and>
    fsu_fclose R f' w = Some (w\<lparr>kern := sys_close R (fd_fd f') k\<rparr>) \<and> contents k = concat css"
proof -
  from fwrite_all_ok [OF fopen_w(1) [OF assms(1,2)], of css R w] assms(5,6) obtain f' where
    f': "fwrite_all R css f w = Some (f', w)" "wr_ok f' (concat css)" "fd_fd f' = fd_fd f" by auto
  from fclose_wr_ok [OF _ f'(2), of R contents w] assms(3,4) f' show ?thesis by auto
qed

definition new_file :: "one_file world" where
  "new_file = \<lparr>kern = \<lparr>of_data = [], of_off = 0, of_wronly = True\<rparr>, errno = 0\<rparr>"

definition log_file :: FSU_FILE where
  "log_file = \<lparr>fd_fd = 3, fd_buf = replicate BUF_SIZE 0, fd_bpos = 0, fd_fpos = 0, fd_last = 0,
     fd_eof = False, fd_err = 0, fd_mode = FSU_FILE_WRITE, fd_dirty = False\<rparr>"

lemma fopen_new_file:
  "fsu_fopen wr_rump 0x12 (Some (replicate BUF_SIZE 0)) 0 ''/log'' ''w'' new_file = (Some log_file, new_file)"
  by (simp add: fsu_fopen_def fopen_flags_def call_def wr_rump_def one_file_rump_def new_file_def
      log_file_def)

theorem fwrite_fclose_contents_witness:
  "\<exists>f' k. fwrite_all wr_rump [[104, 105], [10]] log_file new_file = Some (f', new_file) \<and>
    fsu_fclose wr_rump f' new_file = Some (new_file\<lparr>kern := k\<rparr>) \<and> of_data k = [104, 105, 10]"
proof -
  have "sys_close wr_rump fd k = k" for fd k by (simp add: wr_rump_def one_file_rump_def)
  then show ?thesis
    using fwrite_fclose_contents [OF fopen_new_file _ pwrites_wr_rump, of "[[104, 105], [10]]"]
    by (auto simp: new_file_def)
qed

text \<open>
  C30. One large write: it stores all its bytes and reports success, but the refill that follows it
  fails on the write-only descriptor, so the file is left in error and every later write is dropped.
\<close>

theorem fwrite_large_sticks:
  assumes "fsu_fopen R um (Some junk) sz fname ''w'' w0 = (Some f, w)" and "length junk = BUF_SIZE"
    and "pwrites_file R (fd_fd f) contents" and "write_only R (fd_fd f)" and "contents (kern w) = []"
    and "BUF_SIZE < length cs" and "length cs < 2 ^ 63" and "length cs = unat isize * unat nmemb"
  shows "\<exists>f' w'. fsu_fwrite R cs isize nmemb f w = Some (nmemb, f', w') \<and> contents (kern w') = cs \<and>
    fsu_ferror f' = EBADF \<and> (\<forall>ds isize' nmemb'. fsu_fwrite R ds isize' nmemb' f' w' = Some (0, f', w'))"
proof -
  obtain f' w' where "fsu_fwrite R cs isize nmemb f w = Some (nmemb, f', w')" "contents (kern w') = cs"
    "fd_err f' = EBADF" "fd_mode f' = FSU_FILE_WRITE"
    using fwrite_large [OF assms(3,4) fopen_w [OF assms(1,2)] assms(5-8)] by blast
  then show ?thesis by (auto simp: fsu_ferror_def fwrite_after_error)
qed

theorem fwrite_large_sticks_witness:
  "\<exists>f' w'. fsu_fwrite wr_rump (replicate 9000 7) 9000 1 log_file new_file = Some (1, f', w') \<and>
    of_data (kern w') = replicate 9000 7 \<and> fsu_fwrite wr_rump [1] 1 1 f' w' = Some (0, f', w')"
  using fwrite_large_sticks [OF fopen_new_file _ pwrites_wr_rump write_only_wr_rump,
      of "replicate 9000 7" 9000 1]
  by (simp add: new_file_def) blast



end
