(* ===== verification/CString.thy ===== *)
theory CString
  imports FSU_Prelude
begin

text \<open>
  The string functions of \<open>src/lib/compat.c\<close> that the build uses where the C library has none:
  \<open>strlcpy\<close> and \<open>strlcat\<close> on buffers, with every read and write checked, and the \<open>vis\<close> family,
  whose output is the list of characters stored (a NUL follows). In \<open>strnvis\<close> the end of the
  destination is kept as a signed number, because it lies before its start for an empty one.
\<close>

section \<open>strlcpy and strlcat\<close>

text \<open>The copying loop: source and destination index and the count that is left.\<close>

fun strlcpy_copy :: "cbuffer \<Rightarrow> cbuffer \<Rightarrow> nat \<Rightarrow> nat \<Rightarrow> (cbuffer \<times> nat \<times> nat) option" where
  "strlcpy_copy src dst i 0 = Some (dst, i, 0)"
| "strlcpy_copy src dst i (Suc 0) = Some (dst, i, 0)"
| "strlcpy_copy src dst i (Suc n) =
     do { c \<leftarrow> rd src i;
          dst \<leftarrow> wr dst i c;
          if c = NUL then Some (dst, Suc i, n) else strlcpy_copy src dst (Suc i) n }"

text \<open>\<open>while (*s++);\<close>\<close>

function skip_string :: "cbuffer \<Rightarrow> nat \<Rightarrow> nat option" where
  "skip_string src i =
     do { c \<leftarrow> rd src i;
          if c = NUL then Some (Suc i) else skip_string src (Suc i) }"
  by pat_completeness auto
termination
  by (relation "measure (\<lambda>(src, i). length src - i)") (auto simp: rd_def split: if_splits)

declare skip_string.simps [simp del]

definition strlcpy :: "cbuffer \<Rightarrow> cbuffer \<Rightarrow> nat \<Rightarrow> (cbuffer \<times> nat) option" where
  "strlcpy dst src siz =
     do { (dst, i, n) \<leftarrow> strlcpy_copy src dst 0 siz;
          if n = 0
          then do { dst \<leftarrow> (if siz \<noteq> 0 then wr dst i NUL else Some dst);
                    s \<leftarrow> skip_string src i;
                    Some (dst, s - 1) }
          else Some (dst, i - 1) }"

text \<open>The end of \<open>dst\<close> within the first \<open>siz\<close> characters.\<close>

fun strlcat_end :: "cbuffer \<Rightarrow> nat \<Rightarrow> nat \<Rightarrow> nat option" where
  "strlcat_end dst i 0 = Some i"
| "strlcat_end dst i (Suc n) =
     do { c \<leftarrow> rd dst i; if c \<noteq> NUL then strlcat_end dst (Suc i) n else Some i }"

function strlcat_copy :: "cbuffer \<Rightarrow> cbuffer \<Rightarrow> nat \<Rightarrow> nat \<Rightarrow> nat \<Rightarrow> (cbuffer \<times> nat \<times> nat) option" where
  "strlcat_copy src dst d s n =
     do { c \<leftarrow> rd src s;
          if c = NUL then Some (dst, d, s)
          else if n \<noteq> 1
          then do { dst \<leftarrow> wr dst d c; strlcat_copy src dst (Suc d) (Suc s) (n - 1) }
          else strlcat_copy src dst d (Suc s) n }"
  by pat_completeness auto
termination
  by (relation "measure (\<lambda>(src, dst, d, s, n). length src - s)") (auto simp: rd_def split: if_splits)

declare strlcat_copy.simps [simp del]

definition strlcat :: "cbuffer \<Rightarrow> cbuffer \<Rightarrow> nat \<Rightarrow> (cbuffer \<times> nat) option" where
  "strlcat dst src siz =
     do { dlen \<leftarrow> strlcat_end dst 0 siz;
          if siz - dlen = 0
          then do { e \<leftarrow> skip_string src 0; Some (dst, dlen + (e - 1)) }
          else do { (dst, d, s) \<leftarrow> strlcat_copy src dst dlen 0 (siz - dlen);
                    dst \<leftarrow> wr dst d NUL;
                    Some (dst, dlen + s) } }"

section \<open>vis\<close>

type_synonym vflags = "32 word"

abbreviation "VIS_OCTAL \<equiv> (0x01 :: vflags)"
abbreviation "VIS_CSTYLE \<equiv> (0x02 :: vflags)"
abbreviation "VIS_SP \<equiv> (0x04 :: vflags)"
abbreviation "VIS_TAB \<equiv> (0x08 :: vflags)"
abbreviation "VIS_NL \<equiv> (0x10 :: vflags)"
abbreviation "VIS_SAFE \<equiv> (0x20 :: vflags)"
abbreviation "VIS_NOSLASH \<equiv> (0x40 :: vflags)"
abbreviation "VIS_HTTPSTYLE \<equiv> (0x80 :: vflags)"
abbreviation "VIS_GLOB \<equiv> (0x100 :: vflags)"

definition code :: "char \<Rightarrow> nat" where
  "code c = of_char c"

definition isgraph_c :: "char \<Rightarrow> bool" where
  "isgraph_c c \<longleftrightarrow> 33 \<le> code c \<and> code c \<le> 126"

definition iscntrl_c :: "nat \<Rightarrow> bool" where
  "iscntrl_c n \<longleftrightarrow> n < 32 \<or> n = 127"

definition isalnum_c :: "char \<Rightarrow> bool" where
  "isalnum_c c \<longleftrightarrow> 48 \<le> code c \<and> code c \<le> 57 \<or> 65 \<le> code c \<and> code c \<le> 90 \<or> 97 \<le> code c \<and> code c \<le> 122"

definition isoctal :: "char \<Rightarrow> bool" where
  "isoctal c \<longleftrightarrow> 48 \<le> code c \<and> code c \<le> 55"

definition glob_char :: "char \<Rightarrow> bool" where
  "glob_char c \<longleftrightarrow> c \<in> set ''*?[#''"

definition isvisible :: "char \<Rightarrow> vflags \<Rightarrow> bool" where
  "isvisible c flag \<longleftrightarrow>
     code c < 128 \<and> (\<not> glob_char c \<or> flag AND VIS_GLOB = 0) \<and> isgraph_c c \<or>
     flag AND VIS_SP = 0 \<and> c = CHR '' '' \<or>
     flag AND VIS_TAB = 0 \<and> c = CHR 0x09 \<or>
     flag AND VIS_NL = 0 \<and> c = CHR 0x0A \<or>
     flag AND VIS_SAFE \<noteq> 0 \<and> (c = CHR 0x08 \<or> c = CHR 0x07 \<or> c = CHR 0x0D \<or> isgraph_c c)"

definition hex_digit :: "nat \<Rightarrow> char" where
  "hex_digit n = ''0123456789ABCDEF'' ! n"

definition http_plain :: "char \<Rightarrow> bool" where
  "http_plain c \<longleftrightarrow> isalnum_c c \<or> c \<in> set ''$-_.+'' \<or> c \<in> set ''!*(),'' \<or> c = CHR 0x27"

text \<open>The \<open>switch\<close> of the C-style encodings.\<close>

definition cstyle :: "char \<Rightarrow> char \<Rightarrow> string option" where
  "cstyle c nextc =
     (if c = CHR 0x0A then Some [CHR 0x5C, CHR ''n'']
      else if c = CHR 0x0D then Some [CHR 0x5C, CHR ''r'']
      else if c = CHR 0x08 then Some [CHR 0x5C, CHR ''b'']
      else if c = CHR 0x07 then Some [CHR 0x5C, CHR ''a'']
      else if c = CHR 0x0B then Some [CHR 0x5C, CHR ''v'']
      else if c = CHR 0x09 then Some [CHR 0x5C, CHR ''t'']
      else if c = CHR 0x0C then Some [CHR 0x5C, CHR ''f'']
      else if c = CHR '' '' then Some [CHR 0x5C, CHR ''s'']
      else if c = NUL then Some ([CHR 0x5C, CHR ''0''] @ (if isoctal nextc then ''00'' else ''''))
      else None)"

text \<open>The encodings by octal digits and by control and meta letters.\<close>

definition vis_octal :: "nat \<Rightarrow> string" where
  "vis_octal n =
     [CHR 0x5C, char_of (n div 64 mod 8 + 48), char_of (n div 8 mod 8 + 48), char_of (n mod 8 + 48)]"

definition vis_meta :: "nat \<Rightarrow> vflags \<Rightarrow> string" where
  "vis_meta n flag =
     (if flag AND VIS_NOSLASH = 0 then [CHR 0x5C] else []) @
     (if n \<ge> 128 then ''M'' else '''') @
     (let n = n mod 128 in
      if iscntrl_c n then [CHR ''^'', if n = 127 then CHR ''?'' else char_of (n + 64)]
      else [CHR ''-'', char_of n])"

definition vis :: "char \<Rightarrow> vflags \<Rightarrow> char \<Rightarrow> string" where
  "vis c flag nextc =
     (if flag AND VIS_HTTPSTYLE \<noteq> 0 \<and> \<not> http_plain c
      then [CHR ''%'', hex_digit (code c div 16), hex_digit (code c mod 16)]
      else if \<not> (flag AND VIS_GLOB \<noteq> 0 \<and> glob_char c) \<and>
        (isgraph_c c \<or> flag AND VIS_SP = 0 \<and> c = CHR '' '' \<or> flag AND VIS_TAB = 0 \<and> c = CHR 0x09 \<or>
         flag AND VIS_NL = 0 \<and> c = CHR 0x0A \<or>
         flag AND VIS_SAFE \<noteq> 0 \<and> (c = CHR 0x08 \<or> c = CHR 0x07 \<or> c = CHR 0x0D))
      then c # (if c = CHR 0x5C \<and> flag AND VIS_NOSLASH = 0 then [CHR 0x5C] else [])
      else
        (case (if flag AND VIS_CSTYLE \<noteq> 0 then cstyle c nextc else None) of
           Some s \<Rightarrow> s
         | None \<Rightarrow>
             if code c mod 128 = 32 \<or> isgraph_c c \<or> flag AND VIS_OCTAL \<noteq> 0 then vis_octal (code c)
             else vis_meta (code c) flag))"

definition next_char :: "string \<Rightarrow> char" where
  "next_char cs = (case cs of [] \<Rightarrow> NUL | c # _ \<Rightarrow> c)"

text \<open>\<open>strvis\<close> of a string and \<open>strvisx\<close> of a block have the same loop over their characters.\<close>

fun strvis :: "string \<Rightarrow> vflags \<Rightarrow> string" where
  "strvis [] flag = []"
| "strvis (c # cs) flag = vis c flag (next_char cs) @ strvis cs flag"

fun strvisx :: "string \<Rightarrow> nat \<Rightarrow> vflags \<Rightarrow> string option" where
  "strvisx src 0 flag = Some []"
| "strvisx [] (Suc n) flag = None"
| "strvisx (c # cs) (Suc 0) flag = Some (vis c flag NUL)"
| "strvisx (c # cs) (Suc n) flag = map_option ((@) (vis c flag (next_char cs))) (strvisx cs n flag)"

text \<open>The loop of \<open>strnvis\<close>: the output, \<open>i\<close> and the rest of the source.\<close>

fun strnvis_loop :: "vflags \<Rightarrow> int \<Rightarrow> string \<Rightarrow> nat \<Rightarrow> string \<Rightarrow> string \<times> nat \<times> string" where
  "strnvis_loop flag end' out i [] = (out, i, [])"
| "strnvis_loop flag end' out i (c # cs) =
     (if \<not> int (length out) < end' then (out, i, c # cs)
      else if isvisible c flag
      then (if c = CHR 0x5C \<and> flag AND VIS_NOSLASH = 0
            then (if int (length (out @ [c])) < end' then strnvis_loop flag end' (out @ [c, CHR 0x5C]) 1 cs
                  else (out, 2, c # cs))
            else strnvis_loop flag end' (out @ [c]) 1 cs)
      else
        (let tbuf = vis c flag (next_char cs); i = length tbuf in
         if int (length out) + int i \<le> end' then strnvis_loop flag end' (out @ tbuf) i cs
         else (out, i, c # cs)))"

definition strnvis :: "string \<Rightarrow> nat \<Rightarrow> vflags \<Rightarrow> string \<times> nat" where
  "strnvis src siz flag =
     (let end' = int siz - 1; (out, i, rest) = strnvis_loop flag end' [] 0 src in
      (out, if int (length out) + int i > end' then length out + length (strvis rest flag) else length out))"

section \<open>Lemmas\<close>

lemma rd_cstr: "NUL \<notin> set s \<Longrightarrow> i < length s \<Longrightarrow> rd (s @ NUL # post) i = Some (s ! i) \<and> s ! i \<noteq> NUL"
  by (auto simp: rd_def nth_append in_set_conv_nth)

lemma rd_cstr_end: "rd (s @ NUL # post) (length s) = Some NUL"
  by (simp add: rd_def)

lemma skip_string_end:
  assumes "NUL \<notin> set s"
  shows "i \<le> length s \<Longrightarrow> skip_string (s @ NUL # post) i = Some (Suc (length s))"
proof (induction "length s - i" arbitrary: i)
  case 0
  then show ?case by (subst skip_string.simps) (simp add: rd_cstr_end)
next
  case (Suc n)
  then have "i < length s" by simp
  then show ?case using Suc rd_cstr [OF assms, of i post] by (subst skip_string.simps) simp
qed

lemma strlcpy_copy_correct:
  assumes s: "NUL \<notin> set s"
  shows "i \<le> length s \<Longrightarrow> i + n \<le> length dst \<Longrightarrow> 0 < n \<Longrightarrow>
    strlcpy_copy (s @ NUL # post) dst i n =
      Some (if length s < i + n - 1
            then (take i dst @ drop i s @ NUL # drop (Suc (length s)) dst, Suc (length s), i + n - 1 - length s)
            else (take i dst @ take (n - 1) (drop i s) @ drop (i + n - 1) dst, i + n - 1, 0))"
proof (induction n arbitrary: i dst)
  case 0
  then show ?case by simp
next
  case (Suc n)
  show ?case
  proof (cases n)
    case 0
    then show ?thesis using Suc.prems by auto
  next
    case (Suc k)
    note n = Suc
    show ?thesis
    proof (cases "i = length s")
      case True
      then show ?thesis using Suc.prems n
        by (simp add: rd_cstr_end wr_def upd_conv_take_nth_drop)
    next
      case False
      then have i: "i < length s" using Suc.prems by simp
      define dst' where "dst' = dst[i := s ! i]"
      have w: "wr dst i (s ! i) = Some dst'" using Suc.prems n by (simp add: wr_def dst'_def)
      have t: "take (Suc i) dst' = take i dst @ [s ! i]" "length dst' = length dst"
        using Suc.prems n by (simp_all add: dst'_def take_Suc_conv_app_nth)
      have d: "drop j dst' = drop j dst" if "i < j" for j
        using that by (simp add: dst'_def)
      have s': "drop i s = s ! i # drop (Suc i) s" using i by (simp add: Cons_nth_drop_Suc)
      show ?thesis
        using Suc.IH [of "Suc i" dst'] Suc.prems n i w rd_cstr [OF s i, of post]
        by (simp add: t d s')
    qed
  qed
qed

lemma strlcpy_contents:
  assumes "NUL \<notin> set s" "siz \<le> length dst" "0 < siz"
  shows "strlcpy dst (s @ NUL # post) siz =
    Some (take (siz - 1) s @ NUL # drop (Suc (min (siz - 1) (length s))) dst, length s)"
proof (cases "length s < siz - 1")
  case True
  then show ?thesis
    using strlcpy_copy_correct [OF assms(1), of 0 siz dst post] assms
    by (auto simp: strlcpy_def min_def)
next
  case False
  have l: "siz - Suc 0 < length dst" using assms by arith
  have n: "drop (siz - Suc 0) dst = dst ! (siz - Suc 0) # drop siz dst"
    using assms l Cons_nth_drop_Suc [of "siz - Suc 0" dst] by simp
  show ?thesis
    using False strlcpy_copy_correct [OF assms(1), of 0 siz dst post] assms skip_string_end [OF assms(1), of "siz - 1" post]
    by (simp add: strlcpy_def min_def n l wr_def list_update_append)
qed

lemma strlcat_end_correct:
  assumes "NUL \<notin> set d"
  shows "i \<le> length d \<Longrightarrow> length d < i + n \<Longrightarrow> strlcat_end (d @ NUL # post) i n = Some (length d)"
proof (induction n arbitrary: i)
  case 0
  then show ?case by simp
next
  case (Suc n)
  show ?case
  proof (cases "i = length d")
    case True
    then show ?thesis by (simp add: rd_cstr_end)
  next
    case False
    then have "i < length d" using Suc.prems by simp
    then show ?thesis using Suc rd_cstr [OF assms, of i post] by simp
  qed
qed

lemma strlcat_copy_correct:
  assumes s: "NUL \<notin> set s"
  shows "k \<le> length s \<Longrightarrow> 0 < n \<Longrightarrow> d + n \<le> length dst \<Longrightarrow>
    strlcat_copy (s @ NUL # post) dst d k n =
      Some (take d dst @ take (n - 1) (drop k s) @ drop (d + min (n - 1) (length s - k)) dst,
            d + min (n - 1) (length s - k), length s)"
proof (induction "length s - k" arbitrary: k d n dst)
  case 0
  then show ?case by (subst strlcat_copy.simps) (simp add: rd_cstr_end)
next
  case (Suc m)
  then have k: "k < length s" by simp
  have s': "drop k s = s ! k # drop (Suc k) s" using k by (simp add: Cons_nth_drop_Suc)
  note r = rd_cstr [OF s k, of post]
  show ?case
  proof (cases "n = 1")
    case True
    then show ?thesis using Suc.hyps(1) [of "Suc k" 1 d dst] Suc.hyps(2) Suc.prems r
      by (subst strlcat_copy.simps) simp
  next
    case False
    define dst' where "dst' = dst[d := s ! k]"
    have d: "d < length dst" using Suc.prems by simp
    then have w: "wr dst d (s ! k) = Some dst'" by (simp add: wr_def dst'_def)
    have t: "take (Suc d) dst' = take d dst @ [s ! k]" "length dst' = length dst"
      using d by (simp_all add: dst'_def take_Suc_conv_app_nth)
    have dr: "drop j dst' = drop j dst" if "d < j" for j using that by (simp add: dst'_def)
    have tk: "take (n - 1) (drop k s) = s ! k # take (n - 1 - 1) (drop (Suc k) s)"
      using False Suc.prems(2) by (cases "n - 1") (auto simp: s')
    have mi: "Suc d + min (n - 1 - 1) (length s - Suc k) = d + min (n - 1) (length s - k)"
      using False Suc.prems(2) k by (auto simp: min_def)
    have "strlcat_copy (s @ NUL # post) dst d k n = strlcat_copy (s @ NUL # post) dst' (Suc d) (Suc k) (n - 1)"
      using False w r by (subst strlcat_copy.simps) simp
    also have "\<dots> = Some (take (Suc d) dst' @ take (n - 1 - 1) (drop (Suc k) s) @
        drop (Suc d + min (n - 1 - 1) (length s - Suc k)) dst',
        Suc d + min (n - 1 - 1) (length s - Suc k), length s)"
      using Suc.prems Suc.hyps(2) False k by (intro Suc.hyps(1)) (auto simp: t)
    finally show ?thesis unfolding mi tk using False Suc.prems(2) k by (simp add: t dr)
  qed
qed

lemma strlcat_contents:
  assumes "NUL \<notin> set s" "NUL \<notin> set d" "length d < siz" "siz \<le> length (d @ NUL # room)"
  shows "strlcat (d @ NUL # room) (s @ NUL # post) siz =
    Some (take (siz - 1) (d @ s) @ NUL # drop (min (siz - 1 - length d) (length s)) room, length d + length s)"
proof -
  have n: "take (siz - 1) (d @ s) = d @ take (siz - 1 - length d) s" using assms(3) by simp
  let ?j = "min (siz - 1 - length d) (length s)"
  have "?j < length (NUL # room)" using assms(3,4) by simp
  then have "drop ?j (NUL # room) = (NUL # room) ! ?j # drop ?j room"
    by (simp only: Cons_nth_drop_Suc [symmetric] drop_Suc_Cons)
  moreover have "length (take (siz - 1 - length d) s) = ?j" by simp
  ultimately have w: "wr (d @ take (siz - 1 - length d) s @ drop ?j (NUL # room)) (length d + ?j) NUL =
      Some (d @ take (siz - 1 - length d) s @ NUL # drop ?j room)"
    by (simp only:) (simp add: wr_def list_update_append)
  show ?thesis
    using assms strlcat_end_correct [OF assms(2), of 0 siz room] strlcat_copy_correct [OF assms(1), of 0 "siz - length d" "length d" "d @ NUL # room" post] w
    by (simp add: strlcat_def n)
qed


section \<open>Properties of the copies\<close>

text \<open>
  C19. strlcpy and strlcat within their bounds: into a destination of \<open>siz\<close> characters
  \<open>strlcpy\<close> stores the first \<open>siz - 1\<close> characters of the source and a NUL, \<open>strlcat\<close> the first
  \<open>siz - 1\<close> of the concatenation and a NUL, everything behind is untouched, and the results are
  the lengths that would have been needed.
\<close>

theorem strlcpy_strlcat_bounded:
  assumes "NUL \<notin> set s" "siz \<le> length dst" "0 < siz"
    and "NUL \<notin> set d" "length d < n" "n \<le> length (d @ NUL # room)"
  shows "(\<exists>dst'. strlcpy dst (s @ NUL # post) siz = Some (dst', length s) \<and>
      cstr_at dst' 0 = take (siz - 1) s \<and> length dst' = length dst \<and> drop siz dst' = drop siz dst) \<and>
    (\<exists>dst'. strlcat (d @ NUL # room) (s @ NUL # post) n = Some (dst', length d + length s) \<and>
      cstr_at dst' 0 = take (n - 1) (d @ s) \<and> length dst' = length (d @ NUL # room) \<and>
      drop n dst' = drop n (d @ NUL # room))"
proof -
  have u: "cstr_at (x @ NUL # y) 0 = x" if "NUL \<notin> set x" for x y
    using cstr_at_app [of x "[]" y] that by simp
  have s: "NUL \<notin> set (take k s)" "NUL \<notin> set (take k (d @ s))" for k
    using assms(1,4) by (auto dest: in_set_takeD)
  have dst: "length (X @ c # drop (Suc (length X)) b) = length b \<and> drop k (X @ c # drop (Suc (length X)) b) = drop k b"
    if "length X < k" "k \<le> length b" for X b k and c :: char
    using that by (simp add: drop_Cons' add.commute)
  define A where "A = take (siz - 1) s @ NUL # drop (Suc (length (take (siz - 1) s))) dst"
  define B where "B = take (n - 1) (d @ s) @ NUL # drop (Suc (length (take (n - 1) (d @ s)))) (d @ NUL # room)"
  have 1: "strlcpy dst (s @ NUL # post) siz = Some (A, length s)"
    using strlcpy_contents [OF assms(1-3), of post] by (simp add: A_def min.commute)
  have 2: "strlcat (d @ NUL # room) (s @ NUL # post) n = Some (B, length d + length s)"
    using strlcat_contents [OF assms(1,4,5,6), of post] assms(5) by (simp add: B_def min.commute)
  have "length (take (siz - 1) s) < siz" "length (take (n - 1) (d @ s)) < n" using assms(3,5) by auto
  then have "length A = length dst \<and> drop siz A = drop siz dst"
    "length B = length (d @ NUL # room) \<and> drop n B = drop n (d @ NUL # room)"
    unfolding A_def B_def using dst assms(2,6) by blast+
  moreover have "cstr_at A 0 = take (siz - 1) s" "cstr_at B 0 = take (n - 1) (d @ s)"
    unfolding A_def B_def by (rule u, rule s)+
  ultimately show ?thesis using 1 2 by blast
qed

lemma strlcpy_strlcat_bounded_witness:
  "(\<exists>dst'. strlcpy ''xxxxx'' (''hello'' @ [NUL]) 4 = Some (dst', 5) \<and> cstr_at dst' 0 = ''hel'') \<and>
   (\<exists>dst'. strlcat (''ab'' @ NUL # ''xyz'') (''hello'' @ [NUL]) 5 = Some (dst', 7) \<and> cstr_at dst' 0 = ''abhe'')"
  using strlcpy_strlcat_bounded [of "''hello''" 4 "''xxxxx''" "''ab''" 5 "''xyz''" "[]"] by auto

section \<open>Properties of vis\<close>

lemma length_cstyle: "cstyle c nextc = Some s \<Longrightarrow> 1 \<le> length s \<and> length s \<le> 4"
  unfolding cstyle_def by (simp split: if_splits) fastforce+

lemma length_vis_meta: "Suc 0 \<le> length (vis_meta n flag) \<and> length (vis_meta n flag) \<le> 4"
  by (simp add: vis_meta_def Let_def)

lemma length_vis: "1 \<le> length (vis c flag nextc) \<and> length (vis c flag nextc) \<le> 4"
proof (cases "if flag AND VIS_CSTYLE \<noteq> 0 then cstyle c nextc else None")
  case None
  then show ?thesis unfolding vis_def None by (simp add: length_vis_meta vis_octal_def)
next
  case (Some s)
  then have "1 \<le> length s \<and> length s \<le> 4"
    using length_cstyle by (auto split: if_splits)
  then show ?thesis unfolding vis_def Some by simp
qed

text \<open>The comment above \<open>strvis\<close>: four times the size of the source suffices.\<close>

lemma length_strvis: "length (strvis s flag) \<le> 4 * length s"
proof (induction s)
  case (Cons c cs)
  then show ?case using length_vis [of c flag "next_char cs"] by simp
qed simp

lemma isvisible_vis:
  assumes "flag AND VIS_HTTPSTYLE = 0" "flag AND VIS_GLOB = 0 \<or> flag AND VIS_SAFE = 0"
    and "isvisible c flag"
  shows "vis c flag nextc = c # (if c = CHR 0x5C \<and> flag AND VIS_NOSLASH = 0 then [CHR 0x5C] else [])"
proof -
  have "\<not> glob_char (CHR '' '')" "\<not> glob_char (CHR 0x09)" "\<not> glob_char (CHR 0x0A)"
    "\<not> glob_char (CHR 0x08)" "\<not> glob_char (CHR 0x07)" "\<not> glob_char (CHR 0x0D)"
    by (simp_all add: glob_char_def)
  then show ?thesis using assms by (auto simp: vis_def isvisible_def)
qed

lemma strnvis_loop_correct:
  assumes "flag AND VIS_HTTPSTYLE = 0" "flag AND VIS_GLOB = 0 \<or> flag AND VIS_SAFE = 0"
    and "strnvis_loop flag e out i src = (out', i', rest)"
  shows "out' @ strvis rest flag = out @ strvis src flag \<and>
    (int (length out) \<le> e \<longrightarrow> int (length out') \<le> e) \<and>
    (rest \<noteq> [] \<longrightarrow> e < int (length out') + int i' \<or> e \<le> int (length out) \<and> out' = out \<and> i' = i)"
  using assms
proof (induction flag e out i src rule: strnvis_loop.induct)
  case (1 flag e out i)
  then show ?case by simp
next
  case (2 flag e out i c cs)
  let ?t = "vis c flag (next_char cs)"
  note vis = isvisible_vis [OF "2.prems"(1,2), of c "next_char cs"]
  consider (full) "\<not> int (length out) < e"
    | (slash) "int (length out) < e" "isvisible c flag" "c = CHR 0x5C" "flag AND VIS_NOSLASH = 0"
    | (plain) "int (length out) < e" "isvisible c flag" "\<not> (c = CHR 0x5C \<and> flag AND VIS_NOSLASH = 0)"
    | (enc) "int (length out) < e" "\<not> isvisible c flag" by blast
  then show ?case
  proof cases
    case full
    then show ?thesis using "2.prems"(3) by auto
  next
    case slash
    then have t: "?t = [CHR 0x5C, CHR 0x5C]" using vis by simp
    show ?thesis
    proof (cases "int (length (out @ [c])) < e")
      case True
      then have "strnvis_loop flag e (out @ [c, CHR 0x5C]) 1 cs = (out', i', rest)"
        using slash "2.prems"(3) by simp
      from "2.IH"(1) [OF _ slash(2) _ True "2.prems"(1,2) this] slash True t show ?thesis by auto
    next
      case False
      then have "out' = out" "i' = 2" "rest = c # cs" using slash "2.prems"(3) by auto
      then show ?thesis using slash False by auto
    qed
  next
    case plain
    then have t: "?t = [c]" using vis by auto
    have "strnvis_loop flag e (out @ [c]) 1 cs = (out', i', rest)" using plain "2.prems"(3) by auto
    from "2.IH"(2) [OF _ plain(2,3) "2.prems"(1,2) this] plain t show ?thesis by auto
  next
    case enc
    show ?thesis
    proof (cases "int (length out) + int (length ?t) \<le> e")
      case True
      then have "strnvis_loop flag e (out @ ?t) (length ?t) cs = (out', i', rest)"
        using enc "2.prems"(3) by (simp add: Let_def)
      from "2.IH"(3) [OF _ enc(2) refl refl True "2.prems"(1,2) this] enc True length_vis [of c flag "next_char cs"]
      show ?thesis by auto
    next
      case False
      then show ?thesis using enc "2.prems"(3) by (auto simp: Let_def)
    qed
  qed
qed

text \<open>
  C36. strnvis: without the HTTP style, and unless both the glob and the safe flags are given, at
  most \<open>siz - 1\<close> characters are stored, they begin the full encoding of the source, and the
  result is the length of the full encoding whatever the size is, except when it is 1, where the
  result is 0 for every source.
\<close>

theorem strnvis_correct:
  assumes "flag AND VIS_HTTPSTYLE = 0" "flag AND VIS_GLOB = 0 \<or> flag AND VIS_SAFE = 0"
  shows "(0 < siz \<longrightarrow> length (fst (strnvis src siz flag)) \<le> siz - 1) \<and>
    (\<exists>more. strvis src flag = fst (strnvis src siz flag) @ more) \<and>
    snd (strnvis src siz flag) = (if siz = 1 then 0 else length (strvis src flag))"
proof -
  let ?e = "int siz - 1"
  obtain out i rest where l: "strnvis_loop flag ?e [] 0 src = (out, i, rest)" by (metis prod_cases3)
  note c = strnvis_loop_correct [OF assms l]
  have s: "strvis src flag = out @ strvis rest flag" using c by simp
  have b: "0 < siz \<Longrightarrow> length out \<le> siz - 1" using c by auto
  have "snd (strnvis src siz flag) = (if siz = 1 then 0 else length (strvis src flag))"
  proof (cases "siz = 1")
    case True
    then have "out = []" "i = 0" using l by (cases src; simp)+
    then show ?thesis using True l by (simp add: strnvis_def)
  next
    case False
    then have "rest = [] \<or> ?e < int (length out) + int i" using c by (cases "siz = 0") auto
    then show ?thesis using False l s by (auto simp: strnvis_def)
  qed
  then show ?thesis using b s l by (simp add: strnvis_def)
qed

lemma strnvis_correct_witness:
  "length (fst (strnvis ''a\<newline>b'' 4 VIS_OCTAL)) \<le> 3 \<and>
   snd (strnvis [CHR ''a'', CHR 0x07, CHR ''b''] 4 0x11) = length (strvis [CHR ''a'', CHR 0x07, CHR ''b''] 0x11)"
  using strnvis_correct [of VIS_OCTAL 4 "''a\<newline>b''"] strnvis_correct [of "0x11" 4 "[CHR ''a'', CHR 0x07, CHR ''b'']"]
  by simp

end
