(* ===== verification/FSU_Dir.thy ===== *)
theory FSU_Dir
  imports Rump_Sys CString
begin

text \<open>
  Directories (\<open>src/lib/fsu_dir.c\<close>): reading them through the \<open>getdents\<close> call, and the two
  routines that find out absolute paths by walking up with \<open>chdir\<close>.

  Of the structure \<open>FSU_DIR\<close> the buffer and the pointer into it are the list of the entries not
  yet returned; it is empty when \<open>dd_size\<close> is not positive. The static variable \<open>root_ino\<close> is
  passed and returned. Memory is always granted, a freshly allocated buffer starts with NULs.
  Loops that depend on the answers of the kernel are partial functions; an assertion that fails
  and a NULL that is followed are \<^const>\<open>None\<close>.
\<close>

abbreviation "EFAULT \<equiv> (14 :: errno)"

record FSU_DIR =
  dd_fd :: fd
  dd_ents :: "dirent list"
  dd_off :: int

definition fsu_opendir :: "'k rump \<Rightarrow> string \<Rightarrow> 'k world \<Rightarrow> FSU_DIR option \<times> 'k world" where
  "fsu_opendir R path w =
     (case call (sys_open R path (O_RDONLY OR O_DIRECTORY) 0) w of
        (None, w) \<Rightarrow> (None, w)
      | (Some fd, w) \<Rightarrow> (Some \<lparr>dd_fd = fd, dd_ents = [], dd_off = 0\<rparr>, w))"

definition fsu_closedir :: "'k rump \<Rightarrow> FSU_DIR \<Rightarrow> 'k world \<Rightarrow> 'k world" where
  "fsu_closedir R dir w = w\<lparr>kern := sys_close R (dd_fd dir) (kern w)\<rparr>"

text \<open>One pass of \<open>retry\<close>: the next entry, reading the directory when the buffer is used up.\<close>

definition next_dirent :: "'k rump \<Rightarrow> FSU_DIR \<Rightarrow> 'k world \<Rightarrow> dirent option \<times> FSU_DIR \<times> 'k world" where
  "next_dirent R dir w =
     (case dd_ents dir of
        d # ds \<Rightarrow> (Some d, dir\<lparr>dd_ents := ds\<rparr>, w)
      | [] \<Rightarrow>
        (case call (sys_getdents R (dd_fd dir) 8192) w of
           (Some (d # ds), w) \<Rightarrow> (Some d, dir\<lparr>dd_ents := ds\<rparr>, w)
         | (_, w) \<Rightarrow> (None, dir, w)))"

partial_function (option) fsu_readdir ::
  "'k rump \<Rightarrow> FSU_DIR \<Rightarrow> 'k world \<Rightarrow> (dirent option \<times> FSU_DIR \<times> 'k world) option"
where
  "fsu_readdir R dir w =
     (case next_dirent R dir w of
        (None, dir, w) \<Rightarrow> Some (None, dir, w)
      | (Some d, dir, w) \<Rightarrow>
          if d_ino d = 0 then fsu_readdir R dir w else Some (Some d, dir, w))"

definition fsu_rewinddir :: "FSU_DIR \<Rightarrow> FSU_DIR" where
  "fsu_rewinddir dir = dir\<lparr>dd_off := 0, dd_ents := []\<rparr>"

section \<open>The current directory\<close>

text \<open>The search for an inode number in the open parent directory.\<close>

partial_function (option) find_name ::
  "'k rump \<Rightarrow> fd \<Rightarrow> 64 word \<Rightarrow> 'k world \<Rightarrow> (string option \<times> 'k world) option"
where
  "find_name R fd ino w =
     (case call (sys_getdents R fd 8192) w of
        (None, w) \<Rightarrow> Some (None, w)
      | (Some [], w) \<Rightarrow> Some (None, w)
      | (Some ds, w) \<Rightarrow>
          (case List.find (\<lambda>d. d_ino d = ino) ds of
             Some d \<Rightarrow> Some (Some (d_name d), w)
           | None \<Rightarrow> find_name R fd ino w))"

definition fsu_getdirname ::
  "'k rump \<Rightarrow> 64 word \<Rightarrow> 'k world \<Rightarrow> (string option \<times> 64 word \<times> 'k world) option"
where
  "fsu_getdirname R root_ino w =
     (case (if root_ino = 0
            then (case call (sys_stat R ''/'') w of
                    (None, w) \<Rightarrow> (None, w)
                  | (Some dot, w) \<Rightarrow> (Some (st_ino dot), w))
            else (Some root_ino, w)) of
        (None, w) \<Rightarrow> Some (None, root_ino, w)
      | (Some root_ino, w) \<Rightarrow>
          (case call (sys_stat R ''.'') w of
             (None, w) \<Rightarrow> Some (None, root_ino, w)
           | (Some dot, w) \<Rightarrow>
               if st_ino dot = root_ino then Some (Some ''/'', root_ino, w)
               else
                 (case call (sys_open R ''..'' (O_RDONLY OR O_DIRECTORY) 0) w of
                    (None, w) \<Rightarrow> None
                  | (Some fd, w) \<Rightarrow>
                      if fd < 0 then None
                      else map_option (\<lambda>(n, w). (n, root_ino, w)) (find_name R fd (st_ino dot) w))))"

text \<open>
  The first loop of \<open>fsu_getcwd\<close>: the names from the current directory up to below the root
  (\<open>names\<close> in reverse), and whether the root was reached.
\<close>

partial_function (option) getcwd_up ::
  "'k rump \<Rightarrow> string list \<Rightarrow> nat \<Rightarrow> 64 word \<Rightarrow> 'k world \<Rightarrow>
     (bool \<times> string list \<times> nat \<times> 64 word \<times> 'k world) option"
where
  "getcwd_up R names len root_ino w =
     (case fsu_getdirname R root_ino w of
        None \<Rightarrow> None
      | Some (None, root_ino, w) \<Rightarrow> Some (False, names, len, root_ino, w)
      | Some (Some name, root_ino, w) \<Rightarrow>
          if name = ''/'' then Some (True, names, len + 1, root_ino, w)
          else
            (case call (sys_chdir R ''..'') w of
               (None, w) \<Rightarrow> Some (False, names, len + (length name + 1), root_ino, w)
             | (Some _, w) \<Rightarrow> getcwd_up R (name # names) (len + (length name + 1)) root_ino w))"

text \<open>The second loop: the names appended to the buffer, each followed by a slash.\<close>

fun getcwd_append :: "cbuffer \<Rightarrow> nat \<Rightarrow> string list \<Rightarrow> cbuffer option" where
  "getcwd_append dirname len [] = Some dirname"
| "getcwd_append dirname len (name # names) =
     do { (dirname, rv) \<leftarrow> strlcat dirname (name @ [NUL]) len;
          dirname \<leftarrow> wr dirname rv CHR ''/'';
          dirname \<leftarrow> wr dirname (rv + 1) NUL;
          getcwd_append dirname len names }"

definition getcwd_join :: "string list \<Rightarrow> nat \<Rightarrow> string option" where
  "getcwd_join names len =
     do { dirname \<leftarrow> wr (replicate len NUL) 0 CHR ''/'';
          dirname \<leftarrow> wr dirname 1 NUL;
          dirname \<leftarrow> getcwd_append dirname len names;
          Some (cstr_at dirname 0) }"

definition chdir_all :: "'k rump \<Rightarrow> string list \<Rightarrow> 'k world \<Rightarrow> 'k world" where
  "chdir_all R names w = fold (\<lambda>n w. snd (call (sys_chdir R n) w)) names w"

definition fsu_getcwd :: "'k rump \<Rightarrow> 64 word \<Rightarrow> 'k world \<Rightarrow> (string option \<times> 64 word \<times> 'k world) option" where
  "fsu_getcwd R root_ino w =
     do { (found, names, len, root_ino, w) \<leftarrow> getcwd_up R [] 1 root_ino w;
          if \<not> found then Some (None, root_ino, chdir_all R names w)
          else if names = [] then Some (Some ''/'', root_ino, w)
          else do { dirname \<leftarrow> getcwd_join names len;
                    Some (Some dirname, root_ino, snd (call (sys_chdir R dirname) w)) } }"

section \<open>Absolute paths\<close>

definition strrchr :: "char \<Rightarrow> string \<Rightarrow> nat option" where
  "strrchr c s = (if c \<in> set s then Some (length s - Suc (length (takeWhile (\<lambda>d. d \<noteq> c) (rev s)))) else None)"

text \<open>The first part: change to the directory, or to the directory part of a path; the result
  is the file name left over, if any.\<close>

definition getapath_chdir :: "'k rump \<Rightarrow> string \<Rightarrow> 'k world \<Rightarrow> string option option \<times> 'k world" where
  "getapath_chdir R dir w =
     (case call (sys_chdir R dir) w of
        (Some _, w) \<Rightarrow> (Some None, w)
      | (None, w) \<Rightarrow>
          (case strrchr CHR ''/'' dir of
             None \<Rightarrow> (Some (Some dir), w)
           | Some p \<Rightarrow>
               (case call (sys_chdir R (take p dir)) w of
                  (None, w) \<Rightarrow> (None, w)
                | (Some _, w) \<Rightarrow> (Some (Some (drop (p + 1) dir)), w))))"

definition getapath_join :: "string \<Rightarrow> string \<Rightarrow> string option" where
  "getapath_join new_dir fname =
     (let old_size = (if length new_dir = 1 then 0 else length new_dir);
          new_size = (if length new_dir = 1 then length fname + 2 else length new_dir + (length fname + 2));
          buf = take new_size (new_dir @ NUL # replicate new_size NUL) in
      do { buf \<leftarrow> wr buf old_size CHR ''/'';
           buf \<leftarrow> wr buf (old_size + 1) NUL;
           (buf, _) \<leftarrow> strlcat buf (fname @ [NUL]) new_size;
           buf \<leftarrow> wr buf (new_size - 1) NUL;
           Some (cstr_at buf 0) })"

definition fsu_getapath ::
  "'k rump \<Rightarrow> string \<Rightarrow> 64 word \<Rightarrow> 'k world \<Rightarrow> (string option \<times> 64 word \<times> 'k world) option"
where
  "fsu_getapath R dir root_ino w =
     do { (old_dir, root_ino, w) \<leftarrow> fsu_getcwd R root_ino w;
          case getapath_chdir R dir w of
            (None, w) \<Rightarrow> Some (None, root_ino, w)
          | (Some fname, w) \<Rightarrow>
              do { (new_dir, root_ino, w) \<leftarrow> fsu_getcwd R root_ino w;
                   new_dir \<leftarrow> new_dir;
                   new_dir \<leftarrow> (case fname of None \<Rightarrow> Some new_dir | Some f \<Rightarrow> getapath_join new_dir f);
                   Some (Some new_dir, root_ino,
                     case old_dir of
                       None \<Rightarrow> w\<lparr>errno := EFAULT\<rparr>
                     | Some d \<Rightarrow> snd (call (sys_chdir R d) w)) } }"

section \<open>Reading a directory\<close>

text \<open>
  What the kernel promises for an open directory: \<open>getdents\<close> returns the next entries, at least
  one while there are any.
\<close>

definition reads_dir :: "'k rump \<Rightarrow> fd \<Rightarrow> ('k \<Rightarrow> dirent list) \<Rightarrow> bool" where
  "reads_dir R fd left \<longleftrightarrow>
     (\<forall>n k. \<exists>ds k'. sys_getdents R fd n k = (Inr ds, k') \<and> left k = ds @ left k' \<and> (ds = [] \<longrightarrow> left k = []))"

definition pending :: "('k \<Rightarrow> dirent list) \<Rightarrow> FSU_DIR \<Rightarrow> 'k world \<Rightarrow> dirent list" where
  "pending left dir w = dd_ents dir @ left (kern w)"

text \<open>The entries of removed files have the inode number 0.\<close>

definition live :: "dirent list \<Rightarrow> dirent list" where
  "live ds = filter (\<lambda>d. d_ino d \<noteq> 0) ds"

lemma next_dirent_pending:
  assumes "reads_dir R (dd_fd dir) left"
  shows "\<exists>dir' w'. next_dirent R dir w = (case pending left dir w of [] \<Rightarrow> None | d # _ \<Rightarrow> Some d, dir', w') \<and>
    dd_fd dir' = dd_fd dir \<and> pending left dir' w' = tl (pending left dir w)"
proof (cases "dd_ents dir")
  case (Cons d ds)
  then show ?thesis by (simp add: next_dirent_def pending_def)
next
  case Nil
  obtain ds k' where k: "sys_getdents R (dd_fd dir) 8192 (kern w) = (Inr ds, k')"
    "left (kern w) = ds @ left k'" "ds = [] \<longrightarrow> left (kern w) = []"
    using assms unfolding reads_dir_def by metis
  then show ?thesis
    using call_Inr [of "sys_getdents R (dd_fd dir) 8192" w, OF k(1)] Nil by (cases ds) (auto simp: next_dirent_def pending_def)
qed

lemma fsu_readdir_live:
  assumes "reads_dir R (dd_fd dir) left"
  shows "\<exists>dir' w'. fsu_readdir R dir w =
      Some (case live (pending left dir w) of [] \<Rightarrow> None | d # _ \<Rightarrow> Some d, dir', w') \<and>
    dd_fd dir' = dd_fd dir \<and> live (pending left dir' w') = tl (live (pending left dir w))"
  using assms
proof (induction "length (pending left dir w)" arbitrary: dir w rule: less_induct)
  case less
  obtain dir1 w1 where n: "next_dirent R dir w = (case pending left dir w of [] \<Rightarrow> None | d # _ \<Rightarrow> Some d, dir1, w1)"
    and d1: "dd_fd dir1 = dd_fd dir" "pending left dir1 w1 = tl (pending left dir w)"
    using next_dirent_pending [OF less.prems, of w] by blast
  show ?case
  proof (cases "pending left dir w")
    case Nil
    then show ?thesis using n d1 by (subst fsu_readdir.simps) (simp add: live_def)
  next
    case (Cons d ds)
    show ?thesis
    proof (cases "d_ino d = 0")
      case True
      have "fsu_readdir R dir w = fsu_readdir R dir1 w1"
        using n Cons True by (subst fsu_readdir.simps) simp
      moreover have "live (pending left dir w) = live (pending left dir1 w1)"
        using Cons True d1 by (simp add: live_def)
      ultimately show ?thesis
        using less.hyps [of dir1 w1] less.prems Cons d1 by simp
    next
      case False
      then show ?thesis using n d1 Cons by (subst fsu_readdir.simps) (simp add: live_def)
    qed
  qed
qed

text \<open>A caller that reads \<open>n\<close> times.\<close>

fun readdir_n :: "nat \<Rightarrow> 'k rump \<Rightarrow> FSU_DIR \<Rightarrow> 'k world \<Rightarrow> (dirent option list \<times> FSU_DIR \<times> 'k world) option" where
  "readdir_n 0 R dir w = Some ([], dir, w)"
| "readdir_n (Suc n) R dir w =
     do { (d, dir, w) \<leftarrow> fsu_readdir R dir w;
          (ds, dir, w) \<leftarrow> readdir_n n R dir w;
          Some (d # ds, dir, w) }"

text \<open>
  C10. Reading a directory always ends and is complete: on a directory that the kernel delivers in
  pieces of any size, every call of fsu_readdir returns, the calls deliver the entries in order
  without those of removed files, and from then on NULL.
\<close>

theorem readdir_complete:
  assumes "reads_dir R (dd_fd dir) left" "live (pending left dir w) = ds"
  shows "\<exists>dir' w'. readdir_n n R dir w =
    Some (map Some (take n ds) @ replicate (n - length ds) None, dir', w')"
  using assms
proof (induction n arbitrary: dir w ds)
  case 0
  then show ?case by simp
next
  case (Suc n)
  obtain dir1 w1 where r: "fsu_readdir R dir w = Some (case ds of [] \<Rightarrow> None | d # _ \<Rightarrow> Some d, dir1, w1)"
    "dd_fd dir1 = dd_fd dir" "live (pending left dir1 w1) = tl ds"
    using fsu_readdir_live [OF Suc.prems(1), of w] Suc.prems(2) by auto
  obtain dir2 w2 where "readdir_n n R dir1 w1 =
      Some (map Some (take n (tl ds)) @ replicate (n - length (tl ds)) None, dir2, w2)"
    using Suc.IH [of dir1 w1 "tl ds"] Suc.prems(1) r by auto
  then show ?case using r(1) by (cases ds) auto
qed

section \<open>A kernel with three directories\<close>

record dkern =
  dk_cwd :: "string list"
  dk_left :: "dirent list"

definition de :: "64 word \<Rightarrow> string \<Rightarrow> dirent" where
  "de i n = \<lparr>d_ino = i, d_type = 0, d_name = n\<rparr>"

definition dk_ents :: "string list \<Rightarrow> dirent list" where
  "dk_ents p = (if p = [] then [de 7 ''f'', de 3 ''a''] else if p = [''a''] then [de 0 ''x'', de 4 ''b''] else [])"

definition dir_rump :: "dkern rump" where
  "dir_rump =
     \<lparr>sys_open = (\<lambda>path flags mode k. (Inr 3, k\<lparr>dk_left := dk_ents (butlast (dk_cwd k))\<rparr>)),
      sys_close = (\<lambda>fd k. k),
      sys_read = (\<lambda>fd n k. (Inl EBADF, k)),
      sys_pwrite = (\<lambda>fd bs off k. (Inl EBADF, k)),
      sys_fstat = (\<lambda>fd k. (Inl EBADF, k)),
      sys_stat = (\<lambda>path k. (Inr ((file_stat 0)\<lparr>st_ino := (if path = ''/'' then 2 else 2 + of_nat (length (dk_cwd k)))\<rparr>), k)),
      sys_lstat = (\<lambda>path k. (Inl EBADF, k)),
      sys_chdir = (\<lambda>path k.
        if path = ''..'' then (Inr (), k\<lparr>dk_cwd := butlast (dk_cwd k)\<rparr>)
        else if path = ''/a/'' then (Inr (), k\<lparr>dk_cwd := [''a'']\<rparr>)
        else if path = ''/a/b/'' then (Inr (), k\<lparr>dk_cwd := [''a'', ''b'']\<rparr>)
        else (Inr (), k\<lparr>dk_cwd := []\<rparr>)),
      sys_getdents = (\<lambda>fd n k. (Inr (take 1 (dk_left k)), k\<lparr>dk_left := drop 1 (dk_left k)\<rparr>))\<rparr>"

lemma reads_dir_rump: "reads_dir dir_rump fd dk_left"
  by (auto simp: reads_dir_def dir_rump_def)

lemma readdir_complete_witness:
  "\<exists>dir' w'. readdir_n 3 dir_rump \<lparr>dd_fd = 3, dd_ents = [de 7 ''f''], dd_off = 0\<rparr>
      \<lparr>kern = \<lparr>dk_cwd = [], dk_left = [de 0 ''x'', de 4 ''b'']\<rparr>, errno = 0\<rparr> =
    Some ([Some (de 7 ''f''), Some (de 4 ''b''), None], dir', w')"
  using readdir_complete [OF reads_dir_rump, of "\<lparr>dd_fd = 3, dd_ents = [de 7 ''f''], dd_off = 0\<rparr>"
      "\<lparr>kern = \<lparr>dk_cwd = [], dk_left = [de 0 ''x'', de 4 ''b'']\<rparr>, errno = 0\<rparr>" "[de 7 ''f'', de 4 ''b'']" 3]
  by (simp add: pending_def live_def de_def numeral_3_eq_3)

section \<open>The current directory\<close>

text \<open>An absolute path with a slash behind every name.\<close>

definition slashed :: "string list \<Rightarrow> string" where
  "slashed p = CHR ''/'' # concat (map (\<lambda>d. d @ ''/'') p)"

lemma getcwd_append_correct:
  assumes "\<forall>d \<in> set names. NUL \<notin> set d" "NUL \<notin> set pre"
    and "length room = length (concat (map (\<lambda>d. d @ ''/'') names))" "len = length (pre @ NUL # room)"
  shows "getcwd_append (pre @ NUL # room) len names = Some (pre @ concat (map (\<lambda>d. d @ ''/'') names) @ [NUL])"
  using assms
proof (induction names arbitrary: pre room)
  case Nil
  then show ?case by simp
next
  case (Cons name names)
  have c: "strlcat (pre @ NUL # room) (name @ [NUL]) len =
      Some (take (len - 1) (pre @ name) @ NUL # drop (min (len - 1 - length pre) (length name)) room,
            length pre + length name)"
    using Cons.prems by (intro strlcat_contents) auto
  have l: "len - 1 = length pre + length room" "length name < length room"
    using Cons.prems(3,4) by simp_all
  obtain x room' where room: "drop (length name) room = x # room'"
    using l(2) by (metis Cons_nth_drop_Suc)
  have r': "length room' = length (concat (map (\<lambda>d. d @ ''/'') names))"
    using arg_cong [OF room, of length] Cons.prems(3) by simp
  have c': "strlcat (pre @ NUL # room) (name @ [NUL]) len =
      Some ((pre @ name) @ NUL # x # room', length (pre @ name))"
  proof -
    have m: "min (len - 1 - length pre) (length name) = length name" using l by simp
    have t: "take (len - 1) (pre @ name) = pre @ name" using l by simp
    show ?thesis using c unfolding m t room by simp
  qed
  have "wr ((pre @ name) @ CHR ''/'' # x # room') (length (pre @ name) + 1) NUL =
      Some ((pre @ name @ ''/'') @ NUL # room')"
    using wr_app_here [of "length (pre @ name) + 1" "pre @ name @ ''/''" x room' NUL] by simp
  then have "getcwd_append (pre @ NUL # room) len (name # names) =
      getcwd_append ((pre @ name @ ''/'') @ NUL # room') len names"
    using wr_app_here [of "length (pre @ name)" "pre @ name" NUL "x # room'" "CHR ''/''"] c'
    by simp
  also have "\<dots> = Some ((pre @ name @ ''/'') @ concat (map (\<lambda>d. d @ ''/'') names) @ [NUL])"
    using Cons.prems r' arg_cong [OF room, of length] by (intro Cons.IH) auto
  finally show ?case by simp
qed

lemma getcwd_join_correct:
  assumes "\<forall>d \<in> set names. NUL \<notin> set d" "len = 2 + length (concat (map (\<lambda>d. d @ ''/'') names))"
  shows "getcwd_join names len = Some (slashed names)"
proof -
  define n where "n = length (concat (map (\<lambda>d. d @ ''/'') names))"
  have "getcwd_append (''/'' @ NUL # replicate n NUL) len names =
      Some (''/'' @ concat (map (\<lambda>d. d @ ''/'') names) @ [NUL])"
    using assms by (intro getcwd_append_correct) (auto simp: n_def)
  moreover have "NUL \<notin> set (slashed names)" using assms(1) by (auto simp: slashed_def)
  ultimately show ?thesis
    using cstr_at_app [of "slashed names" "[]" "[]"] assms(2)
    by (simp add: getcwd_join_def wr_def slashed_def flip: n_def)
qed

text \<open>
  The kernel and its directories: \<open>D\<close> are the paths of the directories, \<open>ino\<close> their inode numbers
  and \<open>ents\<close> their entries; \<open>cwd\<close> reads the current directory off the state and \<open>left\<close> what is
  unread of an open directory. Within its parent a directory is named by exactly one entry.
\<close>

definition entry_names :: "dirent list \<Rightarrow> (64 word \<times> string) set" where
  "entry_names ds = (\<lambda>d. (d_ino d, d_name d)) ` set ds"

lemma entry_names_append: "entry_names (a @ b) = entry_names a \<union> entry_names b"
  by (auto simp: entry_names_def)

definition cwd_kernel ::
  "'k rump \<Rightarrow> string list set \<Rightarrow> (string list \<Rightarrow> 64 word) \<Rightarrow> (string list \<Rightarrow> dirent list) \<Rightarrow>
     ('k \<Rightarrow> string list) \<Rightarrow> (fd \<Rightarrow> 'k \<Rightarrow> dirent list) \<Rightarrow> bool"
where
  "cwd_kernel R D ino ents cwd left \<longleftrightarrow>
     (\<forall>p \<in> D. p \<noteq> [] \<longrightarrow> butlast p \<in> D \<and> ino p \<noteq> ino [] \<and> last p \<noteq> ''/'' \<and> NUL \<notin> set (last p) \<and>
        (ino p, last p) \<in> entry_names (ents (butlast p)) \<and>
        (\<forall>n. (ino p, n) \<in> entry_names (ents (butlast p)) \<longrightarrow> n = last p)) \<and>
     (\<forall>k. \<exists>st. sys_stat R ''/'' k = (Inr st, k) \<and> st_ino st = ino []) \<and>
     (\<forall>k. \<exists>st. sys_stat R ''.'' k = (Inr st, k) \<and> st_ino st = ino (cwd k)) \<and>
     (\<forall>k. \<exists>k'. sys_chdir R ''..'' k = (Inr (), k') \<and> cwd k' = butlast (cwd k)) \<and>
     (\<forall>k. \<exists>fd k'. sys_open R ''..'' (O_RDONLY OR O_DIRECTORY) 0 k = (Inr fd, k') \<and> 0 \<le> fd \<and>
        cwd k' = cwd k \<and> left fd k' = ents (butlast (cwd k))) \<and>
     (\<forall>fd n k. \<exists>ds k'. sys_getdents R fd n k = (Inr ds, k') \<and> cwd k' = cwd k \<and>
        left fd k = ds @ left fd k' \<and> (ds = [] \<longrightarrow> left fd k = [])) \<and>
     (\<forall>p k. p \<in> D \<longrightarrow> (\<exists>k'. sys_chdir R (slashed p) k = (Inr (), k') \<and> cwd k' = p))"

lemma cwd_kernel_dir:
  "cwd_kernel R D ino ents cwd left \<Longrightarrow> p \<in> D \<Longrightarrow> p \<noteq> [] \<Longrightarrow>
     butlast p \<in> D \<and> ino p \<noteq> ino [] \<and> last p \<noteq> ''/'' \<and> NUL \<notin> set (last p) \<and>
     (ino p, last p) \<in> entry_names (ents (butlast p)) \<and> (\<forall>n. (ino p, n) \<in> entry_names (ents (butlast p)) \<longrightarrow> n = last p)"
  by (simp add: cwd_kernel_def)

lemma cwd_kernel_calls:
  assumes "cwd_kernel R D ino ents cwd left"
  shows "\<exists>st. sys_stat R ''/'' k = (Inr st, k) \<and> st_ino st = ino []"
    and "\<exists>st. sys_stat R ''.'' k = (Inr st, k) \<and> st_ino st = ino (cwd k)"
    and "\<exists>k'. sys_chdir R ''..'' k = (Inr (), k') \<and> cwd k' = butlast (cwd k)"
    and "\<exists>fd k'. sys_open R ''..'' (O_RDONLY OR O_DIRECTORY) 0 k = (Inr fd, k') \<and> 0 \<le> fd \<and>
        cwd k' = cwd k \<and> left fd k' = ents (butlast (cwd k))"
    and "\<exists>ds k'. sys_getdents R fd n k = (Inr ds, k') \<and> cwd k' = cwd k \<and>
        left fd k = ds @ left fd k' \<and> (ds = [] \<longrightarrow> left fd k = [])"
    and "p \<in> D \<Longrightarrow> \<exists>k'. sys_chdir R (slashed p) k = (Inr (), k') \<and> cwd k' = p"
  using assms by (simp_all add: cwd_kernel_def)

lemma find_name_correct:
  assumes K: "cwd_kernel R D ino ents cwd left"
    and "(i, n) \<in> entry_names (left fd (kern w))" "\<forall>m. (i, m) \<in> entry_names (left fd (kern w)) \<longrightarrow> m = n"
  shows "\<exists>w'. find_name R fd i w = Some (Some n, w') \<and> cwd (kern w') = cwd (kern w)"
  using assms(2,3)
proof (induction "length (left fd (kern w))" arbitrary: w rule: less_induct)
  case less
  obtain ds k' where k: "sys_getdents R fd 8192 (kern w) = (Inr ds, k')" "cwd k' = cwd (kern w)"
    "left fd (kern w) = ds @ left fd k'" "ds = [] \<longrightarrow> left fd (kern w) = []"
    using cwd_kernel_calls(5) [OF K] by metis
  have "ds \<noteq> []" using k(4) less.prems(1) by (auto simp: entry_names_def)
  then obtain d ds' where ds: "ds = d # ds'" by (cases ds) auto
  note c = call_Inr [of "sys_getdents R fd 8192" w, OF k(1)]
  show ?case
  proof (cases "List.find (\<lambda>d. d_ino d = i) ds")
    case (Some e)
    then have "e \<in> set ds" "d_ino e = i" by (auto simp: find_Some_iff)
    then have "(i, d_name e) \<in> entry_names ds" by (auto simp: entry_names_def)
    then have "d_name e = n" using less.prems(2) unfolding k(3) entry_names_append by blast
    then show ?thesis using c ds Some k(2) by (subst find_name.simps) simp
  next
    case None
    then have "find_name R fd i w = find_name R fd i (w\<lparr>kern := k'\<rparr>)"
      using c ds by (subst find_name.simps) simp
    moreover have "(i, n) \<notin> entry_names ds" using None by (auto simp: find_None_iff entry_names_def)
    then have "(i, n) \<in> entry_names (left fd k')" using less.prems(1) unfolding k(3) entry_names_append by blast
    moreover have "length (left fd k') < length (left fd (kern w))" using k(3) ds by simp
    moreover have "\<forall>m. (i, m) \<in> entry_names (left fd k') \<longrightarrow> m = n"
      using less.prems(2) unfolding k(3) entry_names_append by blast
    moreover have "kern (w\<lparr>kern := k'\<rparr>) = k'" by simp
    ultimately show ?thesis using less.hyps [of "w\<lparr>kern := k'\<rparr>"] k(2) by metis
  qed
qed

lemma fsu_getdirname_correct:
  assumes K: "cwd_kernel R D ino ents cwd left" and p: "cwd (kern w) = p" "p \<in> D" and r: "r = 0 \<or> r = ino []"
  shows "\<exists>w'. fsu_getdirname R r w = Some (Some (if p = [] then ''/'' else last p), ino [], w') \<and>
    cwd (kern w') = p"
proof -
  obtain st where st: "sys_stat R ''/'' (kern w) = (Inr st, kern w)" "st_ino st = ino []"
    using cwd_kernel_calls(1) [OF K] by blast
  obtain dot where dot: "sys_stat R ''.'' (kern w) = (Inr dot, kern w)" "st_ino dot = ino p"
    using cwd_kernel_calls(2) [OF K] p(1) by blast
  have w: "w\<lparr>kern := kern w\<rparr> = w" by simp
  note c = call_Inr [of "sys_stat R ''/''" w, OF st(1)] call_Inr [of "sys_stat R ''.''" w, OF dot(1)]
  show ?thesis
  proof (cases "p = []")
    case True
    have "fsu_getdirname R r w = Some (Some ''/'', ino [], w)"
      using r c st(2) dot(2) True by (elim disjE) (simp_all add: fsu_getdirname_def w)
    then show ?thesis using True p(1) by simp
  next
    case False
    have d: "ino p \<noteq> ino []" "(ino p, last p) \<in> entry_names (ents (butlast p))"
      "\<forall>n. (ino p, n) \<in> entry_names (ents (butlast p)) \<longrightarrow> n = last p"
      using cwd_kernel_dir [OF K p(2) False] by auto
    obtain fd k' where o: "sys_open R ''..'' (O_RDONLY OR O_DIRECTORY) 0 (kern w) = (Inr fd, k')" "0 \<le> fd"
      "cwd k' = p" "left fd k' = ents (butlast p)"
      using cwd_kernel_calls(4) [OF K, of "kern w"] p(1) by auto
    obtain w' where f: "find_name R fd (ino p) (w\<lparr>kern := k'\<rparr>) = Some (Some (last p), w')" "cwd (kern w') = p"
    proof -
      have k': "kern (w\<lparr>kern := k'\<rparr>) = k'" by simp
      have "(ino p, last p) \<in> entry_names (left fd (kern (w\<lparr>kern := k'\<rparr>)))"
        "\<forall>m. (ino p, m) \<in> entry_names (left fd (kern (w\<lparr>kern := k'\<rparr>))) \<longrightarrow> m = last p"
        using d(2,3) unfolding k' o(4) by blast+
      from find_name_correct [OF K this] show ?thesis using that o(3) unfolding k' by blast
    qed
    have "fsu_getdirname R r w = map_option (\<lambda>(n, w). (n, ino [], w)) (find_name R fd (ino p) (w\<lparr>kern := k'\<rparr>))"
      using r c st(2) dot(2) d(1) o(2) call_Inr [of "sys_open R ''..'' (O_RDONLY OR O_DIRECTORY) 0" w, OF o(1)]
      by (elim disjE) (auto simp: fsu_getdirname_def w)
    then show ?thesis using f False by simp
  qed
qed

lemma getcwd_up_correct:
  assumes K: "cwd_kernel R D ino ents cwd left"
  shows "cwd (kern w) = p \<Longrightarrow> p \<in> D \<Longrightarrow> r = 0 \<or> r = ino [] \<Longrightarrow>
    \<exists>w'. getcwd_up R names len r w =
      Some (True, p @ names, len + length (concat (map (\<lambda>d. d @ ''/'') p)) + 1, ino [], w')"
proof (induction p arbitrary: names len r w rule: rev_induct)
  case Nil
  then show ?case
    using fsu_getdirname_correct [OF K Nil.prems(1-3)] by (subst getcwd_up.simps) auto
next
  case (snoc d p)
  obtain w1 where n: "fsu_getdirname R r w = Some (Some d, ino [], w1)" "cwd (kern w1) = p @ [d]"
    using fsu_getdirname_correct [OF K snoc.prems] by auto
  obtain k' where c: "sys_chdir R ''..'' (kern w1) = (Inr (), k')" "cwd k' = p"
    using cwd_kernel_calls(3) [OF K, of "kern w1"] n(2) by auto
  have d: "d \<noteq> ''/''" "p \<in> D" using cwd_kernel_dir [OF K snoc.prems(2)] by auto
  have "getcwd_up R names len r w = getcwd_up R (d # names) (len + (length d + 1)) (ino []) (w1\<lparr>kern := k'\<rparr>)"
    using n d call_Inr [of "sys_chdir R ''..''" w1, OF c(1)] by (subst getcwd_up.simps) simp
  then show ?case
    using snoc.IH [of "w1\<lparr>kern := k'\<rparr>" "ino []" "d # names" "len + (length d + 1)"] c(2) d(2)
    by (auto simp: add.commute add.left_commute)
qed

lemma cwd_kernel_names:
  assumes K: "cwd_kernel R D ino ents cwd left"
  shows "p \<in> D \<Longrightarrow> \<forall>d \<in> set p. NUL \<notin> set d"
proof (induction p rule: rev_induct)
  case (snoc d p)
  then show ?case using cwd_kernel_dir [OF K snoc.prems] by auto
qed simp

text \<open>
  C17. The current directory: for a kernel with any tree of directories, \<open>fsu_getcwd\<close> returns,
  from any directory and whether or not the inode number of the root is known, the names on the
  path from the root, each followed by a slash, within the buffer it allocated, and leaves the
  current directory as it was.
\<close>

theorem fsu_getcwd_correct:
  assumes "cwd_kernel R D ino ents cwd left" "cwd (kern w) \<in> D" "r = 0 \<or> r = ino []"
  shows "\<exists>w'. fsu_getcwd R r w = Some (Some (slashed (cwd (kern w))), ino [], w') \<and> cwd (kern w') = cwd (kern w)"
proof (cases "cwd (kern w) = []")
  case True
  then obtain w' where d: "fsu_getdirname R r w = Some (Some ''/'', ino [], w')" "cwd (kern w') = []"
    using fsu_getdirname_correct [OF assms(1) True _ assms(3)] assms(2) by auto
  have "getcwd_up R [] 1 r w = Some (True, [], 2, ino [], w')"
    using d(1) by (subst getcwd_up.simps) simp
  then show ?thesis using True d(2) by (simp add: fsu_getcwd_def slashed_def)
next
  case False
  define p where "p = cwd (kern w)"
  obtain w1 where u: "getcwd_up R [] 1 r w = Some (True, p, 1 + length (concat (map (\<lambda>d. d @ ''/'') p)) + 1, ino [], w1)"
    using getcwd_up_correct [OF assms(1) refl assms(2,3), of "[]" 1] by (auto simp: p_def)
  have j: "getcwd_join p (1 + length (concat (map (\<lambda>d. d @ ''/'') p)) + 1) = Some (slashed p)"
    using cwd_kernel_names [OF assms(1,2)] by (intro getcwd_join_correct) (auto simp: p_def)
  obtain k' where c: "sys_chdir R (slashed p) (kern w1) = (Inr (), k')" "cwd k' = p"
    using cwd_kernel_calls(6) [OF assms(1), of p "kern w1"] assms(2) by (auto simp: p_def)
  show ?thesis
    using u j False call_Inr [of "sys_chdir R (slashed p)" w1, OF c(1)] c(2)
    by (simp add: fsu_getcwd_def flip: p_def)
qed

lemma cwd_dir_rump:
  "cwd_kernel dir_rump {[], [''a''], [''a'', ''b'']} (\<lambda>p. 2 + of_nat (length p)) dk_ents dk_cwd (\<lambda>fd. dk_left)"
  by (simp add: cwd_kernel_def dir_rump_def dk_ents_def slashed_def de_def entry_names_def)

lemma fsu_getcwd_correct_witness:
  "\<exists>w'. fsu_getcwd dir_rump 0 \<lparr>kern = \<lparr>dk_cwd = [''a'', ''b''], dk_left = []\<rparr>, errno = 0\<rparr> =
      Some (Some ''/a/b/'', 2, w') \<and> dk_cwd (kern w') = [''a'', ''b'']"
  using fsu_getcwd_correct [OF cwd_dir_rump, of "\<lparr>kern = \<lparr>dk_cwd = [''a'', ''b''], dk_left = []\<rparr>, errno = 0\<rparr>" 0]
  by (simp add: slashed_def)

end
