(* ===== verification/FTS.thy ===== *)
theory FTS
  imports FSU_Dir
begin

text \<open>
  The hierarchy walk of \<open>src/lib/fsu_fts.c\<close>, on which \<open>find\<close>, \<open>ls\<close>, \<open>rm\<close>, \<open>cp\<close>, \<open>du\<close> and
  others rest.

  The nodes (\<open>FSU_FTSENT\<close>) live in a store: a pointer is a number, the store maps it to a node,
  a freed node is absent from it, and following a pointer to an absent node is undefined
  behaviour, \<^const>\<open>None\<close>. The fields that a fresh node does not initialise are those of an arbitrary
  node \<open>env_junk\<close>. The path buffer is a list of characters with checked accesses; an access path is
  a pointer to the start of that buffer or to the name of a node. \<open>env_oom n\<close> says that the
  \<open>n\<close>th allocation fails. Comparison function and \<open>qsort\<close> are parameters. The stream, the
  store, the kernel and the static variable of \<open>fsu_getcwd\<close> form one state. The whiteout code is not
  compiled without \<open>DTF_HIDEW\<close>, and the two compatibility switches are off.
\<close>

section \<open>Nodes, streams\<close>

abbreviation "FTS_COMFOLLOW \<equiv> (0x001 :: 32 word)"
abbreviation "FTS_LOGICAL \<equiv> (0x002 :: 32 word)"
abbreviation "FTS_NOCHDIR \<equiv> (0x004 :: 32 word)"
abbreviation "FTS_NOSTAT \<equiv> (0x008 :: 32 word)"
abbreviation "FTS_PHYSICAL \<equiv> (0x010 :: 32 word)"
abbreviation "FTS_SEEDOT \<equiv> (0x020 :: 32 word)"
abbreviation "FTS_XDEV \<equiv> (0x040 :: 32 word)"
abbreviation "FTS_OPTIONMASK \<equiv> (0x0ff :: 32 word)"
abbreviation "FTS_NAMEONLY \<equiv> (0x100 :: 32 word)"
abbreviation "FTS_STOP \<equiv> (0x200 :: 32 word)"

abbreviation "FTS_ROOTPARENTLEVEL \<equiv> (-1 :: int)"
abbreviation "FTS_ROOTLEVEL \<equiv> (0 :: int)"

abbreviation "ENOENT \<equiv> (2 :: errno)"
abbreviation "ENAMETOOLONG \<equiv> (36 :: errno)"
abbreviation "MAXPATHLEN \<equiv> (4096 :: nat)"
abbreviation "SHRT_MAX \<equiv> (32767 :: int)"

datatype fts_info =
  FTS_D | FTS_DC | FTS_DEFAULT | FTS_DNR | FTS_DOT | FTS_DP | FTS_ERR | FTS_F | FTS_INIT | FTS_NS
  | FTS_NSOK | FTS_SL | FTS_SLNONE

datatype fts_instr = FTS_AGAIN | FTS_FOLLOW | FTS_NOINSTR | FTS_SKIP

type_synonym ptr = nat

datatype accpath = In_Path | Name_Of ptr

record fts_node =
  n_cycle :: "ptr option"
  n_parent :: ptr
  n_link :: "ptr option"
  n_number :: int
  n_accpath :: accpath
  n_errno :: errno
  n_sympath :: "string option"
  n_pathlen :: nat
  n_name :: string
  n_ino :: "64 word"
  n_dev :: "64 word"
  n_nlink :: "32 word"
  n_level :: int
  n_info :: fts_info
  n_dontchdir :: bool
  n_symfollow :: bool
  n_instr :: fts_instr
  n_statp :: "stat option"

type_synonym store = "ptr \<Rightarrow> fts_node option"

record 'k fts =
  f_cur :: "ptr option"
  f_child :: "ptr option"
  f_dev :: "64 word"
  f_path :: cbuffer
  f_rpath :: "string option"
  f_pathlen :: nat
  f_nitems :: nat
  f_options :: "32 word"
  f_store :: store
  f_next :: nat
  f_world :: "'k world"
  f_root_ino :: "64 word"

type_synonym compar = "fts_node \<Rightarrow> fts_node \<Rightarrow> int"

record 'k fts_env =
  env_rump :: "'k rump"
  env_junk :: fts_node
  env_oom :: "nat \<Rightarrow> bool"
  env_compar :: "compar option"
  env_qsort :: "compar \<Rightarrow> (ptr \<times> fts_node) list \<Rightarrow> (ptr \<times> fts_node) list"

definition ISSET :: "32 word \<Rightarrow> 'k fts \<Rightarrow> bool" where
  "ISSET opt sp \<longleftrightarrow> f_options sp AND opt \<noteq> 0"

definition SET :: "32 word \<Rightarrow> 'k fts \<Rightarrow> 'k fts" where
  "SET opt sp = sp\<lparr>f_options := f_options sp OR opt\<rparr>"

definition CLR :: "32 word \<Rightarrow> 'k fts \<Rightarrow> 'k fts" where
  "CLR opt sp = sp\<lparr>f_options := f_options sp AND NOT opt\<rparr>"

definition ISDOT :: "string \<Rightarrow> bool" where
  "ISDOT a \<longleftrightarrow> a = ''.'' \<or> a = ''..''"

definition S_ISDIR :: "stat \<Rightarrow> bool" where
  "S_ISDIR st \<longleftrightarrow> st_mode st AND S_IFMT = S_IFDIR"

definition S_ISLNK :: "stat \<Rightarrow> bool" where
  "S_ISLNK st \<longleftrightarrow> st_mode st AND S_IFMT = S_IFLNK"

definition S_ISREG :: "stat \<Rightarrow> bool" where
  "S_ISREG st \<longleftrightarrow> st_mode st AND S_IFMT = S_IFREG"

text \<open>Assigning to a field of a node, and a system call of the stream.\<close>

definition upd :: "ptr \<Rightarrow> (fts_node \<Rightarrow> fts_node) \<Rightarrow> 'k fts \<Rightarrow> 'k fts option" where
  "upd p f sp = map_option (\<lambda>e. sp\<lparr>f_store := (f_store sp)(p \<mapsto> f e)\<rparr>) (f_store sp p)"

definition sys :: "('k \<Rightarrow> (errno + 'a) \<times> 'k) \<Rightarrow> 'k fts \<Rightarrow> 'a option \<times> 'k fts" where
  "sys f sp = (case call f (f_world sp) of (r, w) \<Rightarrow> (r, sp\<lparr>f_world := w\<rparr>))"

definition f_errno :: "'k fts \<Rightarrow> errno" where
  "f_errno sp = errno (f_world sp)"

definition set_errno :: "errno \<Rightarrow> 'k fts \<Rightarrow> 'k fts" where
  "set_errno e sp = sp\<lparr>f_world := (f_world sp)\<lparr>errno := e\<rparr>\<rparr>"

text \<open>\<open>CHDIR\<close> is true when the directory has to be changed and that fails.\<close>

definition CHDIR :: "'k fts_env \<Rightarrow> 'k fts \<Rightarrow> string \<Rightarrow> bool \<times> 'k fts" where
  "CHDIR E sp path =
     (if ISSET FTS_NOCHDIR sp then (False, sp)
      else (case sys (sys_chdir (env_rump E) path) sp of (r, sp) \<Rightarrow> (r = None, sp)))"

text \<open>The same to a saved path, which is NULL if it could not be found out.\<close>

definition CHDIR_saved :: "'k fts_env \<Rightarrow> 'k fts \<Rightarrow> string option \<Rightarrow> bool \<times> 'k fts" where
  "CHDIR_saved E sp path =
     (case path of
        Some d \<Rightarrow> CHDIR E sp d
      | None \<Rightarrow> if ISSET FTS_NOCHDIR sp then (False, sp) else (True, set_errno EFAULT sp))"

definition acc_string :: "'k fts \<Rightarrow> accpath \<Rightarrow> string option" where
  "acc_string sp a =
     (case a of In_Path \<Rightarrow> Some (cstr_at (f_path sp) 0) | Name_Of q \<Rightarrow> map_option n_name (f_store sp q))"

section \<open>Allocation\<close>

definition fts_alloc :: "'k fts_env \<Rightarrow> string \<Rightarrow> 'k fts \<Rightarrow> ptr option \<times> 'k fts" where
  "fts_alloc E name sp =
     (let p = f_next sp; sp = sp\<lparr>f_next := Suc p\<rparr> in
      if env_oom E p then (None, set_errno ENOMEM sp)
      else
        (Some p, sp\<lparr>f_store := (f_store sp)(p \<mapsto> (env_junk E)
           \<lparr>n_statp := (if ISSET FTS_NOSTAT sp then None else Some (file_stat 0)),
            n_name := name, n_errno := 0, n_dontchdir := False, n_symfollow := False,
            n_instr := FTS_NOINSTR, n_number := 0\<rparr>)\<rparr>))"

definition fts_free :: "ptr \<Rightarrow> 'k fts \<Rightarrow> 'k fts option" where
  "fts_free p sp =
     (if f_store sp p = None then None else Some (sp\<lparr>f_store := (f_store sp)(p := None)\<rparr>))"

text \<open>Freeing a linked list; a list with a cycle would be freed twice.\<close>

partial_function (option) fts_lfree :: "ptr option \<Rightarrow> 'k fts \<Rightarrow> 'k fts option" where
  "fts_lfree head sp =
     (case head of
        None \<Rightarrow> Some sp
      | Some p \<Rightarrow>
          do { e \<leftarrow> f_store sp p;
               sp \<leftarrow> fts_free p sp;
               fts_lfree (n_link e) sp })"

definition fts_pow2 :: "size_t \<Rightarrow> size_t" where
  "fts_pow2 x =
     (let x = x - 1;
          x = x OR drop_bit 1 x;
          x = x OR drop_bit 2 x;
          x = x OR drop_bit 4 x;
          x = x OR drop_bit 8 x;
          x = x OR drop_bit 16 x;
          x = x OR drop_bit 32 x in
      x + 1)"

text \<open>The result says whether it failed.\<close>

definition fts_palloc :: "'k fts_env \<Rightarrow> nat \<Rightarrow> 'k fts \<Rightarrow> bool \<times> 'k fts" where
  "fts_palloc E sz sp =
     (let n = unat (fts_pow2 (of_nat sz)); p = f_next sp; sp = sp\<lparr>f_next := Suc p\<rparr> in
      if env_oom E p then (True, set_errno ENOMEM sp)
      else (False, sp\<lparr>f_path := take n (f_path sp @ replicate n NUL), f_pathlen := n mod 2 ^ 32\<rparr>))"

definition fts_maxarglen :: "string list \<Rightarrow> nat" where
  "fts_maxarglen argv = fold (\<lambda>a m. if length a > m then length a else m) argv 0 + 1"

section \<open>Status of a node\<close>

text \<open>The search for a directory among its ancestors.\<close>

partial_function (option) find_cycle :: "store \<Rightarrow> 64 word \<Rightarrow> 64 word \<Rightarrow> ptr \<Rightarrow> ptr option option" where
  "find_cycle h ino dev t =
     do { e \<leftarrow> h t;
          if n_level e < FTS_ROOTLEVEL then Some None
          else if ino = n_ino e \<and> dev = n_dev e then Some (Some t)
          else find_cycle h ino dev (n_parent e) }"

definition zero_stat :: stat where
  "zero_stat = \<lparr>st_dev = 0, st_ino = 0, st_mode = 0, st_nlink = 0, st_uid = 0, st_gid = 0, st_size = 0,
     st_atime = 0, st_mtime = 0, st_ctime = 0, st_flags = 0\<rparr>"

definition set_statp :: "ptr \<Rightarrow> stat \<Rightarrow> 'k fts \<Rightarrow> 'k fts option" where
  "set_statp p st sp = (if ISSET FTS_NOSTAT sp then Some sp else upd p (n_statp_update (\<lambda>_. Some st)) sp)"

text \<open>The class of a node whose status could be read.\<close>

definition stat_class :: "ptr \<Rightarrow> stat \<Rightarrow> 'k fts \<Rightarrow> (fts_info \<times> 'k fts) option" where
  "stat_class p sb sp =
     (if S_ISDIR sb
      then do { sp \<leftarrow> upd p (\<lambda>e. e\<lparr>n_dev := st_dev sb, n_ino := st_ino sb, n_nlink := st_nlink sb\<rparr>) sp;
                e \<leftarrow> f_store sp p;
                if ISDOT (n_name e) then Some (FTS_DOT, sp)
                else
                  do { c \<leftarrow> find_cycle (f_store sp) (st_ino sb) (st_dev sb) (n_parent e);
                       case c of
                         None \<Rightarrow> Some (FTS_D, sp)
                       | Some t \<Rightarrow> do { sp \<leftarrow> upd p (n_cycle_update (\<lambda>_. Some t)) sp; Some (FTS_DC, sp) } } }
      else if S_ISLNK sb then Some (FTS_SL, sp)
      else if S_ISREG sb then Some (FTS_F, sp)
      else Some (FTS_DEFAULT, sp))"

definition fts_stat :: "'k fts_env \<Rightarrow> ptr \<Rightarrow> bool \<Rightarrow> 'k fts \<Rightarrow> (fts_info \<times> 'k fts) option" where
  "fts_stat E p follow sp =
     do { e \<leftarrow> f_store sp p;
          path \<leftarrow> acc_string sp (n_accpath e);
          let failed = (\<lambda>err sp.
            do { sp \<leftarrow> upd p (n_errno_update (\<lambda>_. err)) sp;
                 sp \<leftarrow> set_statp p zero_stat sp;
                 Some (FTS_NS, sp) });
          if ISSET FTS_LOGICAL sp \<or> follow
          then
            (case sys (sys_stat (env_rump E) path) sp of
               (Some sb, sp) \<Rightarrow> do { sp \<leftarrow> set_statp p sb sp; stat_class p sb sp }
             | (None, sp) \<Rightarrow>
                 (let saved_errno = f_errno sp in
                  case sys (sys_lstat (env_rump E) path) sp of
                    (Some sb, sp) \<Rightarrow> do { sp \<leftarrow> set_statp p sb sp; Some (FTS_SLNONE, set_errno 0 sp) }
                  | (None, sp) \<Rightarrow> failed saved_errno sp))
          else
            (case sys (sys_lstat (env_rump E) path) sp of
               (Some sb, sp) \<Rightarrow> do { sp \<leftarrow> set_statp p sb sp; stat_class p sb sp }
             | (None, sp) \<Rightarrow> failed (f_errno sp) sp) }"

section \<open>Sorting and adjusting\<close>

text \<open>The pointers of a linked list.\<close>

partial_function (option) list_of :: "store \<Rightarrow> ptr option \<Rightarrow> (ptr \<times> fts_node) list option" where
  "list_of h head =
     (case head of
        None \<Rightarrow> Some []
      | Some p \<Rightarrow> do { e \<leftarrow> h p; rest \<leftarrow> list_of h (n_link e); Some ((p, e) # rest) })"

fun relink :: "ptr list \<Rightarrow> 'k fts \<Rightarrow> 'k fts option" where
  "relink [] sp = Some sp"
| "relink [p] sp = upd p (n_link_update (\<lambda>_. None)) sp"
| "relink (p # q # ps) sp = do { sp \<leftarrow> upd p (n_link_update (\<lambda>_. Some q)) sp; relink (q # ps) sp }"

definition fts_sort :: "'k fts_env \<Rightarrow> compar \<Rightarrow> ptr option \<Rightarrow> nat \<Rightarrow> 'k fts \<Rightarrow> (ptr option \<times> 'k fts) option" where
  "fts_sort E cmp head nitems sp =
     (let p = f_next sp; grow = f_nitems sp < nitems; sp = (if grow then sp\<lparr>f_next := Suc p\<rparr> else sp) in
      if grow \<and> env_oom E p then Some (head, set_errno ENOMEM sp)
      else
        do { let sp = (if grow then sp\<lparr>f_nitems := nitems + 40\<rparr> else sp);
             xs \<leftarrow> list_of (f_store sp) head;
             let ps = map fst (env_qsort E cmp xs);
             sp \<leftarrow> relink ps sp;
             Some (Some (hd ps), sp) })"

section \<open>Opening\<close>

text \<open>The loop over the arguments: the list of roots built so far, its last node and its length.\<close>

fun open_roots ::
  "'k fts_env \<Rightarrow> ptr \<Rightarrow> string list \<Rightarrow> ptr option \<Rightarrow> ptr option \<Rightarrow> nat \<Rightarrow> 'k fts \<Rightarrow>
     (bool \<times> ptr option \<times> nat \<times> 'k fts) option"
where
  "open_roots E parent [] root tmp nitems sp = Some (True, root, nitems, sp)"
| "open_roots E parent (arg # argv) root tmp nitems sp =
     (if length arg = 0 then Some (False, root, nitems, set_errno ENOENT sp)
      else
        (case fts_alloc E arg sp of
           (None, sp) \<Rightarrow> Some (False, root, nitems, sp)
         | (Some p, sp) \<Rightarrow>
             do { sp \<leftarrow> upd p (\<lambda>e. e\<lparr>n_level := FTS_ROOTLEVEL, n_parent := parent, n_accpath := Name_Of p\<rparr>) sp;
                  (info, sp) \<leftarrow> fts_stat E p (ISSET FTS_COMFOLLOW sp) sp;
                  sp \<leftarrow> upd p (n_info_update (\<lambda>_. if info = FTS_DOT then FTS_D else info)) sp;
                  if env_compar E \<noteq> None
                  then do { sp \<leftarrow> upd p (n_link_update (\<lambda>_. root)) sp;
                            open_roots E parent argv (Some p) tmp (Suc nitems) sp }
                  else
                    do { sp \<leftarrow> upd p (n_link_update (\<lambda>_. None)) sp;
                         case root of
                           None \<Rightarrow> open_roots E parent argv (Some p) (Some p) (Suc nitems) sp
                         | Some _ \<Rightarrow>
                             do { t \<leftarrow> tmp;
                                  sp \<leftarrow> upd t (n_link_update (\<lambda>_. Some p)) sp;
                                  open_roots E parent argv root (Some p) (Suc nitems) sp } } }))"

definition stream0 :: "32 word \<Rightarrow> 64 word \<Rightarrow> 'k world \<Rightarrow> 'k fts" where
  "stream0 options root_ino w =
     \<lparr>f_cur = None, f_child = None, f_dev = 0, f_path = [], f_rpath = None, f_pathlen = 0, f_nitems = 0,
      f_options = options, f_store = (\<lambda>_. None), f_next = 0, f_world = w, f_root_ino = root_ino\<rparr>"

definition fts_getcwd :: "'k fts_env \<Rightarrow> 'k fts \<Rightarrow> (string option \<times> 'k fts) option" where
  "fts_getcwd E sp =
     do { (path, root_ino, w) \<leftarrow> fsu_getcwd (env_rump E) (f_root_ino sp) (f_world sp);
          Some (path, sp\<lparr>f_root_ino := root_ino, f_world := w\<rparr>) }"

text \<open>\<open>Inl\<close> carries the world after a failure, \<open>Inr\<close> the stream.\<close>

definition fts_open ::
  "'k fts_env \<Rightarrow> string list \<Rightarrow> 32 word \<Rightarrow> 64 word \<Rightarrow> 'k world \<Rightarrow> ('k world + 'k fts) option"
where
  "fts_open E argv options root_ino w =
     (if options AND NOT FTS_OPTIONMASK \<noteq> 0 then Some (Inl (w\<lparr>errno := EINVAL\<rparr>))
      else if env_oom E 0 then Some (Inl (w\<lparr>errno := ENOMEM\<rparr>))
      else
        (let sp = (stream0 options root_ino w)\<lparr>f_next := 1\<rparr>;
             sp = (if ISSET FTS_LOGICAL sp then SET FTS_NOCHDIR sp else sp) in
         case fts_palloc E (max (fts_maxarglen argv) MAXPATHLEN) sp of
           (True, sp) \<Rightarrow> Some (Inl (f_world sp))
         | (False, sp) \<Rightarrow>
           (case fts_alloc E '''' sp of
              (None, sp) \<Rightarrow> Some (Inl (f_world sp))
            | (Some parent, sp) \<Rightarrow>
              do { sp \<leftarrow> upd parent (n_level_update (\<lambda>_. FTS_ROOTPARENTLEVEL)) sp;
                   (ok, root, nitems, sp) \<leftarrow> open_roots E parent argv None None 0 sp;
                   let failed = (\<lambda>root sp. do { sp \<leftarrow> fts_lfree root sp; sp \<leftarrow> fts_free parent sp; Some (Inl (f_world sp)) });
                   if \<not> ok then failed root sp
                   else
                     do { (root, sp) \<leftarrow> (case env_compar E of
                            Some cmp \<Rightarrow> if nitems > 1 then fts_sort E cmp root nitems sp else Some (root, sp)
                          | None \<Rightarrow> Some (root, sp));
                          case fts_alloc E '''' sp of
                            (None, sp) \<Rightarrow> failed root sp
                          | (Some cur, sp) \<Rightarrow>
                              do { sp \<leftarrow> upd cur (\<lambda>e. e\<lparr>n_link := root, n_info := FTS_INIT\<rparr>) sp;
                                   (rpath, sp) \<leftarrow> fts_getcwd E (sp\<lparr>f_cur := Some cur\<rparr>);
                                   sp \<leftarrow> (if nitems = 0 then fts_free parent sp else Some sp);
                                   Some (Inr (sp\<lparr>f_rpath := rpath\<rparr>)) } } })))"

definition fts_load :: "ptr \<Rightarrow> 'k fts \<Rightarrow> 'k fts option" where
  "fts_load p sp =
     do { e \<leftarrow> f_store sp p;
          path \<leftarrow> put_str (f_path sp) 0 (n_name e);
          let name = (case strrchr CHR ''/'' (n_name e) of
                        Some i \<Rightarrow> if i \<noteq> 0 \<or> i + 1 < length (n_name e) then drop (i + 1) (n_name e) else n_name e
                      | None \<Rightarrow> n_name e);
          upd p (\<lambda>e. e\<lparr>n_pathlen := length (n_name e), n_name := name, n_accpath := In_Path\<rparr>)
            (sp\<lparr>f_path := path, f_dev := n_dev e\<rparr>) }"

section \<open>Building the list of a directory\<close>

datatype build_type = BCHILD | BNAMES | BREAD

text \<open>The length of the path without a slash at its end.\<close>

definition NAPPEND :: "cbuffer \<Rightarrow> fts_node \<Rightarrow> nat option" where
  "NAPPEND path e =
     do { c \<leftarrow> (if n_pathlen e = 0 then None else rd path (n_pathlen e - 1));
          Some (if c = CHR ''/'' then n_pathlen e - 1 else n_pathlen e) }"

text \<open>What stays fixed during the loop over the entries, and what changes.\<close>

record build_fix =
  b_cur :: ptr
  b_len :: nat
  b_level :: int
  b_cderrno :: errno
  b_nostat :: bool

record build_var =
  v_head :: "ptr option"
  v_tail :: "ptr option"
  v_nitems :: nat
  v_maxlen :: nat
  v_nlinks :: int
  v_cp :: nat
  v_doadjust :: bool

text \<open>The status of a new entry: of the directory that could not be entered, none, or its own.\<close>

definition build_status ::
  "'k fts_env \<Rightarrow> build_fix \<Rightarrow> dirent \<Rightarrow> ptr \<Rightarrow> build_var \<Rightarrow> 'k fts \<Rightarrow> (build_var \<times> 'k fts) option"
where
  "build_status E b dp p v sp =
     do { cur \<leftarrow> f_store sp (b_cur b);
          if b_cderrno b \<noteq> 0
          then do { sp \<leftarrow> upd p (\<lambda>e. (if v_nlinks v \<noteq> 0 then e\<lparr>n_info := FTS_NS, n_errno := b_cderrno b\<rparr>
                                       else e\<lparr>n_info := FTS_NSOK\<rparr>)\<lparr>n_accpath := n_accpath cur\<rparr>) sp;
                    Some (v, sp) }
          else if v_nlinks v = 0 \<or> b_nostat b \<and> d_type dp \<noteq> 4 \<and> d_type dp \<noteq> 0
          then do { sp \<leftarrow> upd p (\<lambda>e. e\<lparr>n_accpath := (if ISSET FTS_NOCHDIR sp then In_Path else Name_Of p),
                                         n_info := FTS_NSOK\<rparr>) sp;
                    Some (v, sp) }
          else
            do { sp \<leftarrow> (if ISSET FTS_NOCHDIR sp
                        then do { e \<leftarrow> f_store sp p;
                                  path \<leftarrow> put_str (f_path sp) (v_cp v) (n_name e);
                                  upd p (n_accpath_update (\<lambda>_. In_Path)) (sp\<lparr>f_path := path\<rparr>) }
                        else upd p (n_accpath_update (\<lambda>_. Name_Of p)) sp);
                 (info, sp) \<leftarrow> fts_stat E p False sp;
                 sp \<leftarrow> upd p (n_info_update (\<lambda>_. info)) sp;
                 Some (if v_nlinks v > 0 \<and> (info = FTS_D \<or> info = FTS_DC \<or> info = FTS_DOT)
                       then v\<lparr>v_nlinks := v_nlinks v - 1\<rparr> else v, sp) } }"

text \<open>Attaching an entry to the end of the list.\<close>

definition build_link :: "ptr \<Rightarrow> build_var \<Rightarrow> 'k fts \<Rightarrow> (build_var \<times> 'k fts) option" where
  "build_link p v sp =
     do { sp \<leftarrow> upd p (n_link_update (\<lambda>_. None)) sp;
          case v_head v of
            None \<Rightarrow> Some (v\<lparr>v_head := Some p, v_tail := Some p, v_nitems := v_nitems v + 1\<rparr>, sp)
          | Some _ \<Rightarrow>
              do { t \<leftarrow> v_tail v;
                   sp \<leftarrow> upd t (n_link_update (\<lambda>_. Some p)) sp;
                   Some (v\<lparr>v_tail := Some p, v_nitems := v_nitems v + 1\<rparr>, sp) } }"

text \<open>No memory: everything is freed and the walk stops.\<close>

definition build_failed ::
  "'k fts_env \<Rightarrow> build_fix \<Rightarrow> FSU_DIR \<Rightarrow> ptr option \<Rightarrow> build_var \<Rightarrow> 'k fts \<Rightarrow> 'k fts option"
where
  "build_failed E b dirp p v sp =
     do { let saved_errno = f_errno sp;
          sp \<leftarrow> (case p of None \<Rightarrow> Some sp | Some p \<Rightarrow> fts_free p sp);
          sp \<leftarrow> fts_lfree (v_head v) sp;
          let sp = set_errno saved_errno (sp\<lparr>f_world := fsu_closedir (env_rump E) dirp (f_world sp)\<rparr>);
          sp \<leftarrow> upd (b_cur b) (n_info_update (\<lambda>_. FTS_ERR)) sp;
          Some (SET FTS_STOP sp) }"

text \<open>
  The loop over the directory; \<^const>\<open>False\<close> says that it ended without memory. A path buffer that
  was moved is not told apart from one that grew in place, \<open>doadjust\<close> is set for both:
  the nodes point to the buffer, wherever it is, so that \<open>fts_padjust\<close> has nothing to do.
\<close>

partial_function (option) build_loop ::
  "'k fts_env \<Rightarrow> build_fix \<Rightarrow> FSU_DIR \<Rightarrow> build_var \<Rightarrow> 'k fts \<Rightarrow> (bool \<times> build_var \<times> FSU_DIR \<times> 'k fts) option"
where
  "build_loop E b dirp v sp =
     (case fsu_readdir (env_rump E) dirp (f_world sp) of
        None \<Rightarrow> None
      | Some (None, dirp, w) \<Rightarrow> Some (True, v, dirp, sp\<lparr>f_world := w\<rparr>)
      | Some (Some dp, dirp, w) \<Rightarrow>
          (let sp = sp\<lparr>f_world := w\<rparr> in
           if \<not> ISSET FTS_SEEDOT sp \<and> ISDOT (d_name dp) then build_loop E b dirp v sp
           else
             (case fts_alloc E (d_name dp) sp of
                (None, sp) \<Rightarrow> map_option (\<lambda>sp. (False, v, dirp, sp)) (build_failed E b dirp None v sp)
              | (Some p, sp) \<Rightarrow>
                  (let dnamlen = length (d_name dp);
                       (err, v, sp) =
                         (if dnamlen \<ge> v_maxlen v
                          then (case fts_palloc E (dnamlen + b_len b + 1) sp of
                                  (True, sp) \<Rightarrow> (True, v, sp)
                                | (False, sp) \<Rightarrow>
                                    (False, v\<lparr>v_doadjust := True,
                                       v_cp := (if ISSET FTS_NOCHDIR sp then b_len b else v_cp v),
                                       v_maxlen := f_pathlen sp - b_len b\<rparr>, sp))
                          else (False, v, sp)) in
                   if err then map_option (\<lambda>sp. (False, v, dirp, sp)) (build_failed E b dirp (Some p) v sp)
                   else
                     do { sp \<leftarrow> upd p (\<lambda>e. e\<lparr>n_level := b_level b, n_pathlen := b_len b + dnamlen,
                                               n_parent := b_cur b\<rparr>) sp;
                          (v, sp) \<leftarrow> build_status E b dp p v sp;
                          (v, sp) \<leftarrow> build_link p v sp;
                          build_loop E b dirp v sp }))))"

text \<open>The number of links that may be directories, and whether calls of \<open>stat\<close> are saved.\<close>

definition build_nlinks :: "build_type \<Rightarrow> fts_node \<Rightarrow> 'k fts \<Rightarrow> int \<times> bool" where
  "build_nlinks type cur sp =
     (if type = BNAMES then (0, True)
      else if ISSET FTS_NOSTAT sp \<and> ISSET FTS_PHYSICAL sp
      then (int (unat (n_nlink cur)) - (if ISSET FTS_SEEDOT sp then 0 else 2), True)
      else (-1, False))"

text \<open>Changing to the directory: the error number, if that failed, and whether it was done.\<close>

definition build_chdir ::
  "'k fts_env \<Rightarrow> build_type \<Rightarrow> ptr \<Rightarrow> int \<Rightarrow> 'k fts \<Rightarrow> ((errno \<times> bool) \<times> 'k fts) option"
where
  "build_chdir E type cur nlinks sp =
     (if nlinks \<noteq> 0 \<or> type = BREAD
      then
        do { e \<leftarrow> f_store sp cur;
             path \<leftarrow> acc_string sp (n_accpath e);
             case CHDIR E sp path of
               (True, sp) \<Rightarrow>
                 do { sp \<leftarrow> upd cur (\<lambda>e. (if nlinks \<noteq> 0 \<and> type = BREAD then e\<lparr>n_errno := f_errno sp\<rparr> else e)
                                        \<lparr>n_dontchdir := True\<rparr>) sp;
                      Some ((f_errno sp, False), sp) }
             | (False, sp) \<Rightarrow> Some ((0, True), sp) }
      else Some ((0, False), sp))"

text \<open>What follows the loop: the path and the directory are restored, the list is sorted.\<close>

definition build_end ::
  "'k fts_env \<Rightarrow> build_type \<Rightarrow> build_fix \<Rightarrow> bool \<Rightarrow> build_var \<Rightarrow> 'k fts \<Rightarrow> (ptr option \<times> 'k fts) option"
where
  "build_end E type b descend v sp =
     do { sp \<leftarrow> (if ISSET FTS_NOCHDIR sp
                 then do { path \<leftarrow> wr (f_path sp)
                             (if b_len b = f_pathlen sp \<or> v_nitems v = 0 then v_cp v - 1 else v_cp v) NUL;
                           Some (sp\<lparr>f_path := path\<rparr>) }
                 else Some sp);
          cur \<leftarrow> f_store sp (b_cur b);
          let (lost, sp) =
            (if descend \<and> (type = BCHILD \<or> v_nitems v = 0)
             then CHDIR_saved E sp (if n_level cur = FTS_ROOTLEVEL then f_rpath sp else Some ''..'')
             else (False, sp));
          if lost
          then do { sp \<leftarrow> upd (b_cur b) (n_info_update (\<lambda>_. FTS_ERR)) sp; Some (None, SET FTS_STOP sp) }
          else if v_nitems v = 0
          then do { sp \<leftarrow> (if type = BREAD then upd (b_cur b) (n_info_update (\<lambda>_. FTS_DP)) sp else Some sp);
                    Some (None, sp) }
          else
            (case env_compar E of
               Some cmp \<Rightarrow> if v_nitems v > 1 then fts_sort E cmp (v_head v) (v_nitems v) sp else Some (v_head v, sp)
             | None \<Rightarrow> Some (v_head v, sp)) }"

definition fts_build :: "'k fts_env \<Rightarrow> build_type \<Rightarrow> 'k fts \<Rightarrow> (ptr option \<times> 'k fts) option" where
  "fts_build E type sp =
     do { cur \<leftarrow> f_cur sp;
          e \<leftarrow> f_store sp cur;
          path \<leftarrow> acc_string sp (n_accpath e);
          case fsu_opendir (env_rump E) path (f_world sp) of
            (None, w) \<Rightarrow>
              do { let sp = sp\<lparr>f_world := w\<rparr>;
                   sp \<leftarrow> (if type = BREAD
                          then upd cur (\<lambda>e. e\<lparr>n_info := FTS_DNR, n_errno := f_errno sp\<rparr>) sp else Some sp);
                   Some (None, sp) }
          | (Some dirp, w) \<Rightarrow>
              do { let sp = sp\<lparr>f_world := w\<rparr>;
                   let (nlinks, nostat) = build_nlinks type e sp;
                   ((cderrno, descend), sp) \<leftarrow> build_chdir E type cur nlinks sp;
                   e \<leftarrow> f_store sp cur;
                   len \<leftarrow> NAPPEND (f_path sp) e;
                   sp \<leftarrow> (if ISSET FTS_NOCHDIR sp
                          then do { path \<leftarrow> wr (f_path sp) len CHR ''/''; Some (sp\<lparr>f_path := path\<rparr>) }
                          else Some sp);
                   if n_level e = SHRT_MAX
                   then do { let sp = sp\<lparr>f_world := fsu_closedir (env_rump E) dirp (f_world sp)\<rparr>;
                             sp \<leftarrow> upd cur (n_info_update (\<lambda>_. FTS_ERR)) sp;
                             Some (None, set_errno ENAMETOOLONG (SET FTS_STOP sp)) }
                   else
                     do { let b = \<lparr>b_cur = cur, b_len = len + 1, b_level = n_level e + 1, b_cderrno = cderrno,
                                   b_nostat = nostat\<rparr>;
                          (ok, v, dirp, sp) \<leftarrow> build_loop E b dirp
                             \<lparr>v_head = None, v_tail = None, v_nitems = 0, v_maxlen = f_pathlen sp - (len + 1),
                              v_nlinks = nlinks, v_cp = len + 1, v_doadjust = False\<rparr> sp;
                          if \<not> ok then Some (None, sp)
                          else build_end E type b descend v
                            (sp\<lparr>f_world := fsu_closedir (env_rump E) dirp (f_world sp)\<rparr>) } } }"

section \<open>Reading\<close>

type_synonym 'k read_result = "(ptr option \<times> 'k fts) option"

text \<open>Label \<open>name\<close>: the name of the node is appended to the path of its parent.\<close>

definition goto_name :: "ptr \<Rightarrow> 'k fts \<Rightarrow> 'k read_result" where
  "goto_name p sp =
     do { e \<leftarrow> f_store sp p;
          parent \<leftarrow> f_store sp (n_parent e);
          t \<leftarrow> NAPPEND (f_path sp) parent;
          path \<leftarrow> wr (f_path sp) t CHR ''/'';
          path \<leftarrow> put_str path (t + 1) (n_name e);
          Some (Some p, sp\<lparr>f_path := path, f_cur := Some p\<rparr>) }"

text \<open>Following a symbolic link: if it leads to a directory, the way back is remembered.\<close>

definition follow_link :: "'k fts_env \<Rightarrow> ptr \<Rightarrow> 'k fts \<Rightarrow> 'k fts option" where
  "follow_link E p sp =
     do { (info, sp) \<leftarrow> fts_stat E p True sp;
          sp \<leftarrow> upd p (n_info_update (\<lambda>_. info)) sp;
          if info = FTS_D \<and> \<not> ISSET FTS_NOCHDIR sp
          then
            do { (path, sp) \<leftarrow> fts_getcwd E sp;
                 upd p (\<lambda>e. case path of
                     None \<Rightarrow> e\<lparr>n_sympath := None, n_errno := f_errno sp, n_info := FTS_ERR\<rparr>
                   | Some d \<Rightarrow> e\<lparr>n_sympath := Some d, n_symfollow := True\<rparr>) sp }
          else Some sp }"

text \<open>Back to the parent, whose children have all been visited.\<close>

definition fts_up :: "'k fts_env \<Rightarrow> ptr \<Rightarrow> 'k fts \<Rightarrow> 'k read_result" where
  "fts_up E tmp sp =
     do { t \<leftarrow> f_store sp tmp;
          let p = n_parent t;
          sp \<leftarrow> fts_free tmp sp;
          e \<leftarrow> f_store sp p;
          if n_level e = FTS_ROOTPARENTLEVEL
          then do { sp \<leftarrow> fts_free p sp; Some (None, set_errno 0 (sp\<lparr>f_cur := None\<rparr>)) }
          else
            do { path \<leftarrow> wr (f_path sp) (n_pathlen e) NUL;
                 let sp = sp\<lparr>f_path := path\<rparr>;
                 let (lost, sp) =
                   (if n_level e = FTS_ROOTLEVEL then CHDIR_saved E sp (f_rpath sp)
                    else if n_symfollow e then CHDIR_saved E sp (n_sympath e)
                    else if n_dontchdir e then (False, sp)
                    else CHDIR E sp ''..'');
                 if lost then Some (None, SET FTS_STOP sp)
                 else
                   do { sp \<leftarrow> upd p (n_info_update (\<lambda>_. if n_errno e \<noteq> 0 then FTS_ERR else FTS_DP)) sp;
                        Some (Some p, sp\<lparr>f_cur := Some p\<rparr>) } } }"

text \<open>Label \<open>next\<close>: the next node on the level, passing over the skipped ones.\<close>

partial_function (option) fts_next :: "'k fts_env \<Rightarrow> ptr \<Rightarrow> 'k fts \<Rightarrow> 'k read_result" where
  "fts_next E tmp sp =
     (case f_store sp tmp of
        None \<Rightarrow> None
      | Some t \<Rightarrow>
        (case n_link t of
           None \<Rightarrow> fts_up E tmp sp
         | Some p \<Rightarrow>
           (case fts_free tmp sp of
              None \<Rightarrow> None
            | Some sp \<Rightarrow>
              (case f_store sp p of
                 None \<Rightarrow> None
               | Some e \<Rightarrow>
                   if n_level e = FTS_ROOTLEVEL
                   then (case CHDIR_saved E sp (f_rpath sp) of
                           (True, sp) \<Rightarrow> Some (None, SET FTS_STOP sp)
                         | (False, sp) \<Rightarrow> map_option (\<lambda>sp. (Some p, sp\<lparr>f_cur := Some p\<rparr>)) (fts_load p sp))
                   else if n_instr e = FTS_SKIP then fts_next E p sp
                   else if n_instr e = FTS_FOLLOW
                   then do { sp \<leftarrow> follow_link E p sp;
                             sp \<leftarrow> upd p (n_instr_update (\<lambda>_. FTS_NOINSTR)) sp;
                             goto_name p sp }
                   else goto_name p sp))))"

text \<open>A directory after its first visit: skipped, or its children are read and entered.\<close>

definition drop_child :: "'k fts \<Rightarrow> 'k fts option" where
  "drop_child sp = do { sp \<leftarrow> fts_lfree (f_child sp) sp; Some (sp\<lparr>f_child := None\<rparr>) }"

fun set_accpaths :: "accpath \<Rightarrow> ptr list \<Rightarrow> 'k fts \<Rightarrow> 'k fts option" where
  "set_accpaths a [] sp = Some sp"
| "set_accpaths a (p # ps) sp = do { sp \<leftarrow> upd p (n_accpath_update (\<lambda>_. a)) sp; set_accpaths a ps sp }"

definition fts_descend :: "'k fts_env \<Rightarrow> ptr \<Rightarrow> fts_node \<Rightarrow> fts_instr \<Rightarrow> 'k fts \<Rightarrow> 'k read_result" where
  "fts_descend E p e instr sp =
     (if instr = FTS_SKIP \<or> ISSET FTS_XDEV sp \<and> n_dev e \<noteq> f_dev sp
      then do { sp \<leftarrow> drop_child sp;
                sp \<leftarrow> upd p (n_info_update (\<lambda>_. FTS_DP)) sp;
                Some (Some p, sp) }
      else
        do { sp \<leftarrow> (if f_child sp \<noteq> None \<and> ISSET FTS_NAMEONLY sp then drop_child (CLR FTS_NAMEONLY sp) else Some sp);
             case f_child sp of
               Some c \<Rightarrow>
                 do { path \<leftarrow> acc_string sp (n_accpath e);
                      let (err, sp) = CHDIR E sp path;
                      sp \<leftarrow> (if err
                             then do { sp \<leftarrow> upd p (\<lambda>e. e\<lparr>n_errno := f_errno sp, n_dontchdir := True\<rparr>) sp;
                                       xs \<leftarrow> list_of (f_store sp) (Some c);
                                       set_accpaths (n_accpath e) (map fst xs) sp }
                             else Some sp);
                      goto_name c (sp\<lparr>f_child := None\<rparr>) }
             | None \<Rightarrow>
                 do { (c, sp) \<leftarrow> fts_build E BREAD sp;
                      case c of
                        None \<Rightarrow> Some (if ISSET FTS_STOP sp then None else Some p, sp)
                      | Some c \<Rightarrow> goto_name c (sp\<lparr>f_child := None\<rparr>) } })"

definition fts_read :: "'k fts_env \<Rightarrow> 'k fts \<Rightarrow> 'k read_result" where
  "fts_read E sp =
     (case f_cur sp of
        None \<Rightarrow> Some (None, sp)
      | Some p \<Rightarrow>
          if ISSET FTS_STOP sp then Some (None, sp)
          else
            do { e \<leftarrow> f_store sp p;
                 let instr = n_instr e;
                 sp \<leftarrow> upd p (n_instr_update (\<lambda>_. FTS_NOINSTR)) sp;
                 if instr = FTS_AGAIN
                 then do { (info, sp) \<leftarrow> fts_stat E p False sp;
                           sp \<leftarrow> upd p (n_info_update (\<lambda>_. info)) sp;
                           Some (Some p, sp) }
                 else if instr = FTS_FOLLOW \<and> (n_info e = FTS_SL \<or> n_info e = FTS_SLNONE)
                 then do { sp \<leftarrow> follow_link E p sp; Some (Some p, sp) }
                 else if n_info e = FTS_D then fts_descend E p e instr sp
                 else fts_next E p sp })"

section \<open>The other operations\<close>

text \<open>An instruction is given as a number; the result is 1 if it is not one of the known.\<close>

definition instr_of :: "int \<Rightarrow> fts_instr option" where
  "instr_of i =
     (if i = 1 then Some FTS_AGAIN else if i = 2 then Some FTS_FOLLOW else if i = 0 \<or> i = 3 then Some FTS_NOINSTR
      else if i = 4 then Some FTS_SKIP else None)"

definition fts_set :: "ptr \<Rightarrow> int \<Rightarrow> 'k fts \<Rightarrow> (int \<times> 'k fts) option" where
  "fts_set p instr sp =
     (case instr_of instr of
        None \<Rightarrow> Some (1, set_errno EINVAL sp)
      | Some i \<Rightarrow> map_option (Pair 0) (upd p (n_instr_update (\<lambda>_. i)) sp))"

definition fts_children :: "'k fts_env \<Rightarrow> 32 word \<Rightarrow> 'k fts \<Rightarrow> 'k read_result" where
  "fts_children E instr sp =
     (if instr \<noteq> 0 \<and> instr \<noteq> FTS_NAMEONLY then Some (None, set_errno EINVAL sp)
      else
        do { p \<leftarrow> f_cur sp;
             let sp = set_errno 0 sp;
             if ISSET FTS_STOP sp then Some (None, sp)
             else
               do { e \<leftarrow> f_store sp p;
                    if n_info e = FTS_INIT then Some (n_link e, sp)
                    else if n_info e \<noteq> FTS_D then Some (None, sp)
                    else
                      do { sp \<leftarrow> fts_lfree (f_child sp) sp;
                           let (sp, type) = (if instr = FTS_NAMEONLY then (SET FTS_NAMEONLY sp, BNAMES) else (sp, BCHILD));
                           path \<leftarrow> acc_string sp (n_accpath e);
                           sp \<leftarrow> (if n_level e \<noteq> FTS_ROOTLEVEL \<or> take 1 path = ''/'' \<or> ISSET FTS_NOCHDIR sp
                                  then Some sp else map_option snd (fts_getcwd E sp));
                           (c, sp) \<leftarrow> fts_build E type sp;
                           Some (c, sp\<lparr>f_child := c\<rparr>) } } })"

text \<open>Freeing the nodes from the current one along the links and up to the parent of the roots.\<close>

partial_function (option) close_nodes :: "ptr \<Rightarrow> 'k fts \<Rightarrow> 'k fts option" where
  "close_nodes p sp =
     do { e \<leftarrow> f_store sp p;
          sp \<leftarrow> fts_free p sp;
          if n_level e \<ge> FTS_ROOTLEVEL
          then close_nodes (case n_link e of Some q \<Rightarrow> q | None \<Rightarrow> n_parent e) sp
          else Some sp }"

definition fts_close :: "'k fts_env \<Rightarrow> 'k fts \<Rightarrow> (int \<times> 'k fts) option" where
  "fts_close E sp =
     do { sp \<leftarrow> (case f_cur sp of None \<Rightarrow> Some sp | Some p \<Rightarrow> close_nodes p sp);
          sp \<leftarrow> fts_lfree (f_child sp) sp;
          let (err, sp) = CHDIR_saved E sp (f_rpath sp);
          Some (if err \<and> f_errno sp \<noteq> 0 then -1 else 0, sp) }"

end
