(* ===== verification/FTS_Walk.thy ===== *)
theory FTS_Walk
  imports FTS
begin

text \<open>
  What the walk does: over a hierarchy that the kernel serves, \<open>fts_read\<close> delivers the nodes of
  the hierarchy, a directory before and after its contents, everything else once, and then NULL.
  The specification is the function \<open>visits\<close> on abstract hierarchies; the walk is physical and
  does not change directories, and the list of the children of a directory is not sorted.
\<close>

section \<open>Hierarchies and their visits\<close>

datatype ftree = Leaf stat | Dir stat "(string \<times> ftree) list"

text \<open>The path of a child: a slash at the end of the path of the directory is not doubled.\<close>

definition base :: "string \<Rightarrow> string" where
  "base q = (if q \<noteq> [] \<and> last q = CHR ''/'' then butlast q else q)"

definition sub :: "string \<Rightarrow> string \<Rightarrow> string" where
  "sub q n = base q @ CHR ''/'' # n"

definition leaf_info :: "stat \<Rightarrow> fts_info" where
  "leaf_info st = (if S_ISLNK st then FTS_SL else if S_ISREG st then FTS_F else FTS_DEFAULT)"

fun info_of :: "ftree \<Rightarrow> fts_info" where
  "info_of (Leaf st) = leaf_info st"
| "info_of (Dir st cs) = FTS_D"

text \<open>
  What is seen of a node when it is returned: its class, the path and its level. When an empty
  directory is left, a slash at the end of its path has been cut off.
\<close>

type_synonym visit = "fts_info \<times> string \<times> int"

fun visits :: "string \<Rightarrow> int \<Rightarrow> ftree \<Rightarrow> visit list"
  and visits_list :: "string \<Rightarrow> int \<Rightarrow> (string \<times> ftree) list \<Rightarrow> visit list"
where
  "visits q l (Leaf st) = [(leaf_info st, q, l)]"
| "visits q l (Dir st cs) = (FTS_D, q, l) # visits_list q (l + 1) cs @ [(FTS_DP, if cs = [] then base q else q, l)]"
| "visits_list q l [] = []"
| "visits_list q l ((n, t) # cs) = visits (sub q n) l t @ visits_list q l cs"

text \<open>
  The kernel serves a hierarchy: every path of it has its status, opening a directory gives a
  descriptor from which its entries are read, in the order of the hierarchy; no directory is its
  own ancestor; and the paths fit into a buffer of \<open>M\<close> characters. \<open>left\<close> is what is unread of a
  descriptor, \<open>anc\<close> are inode and device numbers of the ancestors.
\<close>

type_synonym 'k unread = "fd \<Rightarrow> 'k \<Rightarrow> dirent list"

definition opens_as :: "'k rump \<Rightarrow> 'k unread \<Rightarrow> string \<Rightarrow> string list \<Rightarrow> bool" where
  "opens_as R left q ns \<longleftrightarrow>
     (\<forall>k. \<exists>fd k'. sys_open R q (O_RDONLY OR O_DIRECTORY) 0 k = (Inr fd, k') \<and> reads_dir R fd (left fd) \<and>
        map d_name (filter (\<lambda>d. \<not> ISDOT (d_name d)) (live (left fd k'))) = ns)"

definition has_stat :: "'k rump \<Rightarrow> string \<Rightarrow> stat \<Rightarrow> bool" where
  "has_stat R q st \<longleftrightarrow> (\<forall>k. sys_lstat R q k = (Inr st, k))"

fun serves :: "'k rump \<Rightarrow> 'k unread \<Rightarrow> nat \<Rightarrow> (64 word \<times> 64 word) list \<Rightarrow> string \<Rightarrow> int \<Rightarrow> ftree \<Rightarrow> bool"
  and serves_list :: "'k rump \<Rightarrow> 'k unread \<Rightarrow> nat \<Rightarrow> (64 word \<times> 64 word) list \<Rightarrow> string \<Rightarrow> int \<Rightarrow>
    (string \<times> ftree) list \<Rightarrow> bool"
where
  "serves R left M anc q l (Leaf st) \<longleftrightarrow>
     length q < M \<and> NUL \<notin> set q \<and> q \<noteq> [] \<and> \<not> S_ISDIR st \<and> has_stat R q st"
| "serves R left M anc q l (Dir st cs) \<longleftrightarrow>
     length q + 1 < M \<and> NUL \<notin> set q \<and> q \<noteq> [] \<and> S_ISDIR st \<and> has_stat R q st \<and> l < SHRT_MAX \<and>
     (st_ino st, st_dev st) \<notin> set anc \<and> opens_as R left q (map fst cs) \<and>
     serves_list R left M ((st_ino st, st_dev st) # anc) q (l + 1) cs"
| "serves_list R left M anc q l [] \<longleftrightarrow> True"
| "serves_list R left M anc q l ((n, t) # cs) \<longleftrightarrow>
     n \<noteq> [] \<and> serves R left M anc (sub q n) l t \<and> serves_list R left M anc q l cs"

text \<open>An environment in which memory is granted and nothing is sorted.\<close>

definition plain_env :: "'k fts_env \<Rightarrow> bool" where
  "plain_env E \<longleftrightarrow> env_oom E = (\<lambda>_. False) \<and> env_compar E = None"

abbreviation "PLAIN \<equiv> FTS_NOCHDIR OR FTS_PHYSICAL"

text \<open>Reading on: what is seen, and the stream after it.\<close>

definition seen :: "'k fts \<Rightarrow> ptr \<Rightarrow> visit option" where
  "seen sp p = map_option (\<lambda>e. (n_info e, cstr_at (f_path sp) 0, n_level e)) (f_store sp p)"

inductive walks :: "'k fts_env \<Rightarrow> 'k fts \<Rightarrow> visit list \<Rightarrow> 'k fts \<Rightarrow> bool" for E where
  walks_refl: "walks E sp [] sp"
| walks_step: "fts_read E sp = Some (Some p, sp1) \<Longrightarrow> seen sp1 p = Some v \<Longrightarrow> walks E sp1 vs sp2 \<Longrightarrow>
    walks E sp (v # vs) sp2"

lemma walks_append: "walks E sp vs sp1 \<Longrightarrow> walks E sp1 us sp2 \<Longrightarrow> walks E sp (vs @ us) sp2"
  by (induction rule: walks.induct) (auto intro: walks.intros)

lemma walks_one: "fts_read E sp = Some (Some p, sp1) \<Longrightarrow> seen sp1 p = Some v \<Longrightarrow> walks E sp [v] sp1"
  by (rule walks_step) (auto intro: walks_refl)

text \<open>The whole walk, to the NULL at its end.\<close>

partial_function (option) fts_walk :: "'k fts_env \<Rightarrow> 'k fts \<Rightarrow> (visit list \<times> 'k fts) option" where
  "fts_walk E sp =
     (case fts_read E sp of
        None \<Rightarrow> None
      | Some (None, sp) \<Rightarrow> Some ([], sp)
      | Some (Some p, sp) \<Rightarrow>
          do { v \<leftarrow> seen sp p;
               (vs, sp) \<leftarrow> fts_walk E sp;
               Some (v # vs, sp) })"

lemma fts_walk_walks:
  "walks E sp vs sp1 \<Longrightarrow> fts_read E sp1 = Some (None, sp2) \<Longrightarrow> fts_walk E sp = Some (vs, sp2)"
proof (induction rule: walks.induct)
  case (walks_refl sp)
  then show ?case by (subst fts_walk.simps) simp
next
  case (walks_step sp p sp1 v vs sp2')
  then show ?case by (subst fts_walk.simps) simp
qed

section \<open>Paths\<close>

text \<open>The path buffer holds a path.\<close>

definition holds :: "cbuffer \<Rightarrow> string \<Rightarrow> bool" where
  "holds b q \<longleftrightarrow> length q < length b \<and> take (length q) b = q \<and> b ! length q = NUL"

lemma holds_cstr: "holds b q \<Longrightarrow> NUL \<notin> set q \<Longrightarrow> cstr_at b 0 = q"
proof -
  assume h: "holds b q" "NUL \<notin> set q"
  then have "b = q @ NUL # drop (Suc (length q)) b"
    unfolding holds_def by (metis id_take_nth_drop)
  then show ?thesis using cstr_at_app [of q "[]" "drop (Suc (length q)) b"] h(2) by simp
qed

lemma base_cases: "q = base q \<or> q = base q @ ''/''"
  by (auto simp: base_def dest: append_butlast_last_id)

lemma length_base:
  "length (base q) \<le> length q" "length q \<le> length (base q) + 1" "length (base q) < length (sub q n)"
  by (auto simp: base_def sub_def)

lemma take_base:
  assumes "take (length (base q) + 1) b = base q @ ''/''" "length (base q) < length b"
  shows "take (length q) b = q"
  using base_cases [of q]
proof
  assume q: "q = base q"
  have "take (length (base q)) b = take (length (base q)) (take (length (base q) + 1) b)" by simp
  also have "\<dots> = base q" unfolding assms(1) by simp
  finally show ?thesis using q by metis
next
  assume q: "q = base q @ ''/''"
  have "length q = length (base q) + 1" using arg_cong [OF q, of length] by simp
  then show ?thesis using assms(1) q by metis
qed

lemma NAPPEND_base:
  assumes "take (length q) b = q" "q \<noteq> []" "length q \<le> length b" "n_pathlen e = length q"
  shows "NAPPEND b e = Some (length (base q))"
proof -
  have "b ! (length q - 1) = last q"
    using assms(1,2) by (metis diff_less last_conv_nth length_greater_0_conv less_numeral_extra(1) nth_take)
  then have "rd b (length q - 1) = Some (last q)"
    using assms(2,3) by (cases q) (auto simp: rd_def)
  then show ?thesis using assms(2,4) by (simp add: NAPPEND_def base_def)
qed

lemma put_name:
  assumes "take (length (base q)) b = base q" "length (sub q n) < length b"
  shows "\<exists>b1 b'. wr b (length (base q)) CHR ''/'' = Some b1 \<and> put_str b1 (length (base q) + 1) n = Some b' \<and>
    length b' = length b \<and> holds b' (sub q n)"
proof -
  let ?k = "length (base q)"
  have k: "?k < length b" "?k + 1 + length n < length b" using assms(2) by (simp_all add: sub_def)
  define b1 where "b1 = b[?k := CHR ''/'']"
  have t: "take (?k + 1) b1 = base q @ ''/''"
    using k(1) assms(1) by (simp add: b1_def take_Suc_conv_app_nth)
  define b' where "b' = take (?k + 1) b1 @ n @ NUL # drop (?k + 1 + length n + 1) b1"
  have "wr b ?k CHR ''/'' = Some b1" using k by (simp add: wr_def b1_def)
  moreover have "put_str b1 (?k + 1) n = Some b'" using k by (simp add: put_str_def b'_def b1_def)
  moreover have "length b' = length b" using k by (simp add: b'_def b1_def)
  moreover have "b' = sub q n @ NUL # drop (?k + 1 + length n + 1) b1"
    unfolding b'_def t by (simp add: sub_def)
  then have "holds b' (sub q n)" by (simp add: holds_def)
  ultimately show ?thesis by blast
qed

lemma holds_base: "holds b (sub q n) \<Longrightarrow> take (length (base q) + 1) b = base q @ ''/'' \<and> length (base q) + 1 < length b"
proof -
  assume h: "holds b (sub q n)"
  then have t: "take (length (sub q n)) b = base q @ ''/'' @ n" by (simp add: holds_def sub_def)
  have "take (length (base q) + 1) b = take (length (base q) + 1) (take (length (sub q n)) b)"
    by (simp add: sub_def)
  also have "\<dots> = base q @ ''/''" unfolding t by simp
  finally show ?thesis using h by (simp add: holds_def sub_def)
qed

lemma holds_up:
  assumes "take (length (base q) + 1) b = base q @ ''/''" "length (base q) + 1 < length b"
  shows "holds (b[length q := NUL]) q"
proof -
  show ?thesis using take_base [OF assms(1)] assms(2) length_base(2) [of q] by (simp add: holds_def)
qed

section \<open>Nodes and lists of nodes\<close>

lemma upd_Some: "f_store sp p = Some e \<Longrightarrow> upd p f sp = Some (sp\<lparr>f_store := (f_store sp)(p \<mapsto> f e)\<rparr>)"
  by (simp add: upd_def)

lemma ISSET_plain:
  "f_options sp = PLAIN \<Longrightarrow> ISSET FTS_NOCHDIR sp"
  "f_options sp = PLAIN \<Longrightarrow> \<not> ISSET FTS_LOGICAL sp"
  "f_options sp = PLAIN \<Longrightarrow> \<not> ISSET FTS_NOSTAT sp"
  "f_options sp = PLAIN \<Longrightarrow> \<not> ISSET FTS_SEEDOT sp"
  "f_options sp = PLAIN \<Longrightarrow> \<not> ISSET FTS_XDEV sp"
  "f_options sp = PLAIN \<Longrightarrow> \<not> ISSET FTS_STOP sp"
  "f_options sp = PLAIN \<Longrightarrow> \<not> ISSET FTS_COMFOLLOW sp"
  by (simp_all add: ISSET_def)

fun dir_ids :: "ftree \<Rightarrow> fts_node \<Rightarrow> bool" where
  "dir_ids (Leaf st) e \<longleftrightarrow> True"
| "dir_ids (Dir st cs) e \<longleftrightarrow> n_ino e = st_ino st \<and> n_dev e = st_dev st"

text \<open>A node of the hierarchy at a path, and such a node before its first visit.\<close>

definition node_ok :: "string \<Rightarrow> int \<Rightarrow> ftree \<Rightarrow> fts_node \<Rightarrow> bool" where
  "node_ok q l t e \<longleftrightarrow> n_level e = l \<and> n_pathlen e = length q \<and> n_accpath e = In_Path \<and> n_errno e = 0 \<and>
     n_instr e = FTS_NOINSTR \<and> \<not> n_symfollow e \<and> dir_ids t e"

definition fresh :: "ptr \<Rightarrow> int \<Rightarrow> string \<Rightarrow> string \<Rightarrow> ftree \<Rightarrow> fts_node \<Rightarrow> bool" where
  "fresh par l q n t e \<longleftrightarrow> n_name e = n \<and> n_parent e = par \<and> node_ok (sub q n) l t e \<and> n_info e = info_of t"

definition next_id :: "(ptr \<times> string \<times> ftree) list \<Rightarrow> ptr option" where
  "next_id xs = (case xs of [] \<Rightarrow> None | x # _ \<Rightarrow> Some (fst x))"

fun chain :: "(string \<Rightarrow> ftree \<Rightarrow> fts_node \<Rightarrow> bool) \<Rightarrow> store \<Rightarrow> (ptr \<times> string \<times> ftree) list \<Rightarrow> bool" where
  "chain P h [] \<longleftrightarrow> True"
| "chain P h ((i, n, t) # xs) \<longleftrightarrow> (\<exists>e. h i = Some e \<and> P n t e \<and> n_link e = next_id xs) \<and> chain P h xs"

lemma next_id_simps [simp]: "next_id [] = None" "next_id (x # xs) = Some (fst x)"
  by (simp_all add: next_id_def)

lemma next_id_append: "xs \<noteq> [] \<Longrightarrow> next_id (xs @ ys) = next_id xs"
  by (cases xs) simp_all

lemma chain_cong: "(\<And>i. i \<in> fst ` set xs \<Longrightarrow> h' i = h i) \<Longrightarrow> chain P h xs \<Longrightarrow> chain P h' xs"
  by (induction xs) auto

lemma chain_last: "chain P h xs \<Longrightarrow> xs \<noteq> [] \<Longrightarrow> \<exists>e. h (fst (last xs)) = Some e"
  by (induction xs) (auto split: if_splits)

text \<open>A node put at the end of a list.\<close>

definition attached :: "store \<Rightarrow> ptr \<Rightarrow> fts_node \<Rightarrow> (ptr \<times> string \<times> ftree) list \<Rightarrow> store" where
  "attached h i e xs =
     (if xs = [] then h(i \<mapsto> e)
      else h(i \<mapsto> e, fst (last xs) \<mapsto> (the (h (fst (last xs))))\<lparr>n_link := Some i\<rparr>))"

lemma attached_frame: "j \<noteq> i \<Longrightarrow> j \<notin> fst ` set xs \<Longrightarrow> attached h i e xs j = h j"
  by (auto simp: attached_def)

lemma attached_upd: "i \<notin> fst ` set xs \<Longrightarrow> attached (h(i \<mapsto> e')) i e xs = attached h i e xs"
proof (cases "xs = []")
  case False
  then have "fst (last xs) \<in> fst ` set xs" by simp
  moreover assume "i \<notin> fst ` set xs"
  ultimately have "fst (last xs) \<noteq> i" by metis
  then show ?thesis using False by (simp add: attached_def)
qed (simp add: attached_def)

lemma chain_attached:
  assumes "chain P h xs" "distinct (map fst xs)" "i \<notin> fst ` set xs" "P n t e" "n_link e = None"
    and P: "\<And>n t e x. P n t (e\<lparr>n_link := x\<rparr>) = P n t e"
  shows "chain P (attached h i e xs) (xs @ [(i, n, t)])"
  using assms(1-5)
proof (induction xs)
  case Nil
  then show ?case by (simp add: attached_def)
next
  case (Cons x xs)
  obtain j m u where x: "x = (j, m, u)" by (cases x)
  show ?case
  proof (cases "xs = []")
    case True
    then show ?thesis using Cons.prems x by (auto simp: P attached_def)
  next
    case False
    then have a: "attached h i e (x # xs) = attached h i e xs" by (simp add: attached_def)
    have "attached h i e xs j = h j" using Cons.prems(2,3) x by (intro attached_frame) auto
    moreover have "chain P (attached h i e xs) (xs @ [(i, n, t)])"
      using Cons.prems x by (intro Cons.IH) auto
    ultimately show ?thesis unfolding a using Cons.prems(1) False x by (simp add: next_id_append)
  qed
qed

lemma fresh_link: "fresh par l q n t (e\<lparr>n_link := x\<rparr>) = fresh par l q n t e"
  by (cases t) (simp_all add: fresh_def node_ok_def)

text \<open>The ancestors of a node, all of them older than \<open>N\<close>.\<close>

fun ancs :: "store \<Rightarrow> nat \<Rightarrow> ptr \<Rightarrow> (64 word \<times> 64 word) list \<Rightarrow> bool" where
  "ancs h N p [] \<longleftrightarrow> p < N \<and> (\<exists>e. h p = Some e \<and> n_level e < 0)"
| "ancs h N p (x # xs) \<longleftrightarrow>
     p < N \<and> (\<exists>e. h p = Some e \<and> 0 \<le> n_level e \<and> (n_ino e, n_dev e) = x \<and> ancs h N (n_parent e) xs)"

lemma ancs_cong: "(\<And>i. i < N \<Longrightarrow> h' i = h i) \<Longrightarrow> ancs h N p xs \<Longrightarrow> ancs h' N p xs"
  by (induction xs arbitrary: p) auto

lemma ancs_mono: "N \<le> N' \<Longrightarrow> ancs h N p xs \<Longrightarrow> ancs h N' p xs"
  by (induction xs arbitrary: p) auto

lemma ancs_less: "ancs h N p xs \<Longrightarrow> p < N"
  by (cases xs) auto

lemma find_cycle_None: "ancs h N p xs \<Longrightarrow> (i, d) \<notin> set xs \<Longrightarrow> find_cycle h i d p = Some None"
proof (induction xs arbitrary: p)
  case Nil
  then show ?case by (subst find_cycle.simps) auto
next
  case (Cons x xs)
  then obtain e where e: "h p = Some e" "0 \<le> n_level e" "(n_ino e, n_dev e) = x" "ancs h N (n_parent e) xs"
    by auto
  have "\<not> (i = n_ino e \<and> d = n_dev e)" using Cons.prems(2) e(3) by auto
  then show ?case using e Cons.IH [OF e(4)] Cons.prems(2) by (subst find_cycle.simps) auto
qed

section \<open>The status of a node\<close>

fun with_stat :: "ftree \<Rightarrow> fts_node \<Rightarrow> fts_node" where
  "with_stat (Leaf st) e = e\<lparr>n_statp := Some st\<rparr>"
| "with_stat (Dir st cs) e =
     e\<lparr>n_statp := Some st, n_dev := st_dev st, n_ino := st_ino st, n_nlink := st_nlink st\<rparr>"

lemma with_stat_simps [simp]:
  "n_name (with_stat t e) = n_name e" "n_parent (with_stat t e) = n_parent e"
  "n_level (with_stat t e) = n_level e" "n_pathlen (with_stat t e) = n_pathlen e"
  "n_accpath (with_stat t e) = n_accpath e" "n_errno (with_stat t e) = n_errno e"
  "n_instr (with_stat t e) = n_instr e" "n_symfollow (with_stat t e) = n_symfollow e"
  by (cases t; simp)+

lemma dir_ids_with_stat [simp]: "dir_ids t (with_stat t e)"
  by (cases t) simp_all

lemma dir_ids_update [simp]:
  "dir_ids t (e\<lparr>n_info := i\<rparr>) = dir_ids t e" "dir_ids t (e\<lparr>n_link := x\<rparr>) = dir_ids t e"
  "dir_ids t (e\<lparr>n_instr := r\<rparr>) = dir_ids t e"
  by (cases t; simp)+

text \<open>The status of the root of a served hierarchy, without following links.\<close>

lemma serves_stat:
  assumes "serves R left M anc q l t"
  shows "\<exists>st. has_stat R q st \<and> NUL \<notin> set q \<and> q \<noteq> [] \<and> length q < M \<and>
    (case t of Leaf st' \<Rightarrow> st' = st \<and> \<not> S_ISDIR st | Dir st' cs \<Rightarrow> st' = st \<and> S_ISDIR st \<and> (st_ino st, st_dev st) \<notin> set anc)"
  using assms by (cases t) auto

lemma fts_stat_served:
  assumes s: "serves (env_rump E) left M anc q l t"
    and o: "f_options sp = PLAIN" and e: "f_store sp p = Some e"
    and a: "acc_string sp (n_accpath e) = Some q"
    and anc: "ancs (f_store sp) N (n_parent e) anc" "N \<le> p"
  shows "fts_stat E p False sp =
    Some (if ISDOT (n_name e) \<and> info_of t = FTS_D then FTS_DOT else info_of t, sp\<lparr>f_store := (f_store sp)(p \<mapsto> with_stat t e)\<rparr>)"
proof -
  obtain st where st: "has_stat (env_rump E) q st"
    "case t of Leaf st' \<Rightarrow> st' = st \<and> \<not> S_ISDIR st
     | Dir st' cs \<Rightarrow> st' = st \<and> S_ISDIR st \<and> (st_ino st, st_dev st) \<notin> set anc"
    using serves_stat [OF s] by blast
  have c: "sys (sys_lstat (env_rump E) q) sp = (Some st, sp)"
    using st(1) by (simp add: sys_def call_def has_stat_def)
  let ?e1 = "e\<lparr>n_statp := Some st\<rparr>"
  let ?sp1 = "sp\<lparr>f_store := (f_store sp)(p \<mapsto> ?e1)\<rparr>"
  have "fts_stat E p False sp = stat_class p st ?sp1"
    using e a c o by (simp add: fts_stat_def ISSET_plain set_statp_def upd_def)
  also have "\<dots> = Some (if ISDOT (n_name e) \<and> info_of t = FTS_D then FTS_DOT else info_of t,
      sp\<lparr>f_store := (f_store sp)(p \<mapsto> with_stat t e)\<rparr>)"
  proof (cases t)
    case (Leaf st')
    then show ?thesis using st(2) by (simp add: stat_class_def leaf_info_def)
  next
    case (Dir st' cs)
    let ?e2 = "with_stat t e"
    have e2: "?e2 = ?e1\<lparr>n_dev := st_dev st, n_ino := st_ino st, n_nlink := st_nlink st\<rparr>"
      using Dir st(2) by simp
    have h: "\<And>i. i < N \<Longrightarrow> ((f_store sp)(p \<mapsto> ?e2)) i = f_store sp i" using anc(2) by simp
    have "ancs ((f_store sp)(p \<mapsto> ?e2)) N (n_parent e) anc" using anc(1) h by (rule ancs_cong [rotated])
    then have "find_cycle ((f_store sp)(p \<mapsto> ?e2)) (st_ino st) (st_dev st) (n_parent e) = Some None"
      using find_cycle_None st(2) Dir by auto
    then show ?thesis using Dir st(2) by (simp add: stat_class_def upd_def)
  qed
  finally show ?thesis .
qed

section \<open>Building a list\<close>

definition b_ok :: "build_fix \<Rightarrow> ptr \<Rightarrow> int \<Rightarrow> string \<Rightarrow> bool" where
  "b_ok b p l q \<longleftrightarrow> b = \<lparr>b_cur = p, b_len = length (base q) + 1, b_level = l, b_cderrno = 0, b_nostat = False\<rparr>"

definition v_ok :: "build_var \<Rightarrow> nat \<Rightarrow> string \<Rightarrow> (ptr \<times> string \<times> ftree) list \<Rightarrow> bool" where
  "v_ok v M q xs \<longleftrightarrow> v_head v = next_id xs \<and> (xs \<noteq> [] \<longrightarrow> v_tail v = Some (fst (last xs))) \<and>
     v_nitems v = length xs \<and> v_maxlen v = M - (length (base q) + 1) \<and> v_nlinks v = -1 \<and>
     v_cp v = length (base q) + 1"

text \<open>The stream while the list of the directory \<open>p\<close> at \<open>q\<close> is built.\<close>

definition s_ok :: "nat \<Rightarrow> nat \<Rightarrow> ptr \<Rightarrow> string \<Rightarrow> (64 word \<times> 64 word) list \<Rightarrow> 'k fts \<Rightarrow> bool" where
  "s_ok M N p q anc sp \<longleftrightarrow> f_options sp = PLAIN \<and> f_cur sp = Some p \<and> f_child sp = None \<and>
     length (f_path sp) = M \<and> f_pathlen sp = M \<and> take (length (base q) + 1) (f_path sp) = base q @ ''/'' \<and>
     length (base q) + 1 < M \<and> N \<le> f_next sp \<and> ancs (f_store sp) N p anc"

definition x_ok :: "nat \<Rightarrow> ptr \<Rightarrow> int \<Rightarrow> string \<Rightarrow> (ptr \<times> string \<times> ftree) list \<Rightarrow> 'k fts \<Rightarrow> bool" where
  "x_ok N p l q xs sp \<longleftrightarrow> distinct (map fst xs) \<and> (\<forall>i \<in> fst ` set xs. N \<le> i \<and> i < f_next sp) \<and>
     chain (fresh p l q) (f_store sp) xs"

lemma put_entry:
  assumes "take (length (base q) + 1) b = base q @ ''/''" "length (sub q n) < length b"
  shows "\<exists>b'. put_str b (length (base q) + 1) n = Some b' \<and> length b' = length b \<and> holds b' (sub q n) \<and>
    take (length (base q) + 1) b' = base q @ ''/''"
proof -
  define b' where "b' = take (length (base q) + 1) b @ n @ NUL # drop (length (base q) + 1 + length n + 1) b"
  have l: "length (base q) + 1 + length n < length b" using assms(2) by (simp add: sub_def)
  have p: "put_str b (length (base q) + 1) n = Some b'" using l by (simp add: put_str_def b'_def)
  have len: "length b' = length b" using l by (simp add: b'_def)
  have e: "b' = sub q n @ NUL # drop (length (base q) + 1 + length n + 1) b"
    unfolding b'_def assms(1) by (simp add: sub_def)
  then have h: "holds b' (sub q n)" by (simp add: holds_def)
  then show ?thesis using p len holds_base [OF h] by blast
qed

lemma build_link_served:
  assumes "f_store sp i = Some e" "i \<notin> fst ` set xs" "v_ok v M q xs" "chain P (f_store sp) xs"
  shows "\<exists>v'. build_link i v sp = Some (v', sp\<lparr>f_store := attached (f_store sp) i (e\<lparr>n_link := None\<rparr>) xs\<rparr>) \<and>
    v_ok v' M q (xs @ [(i, n, t)])"
proof (cases "xs = []")
  case True
  then show ?thesis using assms by (simp add: build_link_def v_ok_def upd_def attached_def)
next
  case False
  then have "fst (last xs) \<in> fst ` set xs" by simp
  then have "fst (last xs) \<noteq> i" using assms(2) by metis
  then show ?thesis
    using assms(1-3) chain_last [OF assms(4) False] False by (cases xs) (auto simp: build_link_def v_ok_def upd_def attached_def)
qed

text \<open>One entry: its node is allocated, its status read, and it is attached to the list.\<close>

lemma build_entry:
  assumes E: "plain_env E" and b: "b_ok b p l q" and v: "v_ok v M q xs" and s: "s_ok M N p q anc sp"
    and x: "x_ok N p l q xs sp" and t: "serves (env_rump E) left M anc (sub q n) l t" and n: "\<not> ISDOT n"
    and r: "fsu_readdir (env_rump E) dirp (f_world sp) = Some (Some dp, dirp', w)" "d_name dp = n"
  shows "\<exists>v' sp'. build_loop E b dirp v sp = build_loop E b dirp' v' sp' \<and>
    v_ok v' M q (xs @ [(f_next sp, n, t)]) \<and> s_ok M N p q anc sp' \<and>
    x_ok N p l q (xs @ [(f_next sp, n, t)]) sp' \<and> f_world sp' = w \<and>
    (\<forall>i < N. f_store sp' i = f_store sp i) \<and> f_rpath sp' = f_rpath sp \<and> f_dev sp' = f_dev sp"
proof -
  define i where "i = f_next sp"
  note so = s [unfolded s_ok_def]
  have o: "f_options sp = PLAIN" and Ni: "N \<le> i" using so by (auto simp: i_def)
  obtain st where st: "NUL \<notin> set (sub q n)" "length (sub q n) < M" using serves_stat [OF t] by blast
  have nl: "length n < M - (length (base q) + 1)" using st(2) by (simp add: sub_def)
  obtain c where c: "f_store sp p = Some c" using so by (cases anc) auto
  have pN: "p < N" using so ancs_less by blast
  define e1 where "e1 = (env_junk E)\<lparr>n_statp := Some (file_stat 0), n_name := n, n_errno := 0,
      n_dontchdir := False, n_symfollow := False, n_instr := FTS_NOINSTR, n_number := 0,
      n_level := l, n_pathlen := length (base q) + 1 + length n, n_parent := p\<rparr>"
  define sp2 where "sp2 = sp\<lparr>f_world := w, f_next := Suc i, f_store := (f_store sp)(i \<mapsto> e1)\<rparr>"
  obtain path where path: "put_str (f_path sp) (length (base q) + 1) n = Some path" "length path = M"
    "holds path (sub q n)" "take (length (base q) + 1) path = base q @ ''/''"
    using put_entry [of q "f_path sp" n] so st(2) by auto
  define sp3 where "sp3 = sp2\<lparr>f_path := path, f_store := (f_store sp)(i \<mapsto> e1\<lparr>n_accpath := In_Path\<rparr>)\<rparr>"
  define e4 where "e4 = (with_stat t (e1\<lparr>n_accpath := In_Path\<rparr>))\<lparr>n_info := info_of t\<rparr>"
  define sp4 where "sp4 = sp3\<lparr>f_store := (f_store sp)(i \<mapsto> e4)\<rparr>"
  have acc: "acc_string sp3 In_Path = Some (sub q n)"
    using holds_cstr [OF path(3) st(1)] by (simp add: acc_string_def sp3_def)
  have "ancs (f_store sp3) N p anc"
    using so Ni by (intro ancs_cong [of N "f_store sp3" "f_store sp"]) (auto simp: sp3_def)
  then have stat: "fts_stat E i False sp3 =
      Some (info_of t, sp3\<lparr>f_store := (f_store sp3)(i \<mapsto> with_stat t (e1\<lparr>n_accpath := In_Path\<rparr>))\<rparr>)"
    using fts_stat_served [OF t, where N = N and sp = sp3 and p = i and e = "e1\<lparr>n_accpath := In_Path\<rparr>"] acc Ni n o
    by (simp add: sp3_def sp2_def e1_def)
  have status: "build_status E b dp i v sp2 = Some (v, sp4)"
    using b v c pN Ni o path(1) stat
    by (simp add: build_status_def b_ok_def v_ok_def ISSET_plain upd_def sp2_def sp3_def sp4_def e1_def e4_def)
  define e5 where "e5 = e4\<lparr>n_link := None\<rparr>"
  have fr: "fresh p l q n t e5"
  proof -
    have "dir_ids t e5" by (simp add: e5_def e4_def)
    then show ?thesis by (simp add: fresh_def node_ok_def e5_def e4_def e1_def sub_def)
  qed
  have iN: "i \<notin> fst ` set xs" using x by (auto simp: x_ok_def i_def)
  define h where "h = attached (f_store sp) i e5 xs"
  have ch4: "chain (fresh p l q) (f_store sp4) xs"
  proof (rule chain_cong)
    show "f_store sp4 j = f_store sp j" if "j \<in> fst ` set xs" for j
      using that iN by (auto simp: sp4_def)
  qed (use x in \<open>simp add: x_ok_def\<close>)
  obtain v' where link: "build_link i v sp4 = Some (v', sp4\<lparr>f_store := h\<rparr>)"
    and v': "v_ok v' M q (xs @ [(i, n, t)])"
    using build_link_served [of sp4 i e4 xs v M q "fresh p l q" n t] v iN ch4
    by (auto simp: h_def e5_def sp4_def sp3_def attached_upd)
  have ch: "chain (fresh p l q) h (xs @ [(i, n, t)])"
    unfolding h_def using x iN fr by (intro chain_attached) (auto simp: x_ok_def e5_def fresh_link)
  have fr': "\<forall>j < N. h j = f_store sp j"
    unfolding h_def using Ni x by (auto simp: x_ok_def intro!: attached_frame)
  have al: "fts_alloc E n (sp\<lparr>f_world := w\<rparr>) = (Some i, sp\<lparr>f_world := w, f_next := Suc i,
      f_store := (f_store sp)(i \<mapsto> (env_junk E)\<lparr>n_statp := Some (file_stat 0), n_name := n, n_errno := 0,
      n_dontchdir := False, n_symfollow := False, n_instr := FTS_NOINSTR, n_number := 0\<rparr>)\<rparr>)"
    using E o by (simp add: fts_alloc_def plain_env_def ISSET_plain Let_def i_def)
  have "build_loop E b dirp v sp = build_loop E b dirp' v' (sp4\<lparr>f_store := h\<rparr>)"
    apply (subst build_loop.simps)
    using r n nl v b al status link
    by (simp add: v_ok_def b_ok_def upd_def sp2_def e1_def)
  moreover have "s_ok M N p q anc (sp4\<lparr>f_store := h\<rparr>)"
    using so path Ni fr' ancs_cong [of N h "f_store sp"]
    by (simp add: s_ok_def sp4_def sp3_def sp2_def)
  moreover have "x_ok N p l q (xs @ [(i, n, t)]) (sp4\<lparr>f_store := h\<rparr>)"
    using x iN ch Ni by (auto simp: x_ok_def sp4_def sp3_def sp2_def i_def)
  ultimately show ?thesis
    unfolding i_def [symmetric]
    by (intro exI [of _ v'] exI [of _ "sp4\<lparr>f_store := h\<rparr>"])
      (use v' fr' in \<open>simp add: sp4_def sp3_def sp2_def\<close>)
qed


text \<open>The whole loop: one node per entry, in the order of the directory.\<close>

lemma build_loop_served:
  assumes E: "plain_env E" and b: "b_ok b p l q"
    and "reads_dir (env_rump E) (dd_fd dirp) left'"
    and "map d_name (filter (\<lambda>d. \<not> ISDOT (d_name d)) (live (pending left' dirp (f_world sp)))) = map fst cs"
    and "serves_list (env_rump E) left M anc q l cs"
    and "v_ok v M q xs" "s_ok M N p q anc sp" "x_ok N p l q xs sp"
  shows "\<exists>v' dirp' sp' ys. build_loop E b dirp v sp = Some (True, v', dirp', sp') \<and> map snd ys = cs \<and>
    v_ok v' M q (xs @ ys) \<and> s_ok M N p q anc sp' \<and> x_ok N p l q (xs @ ys) sp' \<and>
    (\<forall>i < N. f_store sp' i = f_store sp i) \<and> f_rpath sp' = f_rpath sp \<and> f_dev sp' = f_dev sp"
  using assms(3-)
proof (induction "live (pending left' dirp (f_world sp))" arbitrary: dirp v sp cs xs)
  case Nil
  obtain dirp' w where r: "fsu_readdir (env_rump E) dirp (f_world sp) = Some (None, dirp', w)"
    using fsu_readdir_live [OF Nil.prems(1), of "f_world sp"] Nil.hyps by auto
  have "cs = []" using Nil.prems(2) Nil.hyps by simp
  moreover have "build_loop E b dirp v sp = Some (True, v, dirp', sp\<lparr>f_world := w\<rparr>)"
    by (subst build_loop.simps) (simp add: r)
  moreover have "s_ok M N p q anc (sp\<lparr>f_world := w\<rparr>)" "x_ok N p l q xs (sp\<lparr>f_world := w\<rparr>)"
    using Nil.prems by (simp_all add: s_ok_def x_ok_def)
  ultimately show ?case using Nil.prems(4)
    by (intro exI [of _ v] exI [of _ dirp'] exI [of _ "sp\<lparr>f_world := w\<rparr>"] exI [of _ "[]"]) simp
next
  case (Cons d ds)
  let ?w = "f_world sp"
  obtain dirp1 w1 where r: "fsu_readdir (env_rump E) dirp ?w = Some (Some d, dirp1, w1)"
    "dd_fd dirp1 = dd_fd dirp" "live (pending left' dirp1 w1) = ds"
    using fsu_readdir_live [OF Cons.prems(1), of ?w] Cons.hyps(2) [symmetric] by auto
  show ?case
  proof (cases "ISDOT (d_name d)")
    case True
    let ?sp = "sp\<lparr>f_world := w1\<rparr>"
    have o: "\<not> ISSET FTS_SEEDOT ?sp" using Cons.prems(5) by (simp add: s_ok_def ISSET_plain)
    have "build_loop E b dirp v sp = build_loop E b dirp1 v ?sp"
      using r(1) True o by (subst build_loop.simps) simp
    moreover have "s_ok M N p q anc ?sp" "x_ok N p l q xs ?sp"
      using Cons.prems by (simp_all add: s_ok_def x_ok_def)
    moreover have "map d_name (filter (\<lambda>d. \<not> ISDOT (d_name d)) ds) = map fst cs"
      using Cons.prems(2) Cons.hyps(2) [symmetric] True by simp
    ultimately show ?thesis
      using Cons.hyps(1) [of dirp1 ?sp cs v xs] Cons.prems r(2,3) by simp
  next
    case False
    then obtain n t cs' where cs: "cs = (n, t) # cs'" "d_name d = n"
      "map d_name (filter (\<lambda>d. \<not> ISDOT (d_name d)) ds) = map fst cs'"
      using Cons.prems(2) Cons.hyps(2) [symmetric] by (cases cs) auto
    have t: "serves (env_rump E) left M anc (sub q n) l t" "serves_list (env_rump E) left M anc q l cs'"
      using Cons.prems(3) cs by auto
    define i where "i = f_next sp"
    obtain v1 sp1 where s1: "build_loop E b dirp v sp = build_loop E b dirp1 v1 sp1"
      "v_ok v1 M q (xs @ [(i, n, t)])" "s_ok M N p q anc sp1" "x_ok N p l q (xs @ [(i, n, t)]) sp1"
      "f_world sp1 = w1" "\<forall>i < N. f_store sp1 i = f_store sp i" "f_rpath sp1 = f_rpath sp" "f_dev sp1 = f_dev sp"
      using build_entry [OF E b Cons.prems(4,5,6) t(1) _ r(1) cs(2)] False cs(2) unfolding i_def by blast
    obtain v' dirp' sp' ys where s2: "build_loop E b dirp1 v1 sp1 = Some (True, v', dirp', sp')" "map snd ys = cs'"
      "v_ok v' M q ((xs @ [(i, n, t)]) @ ys)" "s_ok M N p q anc sp'" "x_ok N p l q ((xs @ [(i, n, t)]) @ ys) sp'"
      "\<forall>i < N. f_store sp' i = f_store sp1 i" "f_rpath sp' = f_rpath sp1" "f_dev sp' = f_dev sp1"
      using Cons.hyps(1) [of dirp1 sp1 cs' v1 "xs @ [(i, n, t)]"] Cons.prems(1) r(2,3) cs(3) t(2) s1 by auto
    then show ?thesis
      using s1 cs by (intro exI [of _ v'] exI [of _ dirp'] exI [of _ sp'] exI [of _ "(i, n, t) # ys"]) simp
  qed
qed


definition stands :: "nat \<Rightarrow> ptr \<Rightarrow> fts_node \<Rightarrow> 'k fts \<Rightarrow> bool" where
  "stands M p e sp \<longleftrightarrow> f_options sp = PLAIN \<and> f_cur sp = Some p \<and> f_child sp = None \<and>
     length (f_path sp) = M \<and> f_pathlen sp = M \<and> f_store sp p = Some e \<and> p < f_next sp"

lemma build_end_served:
  assumes E: "plain_env E" and b: "b_ok b p l q" and v: "v_ok v M q ys" and s: "s_ok M N p q anc sp"
    and e: "f_store sp p = Some e"
  shows "build_end E BREAD b True v sp = Some (next_id ys,
    if ys = [] then sp\<lparr>f_path := (f_path sp)[length (base q) := NUL], f_store := (f_store sp)(p \<mapsto> e\<lparr>n_info := FTS_DP\<rparr>)\<rparr>
    else sp\<lparr>f_path := (f_path sp)[length (base q) + 1 := NUL]\<rparr>)"
  using assms
  by (simp add: build_end_def s_ok_def v_ok_def b_ok_def ISSET_plain wr_def CHDIR_saved_def CHDIR_def upd_def
      plain_env_def split: option.split)

lemma fts_build_served:
  assumes E: "plain_env E" and s: "stands M p e sp" and e: "node_ok q l (Dir st cs) e" "0 \<le> l"
    and h: "holds (f_path sp) q" and t: "serves (env_rump E) left M anc q l (Dir st cs)"
    and anc: "ancs (f_store sp) (f_next sp) (n_parent e) anc"
  shows "\<exists>sp' ys. map snd ys = cs \<and> fts_build E BREAD sp = Some (next_id ys, sp') \<and>
    stands M p (if ys = [] then e\<lparr>n_info := FTS_DP\<rparr> else e) sp' \<and>
    (if ys = [] then holds (f_path sp') (base q)
     else take (length (base q) + 1) (f_path sp') = base q @ ''/'') \<and>
    x_ok (f_next sp) p (l + 1) q ys sp' \<and> (\<forall>i < f_next sp. i \<noteq> p \<longrightarrow> f_store sp' i = f_store sp i) \<and>
    f_next sp \<le> f_next sp'"
proof -
  let ?N = "f_next sp"
  have q: "length q + 1 < M" "NUL \<notin> set q" "q \<noteq> []" "l < SHRT_MAX" "opens_as (env_rump E) left q (map fst cs)"
    and cs: "serves_list (env_rump E) left M ((st_ino st, st_dev st) # anc) q (l + 1) cs"
    using t by auto
  note st = s [unfolded stands_def]
  obtain fd k' where fd: "sys_open (env_rump E) q (O_RDONLY OR O_DIRECTORY) 0 (kern (f_world sp)) = (Inr fd, k')"
    "reads_dir (env_rump E) fd (left fd)" "map d_name (filter (\<lambda>d. \<not> ISDOT (d_name d)) (live (left fd k'))) = map fst cs"
    using q(5) unfolding opens_as_def by blast
  define dirp where "dirp = \<lparr>dd_fd = fd, dd_ents = [], dd_off = 0\<rparr>"
  define w where "w = (f_world sp)\<lparr>kern := k'\<rparr>"
  have op: "fsu_opendir (env_rump E) q (f_world sp) = (Some dirp, w)"
    using call_Inr [of "sys_open (env_rump E) q (O_RDONLY OR O_DIRECTORY) 0" "f_world sp", OF fd(1)]
    by (simp add: fsu_opendir_def dirp_def w_def)
  have acc: "cstr_at (f_path sp) 0 = q" using holds_cstr h q(2) by blast
  have len: "length (base q) + 1 < M" using length_base(1) [of q] q(1) by linarith
  define b where "b = \<lparr>b_cur = p, b_len = length (base q) + 1, b_level = l + 1, b_cderrno = 0, b_nostat = False\<rparr>"
  define v where "v = \<lparr>v_head = None, v_tail = None, v_nitems = 0, v_maxlen = M - (length (base q) + 1),
      v_nlinks = -1, v_cp = length (base q) + 1, v_doadjust = False\<rparr>"
  define sp1 where "sp1 = sp\<lparr>f_world := w, f_path := (f_path sp)[length (base q) := CHR ''/'']\<rparr>"
  have pre: "take (length (base q) + 1) (f_path sp1) = base q @ ''/''"
  proof -
    have "take (length (base q)) (f_path sp) = take (length (base q)) (take (length q) (f_path sp))"
      using length_base(1) [of q] by simp
    also have "\<dots> = base q" using h by (simp add: holds_def base_def butlast_conv_take)
    finally show ?thesis using st len by (simp add: sp1_def take_Suc_conv_app_nth)
  qed
  have s1: "s_ok M ?N p q ((st_ino st, st_dev st) # anc) sp1"
    using st len pre anc e by (simp add: s_ok_def sp1_def node_ok_def)
  have b1: "b_ok b p (l + 1) q" and v1: "v_ok v M q []" and x1: "x_ok ?N p (l + 1) q [] sp1"
    by (simp_all add: b_ok_def v_ok_def x_ok_def b_def v_def)
  have pend: "pending (left fd) dirp (f_world sp1) = left fd k'" by (simp add: pending_def dirp_def sp1_def w_def)
  obtain v' dirp' sp2 ys where l: "build_loop E b dirp v sp1 = Some (True, v', dirp', sp2)" "map snd ys = cs"
    "v_ok v' M q ys" "s_ok M ?N p q ((st_ino st, st_dev st) # anc) sp2" "x_ok ?N p (l + 1) q ys sp2"
    "\<forall>i < ?N. f_store sp2 i = f_store sp1 i"
    using build_loop_served [OF E b1 _ _ cs v1 s1 x1, of dirp "left fd"] fd(2,3) pend
    by (auto simp: dirp_def)
  define sp3 where "sp3 = sp2\<lparr>f_world := fsu_closedir (env_rump E) dirp' (f_world sp2)\<rparr>"
  have s3: "s_ok M ?N p q ((st_ino st, st_dev st) # anc) sp3" using l(4) by (simp add: sp3_def s_ok_def)
  have e3: "f_store sp3 p = Some e" using l(6) st by (simp add: sp3_def sp1_def)
  have na: "NAPPEND (f_path sp) e = Some (length (base q))"
    using NAPPEND_base [of q "f_path sp" e] h q(3) e by (auto simp: holds_def node_ok_def)
  have build: "fts_build E BREAD sp = build_end E BREAD b True v' sp3"
    using st e q(4) acc op na len l(1) [unfolded b_def v_def]
    by (simp add: fts_build_def node_ok_def acc_string_def build_nlinks_def build_chdir_def CHDIR_def
        ISSET_plain wr_def b_def sp1_def [symmetric] sp3_def [symmetric])
  also note build_end_served [OF E b1 l(3) s3 e3]
  finally have build: "fts_build E BREAD sp = Some (next_id ys,
    if ys = [] then sp3\<lparr>f_path := (f_path sp3)[length (base q) := NUL], f_store := (f_store sp3)(p \<mapsto> e\<lparr>n_info := FTS_DP\<rparr>)\<rparr>
    else sp3\<lparr>f_path := (f_path sp3)[length (base q) + 1 := NUL]\<rparr>)" .
  note so = s3 [unfolded s_ok_def]
  have fr: "\<forall>i < ?N. f_store sp3 i = f_store sp i" using l(6) by (simp add: sp3_def sp1_def)
  have x3: "x_ok ?N p (l + 1) q ys sp3" using l(5) by (simp add: x_ok_def sp3_def)
  have pre3: "take (length (base q)) (f_path sp3) = base q"
  proof -
    have "take (length (base q)) (f_path sp3) = take (length (base q)) (take (length (base q) + 1) (f_path sp3))"
      by simp
    also have "\<dots> = base q" using so by (simp del: take_take)
    finally show ?thesis .
  qed
  show ?thesis
  proof (cases "ys = []")
    case True
    then show ?thesis
      using build l(2) so fr x3 pre3 st
      by (intro exI [of _ "sp3\<lparr>f_path := (f_path sp3)[length (base q) := NUL],
          f_store := (f_store sp3)(p \<mapsto> e\<lparr>n_info := FTS_DP\<rparr>)\<rparr>"] exI [of _ ys])
        (simp add: stands_def holds_def x_ok_def)
  next
    case False
    then show ?thesis
      using build l(2) so fr x3 e3 st
      by (intro exI [of _ "sp3\<lparr>f_path := (f_path sp3)[length (base q) + 1 := NUL]\<rparr>"] exI [of _ ys])
        (simp add: stands_def x_ok_def)
  qed
qed


section \<open>Reading on\<close>

lemma goto_name_served:
  assumes "f_store sp i = Some c" "n_parent c = p" "n_name c = n"
    and "f_store sp p = Some e" "n_pathlen e = length q" "q \<noteq> []"
    and pre: "take (length (base q) + 1) (f_path sp) = base q @ ''/''"
    and len: "length (sub q n) < length (f_path sp)"
  shows "\<exists>b. goto_name i sp = Some (Some i, sp\<lparr>f_path := b, f_cur := Some i\<rparr>) \<and>
    length b = length (f_path sp) \<and> holds b (sub q n)"
proof -
  have l: "length (base q) < length (f_path sp)" "length q \<le> length (f_path sp)"
    using len length_base(2) [of q] by (simp_all add: sub_def)
  have na: "NAPPEND (f_path sp) e = Some (length (base q))"
    using take_base [OF pre l(1)] assms(5,6) l(2) by (intro NAPPEND_base)
  have pre': "take (length (base q)) (f_path sp) = base q"
  proof -
    have "take (length (base q)) (f_path sp) = take (length (base q)) (take (length (base q) + 1) (f_path sp))"
      by simp
    also have "\<dots> = base q" unfolding pre by simp
    finally show ?thesis .
  qed
  obtain b1 b where "wr (f_path sp) (length (base q)) CHR ''/'' = Some b1"
    "put_str b1 (length (base q) + 1) n = Some b" "length b = length (f_path sp)" "holds b (sub q n)"
    using put_name [OF pre' len] by blast
  then show ?thesis using assms na by (intro exI [of _ b]) (simp add: goto_name_def)
qed

lemma instr_idem: "n_instr e = FTS_NOINSTR \<Longrightarrow> e\<lparr>n_instr := FTS_NOINSTR\<rparr> = e"
  by (cases e) simp

lemma upd_idem: "f_store sp p = Some e \<Longrightarrow> f e = e \<Longrightarrow> upd p f sp = Some sp"
  by (cases sp) (auto simp: upd_def fun_upd_idem)

lemma fts_read_next:
  assumes "stands M p e sp" "n_instr e = FTS_NOINSTR" "n_info e \<noteq> FTS_D"
  shows "fts_read E sp = fts_next E p sp"
  using assms upd_idem [of sp p e "n_instr_update (\<lambda>_. FTS_NOINSTR)"] instr_idem [of e]
  by (simp add: fts_read_def stands_def ISSET_plain)

lemma fts_read_descend:
  assumes "stands M p e sp" "n_instr e = FTS_NOINSTR" "n_info e = FTS_D"
  shows "fts_read E sp =
    do { (c, sp) \<leftarrow> fts_build E BREAD sp;
         case c of
           None \<Rightarrow> Some (if ISSET FTS_STOP sp then None else Some p, sp)
         | Some c \<Rightarrow> goto_name c (sp\<lparr>f_child := None\<rparr>) }"
  using assms upd_idem [of sp p e "n_instr_update (\<lambda>_. FTS_NOINSTR)"] instr_idem [of e]
  by (simp add: fts_read_def stands_def ISSET_plain fts_descend_def)

lemma visits_hd: "visits q l t = (info_of t, q, l) # tl (visits q l t)"
  by (cases t) simp_all

lemma seen_stands: "stands M p e sp \<Longrightarrow> holds (f_path sp) q \<Longrightarrow> NUL \<notin> set q \<Longrightarrow>
    seen sp p = Some (n_info e, q, n_level e)"
  by (simp add: seen_def stands_def holds_cstr)

text \<open>The reading of a whole subtree, its root being the current node.\<close>

definition subtree_walks :: "'k fts_env \<Rightarrow> 'k unread \<Rightarrow> nat \<Rightarrow> ftree \<Rightarrow> bool" where
  "subtree_walks E left M t \<longleftrightarrow>
     (\<forall>q l anc sp p e. stands M p e sp \<longrightarrow> node_ok q l t e \<longrightarrow> n_info e = info_of t \<longrightarrow> 0 \<le> l \<longrightarrow>
        holds (f_path sp) q \<longrightarrow> serves (env_rump E) left M anc q l t \<longrightarrow>
        ancs (f_store sp) (f_next sp) (n_parent e) anc \<longrightarrow>
        (\<exists>sp' i'. walks E sp (tl (visits q l t)) sp' \<and> stands M p (e\<lparr>n_info := i'\<rparr>) sp' \<and> i' \<noteq> FTS_D \<and>
           take (length (base q)) (f_path sp') = base q \<and> f_next sp \<le> f_next sp' \<and>
           (\<forall>i < f_next sp. i \<noteq> p \<longrightarrow> f_store sp' i = f_store sp i)))"

lemma holds_take_base: "holds b q \<Longrightarrow> take (length (base q)) b = base q"
proof -
  assume h: "holds b q"
  have "take (length (base q)) b = take (length (base q)) (take (length q) b)"
    using length_base(1) [of q] by simp
  also have "\<dots> = base q" using h by (simp add: holds_def base_def butlast_conv_take)
  finally show ?thesis .
qed

lemma subtree_walks_Leaf: "subtree_walks E left M (Leaf st)"
  unfolding subtree_walks_def
proof (intro allI impI)
  fix q l anc and sp :: "'a fts" and p e
  assume a: "stands M p e sp" "n_info e = info_of (Leaf st)" "holds (f_path sp) q"
  have "e\<lparr>n_info := leaf_info st\<rparr> = e" using a(2) by (cases e) simp
  moreover have "leaf_info st \<noteq> FTS_D" by (simp add: leaf_info_def)
  ultimately show "\<exists>sp' i'. walks E sp (tl (visits q l (Leaf st))) sp' \<and> stands M p (e\<lparr>n_info := i'\<rparr>) sp' \<and> i' \<noteq> FTS_D \<and>
      take (length (base q)) (f_path sp') = base q \<and> f_next sp \<le> f_next sp' \<and>
      (\<forall>i < f_next sp. i \<noteq> p \<longrightarrow> f_store sp' i = f_store sp i)"
    using a(1) holds_take_base [OF a(3)]
    by (intro exI [of _ sp] exI [of _ "leaf_info st"]) (simp add: walks_refl)
qed

lemma CHDIR_plain:
  "f_options sp = PLAIN \<Longrightarrow> CHDIR E sp d = (False, sp)"
  "f_options sp = PLAIN \<Longrightarrow> CHDIR_saved E sp d' = (False, sp)"
  by (simp_all add: CHDIR_saved_def CHDIR_def ISSET_plain split: option.split)

text \<open>Back from a list of children to their directory.\<close>

lemma fts_up_served:
  assumes s: "stands M i c sp" and c: "n_parent c = p" "i \<noteq> p" and p: "f_store sp p = Some e" "p < f_next sp"
    and e: "node_ok q l t e" "0 \<le> l" and pre: "take (length (base q) + 1) (f_path sp) = base q @ ''/''"
    and len: "length q + 1 < M"
  shows "\<exists>sp'. fts_up E i sp = Some (Some p, sp') \<and> stands M p (e\<lparr>n_info := FTS_DP\<rparr>) sp' \<and>
    holds (f_path sp') q \<and> f_next sp' = f_next sp \<and> (\<forall>j. j \<noteq> p \<longrightarrow> j \<noteq> i \<longrightarrow> f_store sp' j = f_store sp j)"
proof -
  define sp' where "sp' = sp\<lparr>f_path := (f_path sp)[length q := NUL], f_cur := Some p,
    f_store := (f_store sp)(i := None, p \<mapsto> e\<lparr>n_info := FTS_DP\<rparr>)\<rparr>"
  have "fts_up E i sp = Some (Some p, sp')"
    using s c p e len
    by (simp add: fts_up_def stands_def fts_free_def node_ok_def wr_def CHDIR_plain upd_def sp'_def Let_def)
  moreover have "stands M p (e\<lparr>n_info := FTS_DP\<rparr>) sp'"
    using s p by (simp add: stands_def sp'_def)
  moreover have "holds (f_path sp') q"
    using holds_up [OF pre] s len length_base(1) [of q] by (simp add: sp'_def stands_def)
  ultimately show ?thesis by (intro exI [of _ sp']) (simp add: sp'_def)
qed

text \<open>On to the next node of a list.\<close>

lemma fts_next_served:
  assumes s: "stands M i c sp" and c: "n_link c = Some j" "i \<noteq> j" "i \<noteq> p"
    and p: "f_store sp p = Some e" and e: "node_ok q l t e" "0 \<le> l" "q \<noteq> []"
    and j: "f_store sp j = Some d" "fresh p (l + 1) q m u d" "j < f_next sp"
    and pre: "take (length (base q) + 1) (f_path sp) = base q @ ''/''" and len: "length (sub q m) < M"
  shows "\<exists>sp'. fts_next E i sp = Some (Some j, sp') \<and> stands M j d sp' \<and> holds (f_path sp') (sub q m) \<and>
    f_next sp' = f_next sp \<and> (\<forall>k. k \<noteq> i \<longrightarrow> f_store sp' k = f_store sp k)"
proof -
  let ?sp = "sp\<lparr>f_store := (f_store sp)(i := None)\<rparr>"
  obtain b where b: "goto_name j ?sp = Some (Some j, ?sp\<lparr>f_path := b, f_cur := Some j\<rparr>)"
    "length b = M" "holds b (sub q m)"
    using goto_name_served [of ?sp j d p m e q] s c p e j pre len
    by (auto simp: stands_def fresh_def node_ok_def)
  have "fts_next E i sp = Some (Some j, ?sp\<lparr>f_path := b, f_cur := Some j\<rparr>)"
    using s c j b(1) e(2) by (subst fts_next.simps) (simp add: stands_def fts_free_def fresh_def node_ok_def CHDIR_plain)
  then show ?thesis using s c j b by (intro exI [of _ "?sp\<lparr>f_path := b, f_cur := Some j\<rparr>"]) (simp add: stands_def)
qed


text \<open>A list of siblings, the first of them being the current node, and then their directory.\<close>

lemma visits_list_hd: "visits_list q l ((n, t) # cs) = (info_of t, sub q n, l) # tl (visits_list q l ((n, t) # cs))"
  by (cases t) simp_all

lemma visits_list_tl: "tl (visits_list q l ((n, t) # cs)) = tl (visits (sub q n) l t) @ visits_list q l cs"
  by (cases t) simp_all

lemma take_base_sub:
  assumes "take (length (base (sub q n))) b = base (sub q n)" "n \<noteq> []"
  shows "take (length (base q) + 1) b = base q @ ''/''"
proof -
  have n: "base (sub q n) = base q @ CHR ''/'' # base n"
    using assms(2) by (auto simp: base_def sub_def butlast_append)
  have "take (length (base q) + 1) b = take (length (base q) + 1) (take (length (base (sub q n))) b)"
    by (simp add: n)
  also have "\<dots> = base q @ ''/''" unfolding assms(1) by (simp add: n)
  finally show ?thesis .
qed

text \<open>The stream at the node \<open>i\<close>, the first of a list of siblings below the node \<open>p\<close>.\<close>

definition at_sibling ::
  "nat \<Rightarrow> nat \<Rightarrow> ptr \<Rightarrow> fts_node \<Rightarrow> string \<Rightarrow> int \<Rightarrow> (64 word \<times> 64 word) list \<Rightarrow> (ptr \<times> string \<times> ftree) list \<Rightarrow> 'k fts \<Rightarrow> bool"
where
  "at_sibling M N p e q l anc ys sp \<longleftrightarrow>
     (\<exists>c. stands M (fst (hd ys)) c sp) \<and> ys \<noteq> [] \<and> x_ok N p (l + 1) q ys sp \<and> f_store sp p = Some e \<and>
     p < N \<and> N \<le> f_next sp \<and> holds (f_path sp) (sub q (fst (snd (hd ys)))) \<and> ancs (f_store sp) N p anc"

lemma sibling_subtree:
  assumes w: "subtree_walks E left M t" and a: "at_sibling M N p e q l anc ((i, n, t) # ys) sp"
    and l: "0 \<le> l" and n: "n \<noteq> []" and t: "serves (env_rump E) left M anc (sub q n) (l + 1) t"
  shows "\<exists>sp1 c. walks E sp (tl (visits (sub q n) (l + 1) t)) sp1 \<and> stands M i c sp1 \<and> n_info c \<noteq> FTS_D \<and>
    n_instr c = FTS_NOINSTR \<and> n_parent c = p \<and> n_link c = next_id ys \<and> i \<noteq> p \<and> i \<notin> fst ` set ys \<and>
    take (length (base q) + 1) (f_path sp1) = base q @ ''/'' \<and> x_ok N p (l + 1) q ys sp1 \<and>
    N \<le> f_next sp1 \<and> (\<forall>j < N. f_store sp1 j = f_store sp j)"
proof -
  note a = a [unfolded at_sibling_def x_ok_def]
  obtain c where c: "stands M i c sp" "fresh p (l + 1) q n t c" "n_link c = next_id ys"
    using a by (auto simp: stands_def)
  have i: "N \<le> i" "i < f_next sp" "p < N" "i \<notin> fst ` set ys" using a by auto
  have f: "n_parent c = p" "node_ok (sub q n) (l + 1) t c" "n_info c = info_of t"
    using c(2) by (auto simp: fresh_def)
  have "ancs (f_store sp) (f_next sp) (n_parent c) anc"
    using a f(1) ancs_mono [of N "f_next sp" "f_store sp" p anc] by simp
  then obtain sp1 i' where s: "walks E sp (tl (visits (sub q n) (l + 1) t)) sp1" "stands M i (c\<lparr>n_info := i'\<rparr>) sp1"
    "i' \<noteq> FTS_D" "take (length (base (sub q n))) (f_path sp1) = base (sub q n)" "f_next sp \<le> f_next sp1"
    "\<forall>j < f_next sp. j \<noteq> i \<longrightarrow> f_store sp1 j = f_store sp j"
    using w [unfolded subtree_walks_def, rule_format, of i c sp "sub q n" "l + 1" anc] c(1) f(2,3) l t a by auto
  have "chain (fresh p (l + 1) q) (f_store sp1) ys"
  proof (rule chain_cong)
    show "f_store sp1 j = f_store sp j" if "j \<in> fst ` set ys" for j using that s(6) a i(4) by auto
  qed (use a in simp)
  then have "x_ok N p (l + 1) q ys sp1" using a s(5) by (auto simp: x_ok_def)
  then show ?thesis
    using s i c(3) f(1,2) n take_base_sub [OF s(4)] a
    by (intro exI [of _ sp1] exI [of _ "c\<lparr>n_info := i'\<rparr>"]) (auto simp: node_ok_def)
qed

lemma siblings_walk:
  assumes "\<forall>t \<in> snd ` set (map snd ys). subtree_walks E left M t"
    and "at_sibling M N p e q l anc ys sp"
    and e: "node_ok q l u e" "0 \<le> l" "q \<noteq> []" "length q + 1 < M" "NUL \<notin> set q"
    and "serves_list (env_rump E) left M anc q (l + 1) (map snd ys)"
  shows "\<exists>sp'. walks E sp (tl (visits_list q (l + 1) (map snd ys)) @ [(FTS_DP, q, l)]) sp' \<and>
    stands M p (e\<lparr>n_info := FTS_DP\<rparr>) sp' \<and> holds (f_path sp') q \<and> N \<le> f_next sp' \<and>
    (\<forall>j < N. j \<noteq> p \<longrightarrow> f_store sp' j = f_store sp j)"
  using assms(1,2,8)
proof (induction ys arbitrary: sp)
  case Nil
  then show ?case by (simp add: at_sibling_def)
next
  case (Cons y ys)
  obtain i n t where y: "y = (i, n, t)" by (cases y)
  have t: "n \<noteq> []" "serves (env_rump E) left M anc (sub q n) (l + 1) t"
    "serves_list (env_rump E) left M anc q (l + 1) (map snd ys)" "subtree_walks E left M t"
    using Cons.prems y by auto
  note a = Cons.prems(2) [unfolded at_sibling_def]
  have p: "f_store sp p = Some e" "p < N" "ancs (f_store sp) N p anc" using a by auto
  obtain sp1 c where s1: "walks E sp (tl (visits (sub q n) (l + 1) t)) sp1" "stands M i c sp1" "n_info c \<noteq> FTS_D"
    "n_instr c = FTS_NOINSTR" "n_parent c = p" "n_link c = next_id ys" "i \<noteq> p" "i \<notin> fst ` set ys"
    "take (length (base q) + 1) (f_path sp1) = base q @ ''/''" "x_ok N p (l + 1) q ys sp1" "N \<le> f_next sp1"
    "\<forall>j < N. f_store sp1 j = f_store sp j"
    using sibling_subtree [OF t(4) Cons.prems(2) [unfolded y] e(2) t(1,2)] by blast
  have p1: "f_store sp1 p = Some e" using s1(12) p by simp
  show ?case
  proof (cases "ys = []")
    case True
    obtain sp' where u: "fts_up E i sp1 = Some (Some p, sp')" "stands M p (e\<lparr>n_info := FTS_DP\<rparr>) sp'"
      "holds (f_path sp') q" "f_next sp' = f_next sp1" "\<forall>j. j \<noteq> p \<longrightarrow> j \<noteq> i \<longrightarrow> f_store sp' j = f_store sp1 j"
      using fts_up_served [OF s1(2,5,7) p1 _ e(1,2) s1(9) e(4)] p(2) s1(11) by auto
    have "fts_read E sp1 = Some (Some p, sp')"
      using fts_read_next [OF s1(2,4,3)] u(1) s1(2,6) True by (simp add: fts_next.simps stands_def)
    moreover have "seen sp' p = Some (FTS_DP, q, l)"
      using seen_stands [OF u(2,3) e(5)] e(1) by (simp add: node_ok_def)
    ultimately have "walks E sp (tl (visits (sub q n) (l + 1) t) @ [(FTS_DP, q, l)]) sp'"
      using s1(1) walks_one walks_append by blast
    moreover have "N \<le> i" using a y by (auto simp: x_ok_def)
    ultimately show ?thesis using u s1(11,12) y True
      by (intro exI [of _ sp']) (simp add: visits_list_tl del: visits_list.simps(2))
  next
    case False
    then obtain j m v ys' where ys: "ys = (j, m, v) # ys'" by (cases ys) auto
    obtain d where d: "f_store sp1 j = Some d" "fresh p (l + 1) q m v d" "j < f_next sp1"
      using s1(10) ys by (auto simp: x_ok_def)
    have m: "length (sub q m) < M" "NUL \<notin> set (sub q m)"
      using t(3) ys serves_stat [of "env_rump E" left M anc "sub q m"] by auto
    obtain sp2 where n: "fts_next E i sp1 = Some (Some j, sp2)" "stands M j d sp2" "holds (f_path sp2) (sub q m)"
      "f_next sp2 = f_next sp1" "\<forall>k. k \<noteq> i \<longrightarrow> f_store sp2 k = f_store sp1 k"
      using fts_next_served [OF s1(2) _ _ s1(7) p1 e(1,2,3) d s1(9) m(1), of E] s1(6,8) ys by auto
    have "fts_read E sp1 = Some (Some j, sp2)" using fts_read_next [OF s1(2,4,3)] n(1) by simp
    moreover have "seen sp2 j = Some (info_of v, sub q m, l + 1)"
      using seen_stands [OF n(2,3) m(2)] d(2) by (simp add: fresh_def node_ok_def)
    ultimately have w: "walks E sp (tl (visits (sub q n) (l + 1) t) @ [(info_of v, sub q m, l + 1)]) sp2"
      using s1(1) walks_one walks_append by blast
    have Ni: "N \<le> i" using a y by (auto simp: x_ok_def)
    have "chain (fresh p (l + 1) q) (f_store sp2) ys"
    proof (rule chain_cong)
      show "f_store sp2 k = f_store sp1 k" if "k \<in> fst ` set ys" for k using that n(5) s1(8) by auto
    qed (use s1(10) in \<open>simp add: x_ok_def\<close>)
    then have "at_sibling M N p e q l anc ys sp2"
      using n s1(10,11) ys p p1 s1(7,12) Ni
        ancs_cong [of N "f_store sp2" "f_store sp" p anc]
      by (auto simp: at_sibling_def x_ok_def)
    then obtain sp' where "walks E sp2 (tl (visits_list q (l + 1) (map snd ys)) @ [(FTS_DP, q, l)]) sp'"
      and r: "stands M p (e\<lparr>n_info := FTS_DP\<rparr>) sp'" "holds (f_path sp') q" "N \<le> f_next sp'"
      "\<forall>j < N. j \<noteq> p \<longrightarrow> f_store sp' j = f_store sp2 j"
      using Cons.IH [of sp2] Cons.prems(1) t(3) by auto
    from walks_append [OF w this(1)]
    have "walks E sp (tl (visits_list q (l + 1) (map snd (y # ys))) @ [(FTS_DP, q, l)]) sp'"
      using visits_list_hd [of q "l + 1" m v "map snd ys'"]
      by (simp add: y ys visits_list_tl del: visits_list.simps(2))
    then show ?thesis using r n(5) s1(12) Ni by (intro exI [of _ sp']) simp
  qed
qed


lemma subtree_walks_Dir:
  assumes E: "plain_env E" and w: "\<forall>t \<in> snd ` set cs. subtree_walks E left M t"
  shows "subtree_walks E left M (Dir st cs)"
  unfolding subtree_walks_def
proof (intro allI impI)
  fix q l anc and sp :: "'a fts" and p e
  let ?N = "f_next sp" and ?anc = "(st_ino st, st_dev st) # anc"
  assume s: "stands M p e sp" and e: "node_ok q l (Dir st cs) e" and i: "n_info e = info_of (Dir st cs)"
    and l: "0 \<le> l" and h: "holds (f_path sp) q" and t: "serves (env_rump E) left M anc q l (Dir st cs)"
    and anc: "ancs (f_store sp) ?N (n_parent e) anc"
  have q: "length q + 1 < M" "NUL \<notin> set q" "q \<noteq> []" "serves_list (env_rump E) left M ?anc q (l + 1) cs"
    using t by auto
  obtain sp1 ys where b: "map snd ys = cs" "fts_build E BREAD sp = Some (next_id ys, sp1)"
    "stands M p (if ys = [] then e\<lparr>n_info := FTS_DP\<rparr> else e) sp1"
    "if ys = [] then holds (f_path sp1) (base q) else take (length (base q) + 1) (f_path sp1) = base q @ ''/''"
    "x_ok ?N p (l + 1) q ys sp1" "\<forall>i < ?N. i \<noteq> p \<longrightarrow> f_store sp1 i = f_store sp i" "?N \<le> f_next sp1"
    using fts_build_served [OF E s e l h t anc] by blast
  have instr: "n_instr e = FTS_NOINSTR" using e by (simp add: node_ok_def)
  note r = fts_read_descend [OF s instr i [simplified], of E, unfolded b(2)]
  show "\<exists>sp' i'. walks E sp (tl (visits q l (Dir st cs))) sp' \<and> stands M p (e\<lparr>n_info := i'\<rparr>) sp' \<and> i' \<noteq> FTS_D \<and>
      take (length (base q)) (f_path sp') = base q \<and> f_next sp \<le> f_next sp' \<and>
      (\<forall>i < f_next sp. i \<noteq> p \<longrightarrow> f_store sp' i = f_store sp i)"
  proof (cases "ys = []")
    case True
    have s1: "stands M p (e\<lparr>n_info := FTS_DP\<rparr>) sp1" and h1: "holds (f_path sp1) (base q)" using b True by auto
    have "NUL \<notin> set (base q)" using q(2) by (auto simp: base_def dest: in_set_butlastD)
    then have "seen sp1 p = Some (FTS_DP, base q, l)"
      using seen_stands [OF s1 h1] e by (simp add: node_ok_def)
    moreover have "fts_read E sp = Some (Some p, sp1)"
      using r True s1 by (simp add: stands_def ISSET_plain)
    moreover have "cs = []" using b(1) True by simp
    ultimately have "walks E sp (tl (visits q l (Dir st cs))) sp1" using walks_one by auto
    then show ?thesis using s1 h1 b by (intro exI [of _ sp1] exI [of _ FTS_DP]) (simp add: holds_def)
  next
    case False
    then obtain i n t ys' where ys: "ys = (i, n, t) # ys'" by (cases ys) auto
    have s1: "stands M p e sp1" and h1: "take (length (base q) + 1) (f_path sp1) = base q @ ''/''"
      using b False by auto
    obtain c where c: "f_store sp1 i = Some c" "fresh p (l + 1) q n t c" "i < f_next sp1"
      using b(5) ys by (auto simp: x_ok_def)
    have n: "length (sub q n) < M" "NUL \<notin> set (sub q n)"
      using q(4) ys b(1) serves_stat [of "env_rump E" left M ?anc "sub q n" "l + 1" t] by auto
    let ?sp1 = "sp1\<lparr>f_child := None\<rparr>"
    obtain pb where nm: "goto_name i ?sp1 = Some (Some i, ?sp1\<lparr>f_path := pb, f_cur := Some i\<rparr>)"
      "length pb = M" "holds pb (sub q n)"
      using goto_name_served [of ?sp1 i c p n e q] s1 c e q(3) h1 n(1)
      by (auto simp: stands_def fresh_def node_ok_def)
    define sp2 where "sp2 = ?sp1\<lparr>f_path := pb, f_cur := Some i\<rparr>"
    have "fts_read E sp = Some (Some i, sp2)" using r ys nm(1) by (simp add: sp2_def)
    moreover have s2: "stands M i c sp2" using s1 c nm(2) by (simp add: stands_def sp2_def)
    moreover have h2: "holds (f_path sp2) (sub q n)" using nm(3) by (simp add: sp2_def)
    ultimately have w1: "walks E sp [(info_of t, sub q n, l + 1)] sp2"
      using walks_one seen_stands [OF s2 h2 n(2)] c(2) by (simp add: fresh_def node_ok_def)
    have p: "p < ?N" using s by (simp add: stands_def)
    have "ancs (f_store sp2) ?N p ?anc"
    proof -
      have "ancs (f_store sp) ?N p ?anc" using s anc e l by (simp add: stands_def node_ok_def)
      moreover have "f_store sp2 j = f_store sp j" if "j < ?N" for j
        using that b(6) s s1 by (cases "j = p") (simp_all add: sp2_def stands_def)
      ultimately show ?thesis by (rule ancs_cong [rotated])
    qed
    then have at: "at_sibling M ?N p e q l ?anc ys sp2"
      using s2 h2 ys b(5,7) s1 p by (simp add: at_sibling_def x_ok_def sp2_def stands_def)
    obtain sp' where w2: "walks E sp2 (tl (visits_list q (l + 1) cs) @ [(FTS_DP, q, l)]) sp'"
      and f: "stands M p (e\<lparr>n_info := FTS_DP\<rparr>) sp'" "holds (f_path sp') q" "?N \<le> f_next sp'"
      "\<forall>j < ?N. j \<noteq> p \<longrightarrow> f_store sp' j = f_store sp2 j"
      using siblings_walk [where E = E and left = left, OF _ at e l q(3,1,2), unfolded b(1), OF w q(4)] by auto
    obtain vs where "visits_list q (l + 1) cs = (info_of t, sub q n, l + 1) # vs"
      using visits_list_hd [of q "l + 1" n t "map snd ys'"] b(1) ys by (auto simp del: visits_list.simps(2))
    moreover have "cs \<noteq> []" using b(1) ys by auto
    ultimately have "walks E sp (tl (visits q l (Dir st cs))) sp'" using walks_append [OF w1 w2] by simp
    then show ?thesis using f holds_take_base [OF f(2)] b(6)
      by (intro exI [of _ sp'] exI [of _ FTS_DP]) (simp add: sp2_def)
  qed
qed

lemma subtree_walks_all: "plain_env E \<Longrightarrow> subtree_walks E left M t"
proof (induction t)
  case (Leaf st)
  show ?case by (rule subtree_walks_Leaf)
next
  case (Dir st cs)
  have "subtree_walks E left M t" if "t \<in> snd ` set cs" for t
    using that Dir by (metis imageE snds.intros prod.collapse)
  then show ?case using Dir.prems by (intro subtree_walks_Dir) auto
qed


section \<open>The roots\<close>

definition root_ok :: "ptr \<Rightarrow> string \<Rightarrow> ftree \<Rightarrow> fts_node \<Rightarrow> bool" where
  "root_ok par a t e \<longleftrightarrow> n_name e = a \<and> n_parent e = par \<and> n_level e = 0 \<and> n_errno e = 0 \<and>
     n_instr e = FTS_NOINSTR \<and> \<not> n_symfollow e \<and> dir_ids t e \<and> n_info e = info_of t"

lemma root_ok_link: "root_ok par a t (e\<lparr>n_link := x\<rparr>) = root_ok par a t e"
  by (simp add: root_ok_def)

definition roots_ok :: "nat \<Rightarrow> ptr \<Rightarrow> (ptr \<times> string \<times> ftree) list \<Rightarrow> 'k fts \<Rightarrow> bool" where
  "roots_ok N par xs sp \<longleftrightarrow> f_options sp = PLAIN \<and> f_child sp = None \<and> chain (root_ok par) (f_store sp) xs \<and>
     distinct (map fst xs) \<and> (\<forall>i \<in> fst ` set xs. N \<le> i \<and> i < f_next sp) \<and>
     par < N \<and> N \<le> f_next sp \<and> (\<exists>e. f_store sp par = Some e \<and> n_level e = -1)"

lemma open_root:
  assumes E: "plain_env E" and x: "roots_ok N par xs sp" and t: "serves (env_rump E) left M [] a 0 t"
    and r: "root = next_id xs" "xs \<noteq> [] \<longrightarrow> tmp = Some (fst (last xs))"
  shows "\<exists>h. open_roots E par (a # argv) root tmp n sp =
      open_roots E par argv (next_id (xs @ [(f_next sp, a, t)])) (Some (f_next sp)) (Suc n)
        (sp\<lparr>f_next := Suc (f_next sp), f_store := h\<rparr>) \<and>
    roots_ok N par (xs @ [(f_next sp, a, t)]) (sp\<lparr>f_next := Suc (f_next sp), f_store := h\<rparr>)"
proof -
  define i where "i = f_next sp"
  note x = x [unfolded roots_ok_def]
  have o: "f_options sp = PLAIN" and Ni: "N \<le> i" "par < N" using x by (auto simp: i_def)
  obtain pe where pe: "f_store sp par = Some pe" "n_level pe = -1" using x by blast
  have a: "a \<noteq> []" using serves_stat [OF t] by blast
  define e1 where "e1 = (env_junk E)\<lparr>n_statp := Some (file_stat 0), n_name := a, n_errno := 0,
      n_dontchdir := False, n_symfollow := False, n_instr := FTS_NOINSTR, n_number := 0,
      n_level := 0, n_parent := par, n_accpath := Name_Of i\<rparr>"
  define sp1 where "sp1 = sp\<lparr>f_next := Suc i, f_store := (f_store sp)(i \<mapsto> e1)\<rparr>"
  define e2 where "e2 = (with_stat t e1)\<lparr>n_info := info_of t\<rparr>"
  have al: "fts_alloc E a sp = (Some i, sp\<lparr>f_next := Suc i,
      f_store := (f_store sp)(i \<mapsto> (env_junk E)\<lparr>n_statp := Some (file_stat 0), n_name := a, n_errno := 0,
      n_dontchdir := False, n_symfollow := False, n_instr := FTS_NOINSTR, n_number := 0\<rparr>)\<rparr>)"
    using E o by (simp add: fts_alloc_def plain_env_def ISSET_plain Let_def i_def)
  have "ancs (f_store sp1) N (n_parent e1) []" using pe Ni by (simp add: sp1_def e1_def)
  then have "fts_stat E i False sp1 =
      Some (if ISDOT (n_name e1) \<and> info_of t = FTS_D then FTS_DOT else info_of t,
        sp1\<lparr>f_store := (f_store sp1)(i \<mapsto> with_stat t e1)\<rparr>)"
    using fts_stat_served [OF t, where N = N and sp = sp1 and p = i and e = e1] o Ni
    by (simp add: sp1_def e1_def acc_string_def)
  moreover have "info_of t \<noteq> FTS_DOT" by (cases t) (simp_all add: leaf_info_def)
  ultimately obtain info where stat: "fts_stat E i False sp1 = Some (info, sp1\<lparr>f_store := (f_store sp1)(i \<mapsto> with_stat t e1)\<rparr>)"
    "(if info = FTS_DOT then FTS_D else info) = info_of t"
    by (auto split: if_splits)
  have ix: "i \<notin> fst ` set xs" using x by (auto simp: i_def)
  define h where "h = attached (f_store sp) i (e2\<lparr>n_link := None\<rparr>) xs"
  have hf: "h j = f_store sp j" if "j < N" for j
    unfolding h_def using that Ni x by (intro attached_frame) auto
  have "open_roots E par (a # argv) root tmp n sp =
      open_roots E par argv (next_id (xs @ [(i, a, t)])) (Some i) (Suc n) (sp\<lparr>f_next := Suc i, f_store := h\<rparr>)"
  proof (cases "xs = []")
    case True
    then show ?thesis using a al stat E o r
      by (simp add: upd_def plain_env_def ISSET_plain sp1_def e1_def h_def attached_def e2_def)
  next
    case False
    obtain e' where e': "f_store sp (fst (last xs)) = Some e'" using chain_last [OF _ False] x by blast
    have "fst (last xs) \<in> fst ` set xs" using False by simp
    then have "fst (last xs) \<noteq> i" using ix by metis
    then show ?thesis using a al stat E o r False e'
      by (cases xs) (simp_all add: upd_def plain_env_def ISSET_plain sp1_def e1_def h_def attached_def e2_def)
  qed
  moreover have "roots_ok N par (xs @ [(i, a, t)]) (sp\<lparr>f_next := Suc i, f_store := h\<rparr>)"
  proof -
    have "chain (root_ok par) h (xs @ [(i, a, t)])"
      unfolding h_def using x ix by (intro chain_attached) (auto simp: root_ok_def e2_def e1_def)
    then show ?thesis using x ix hf [of par] Ni by (auto simp: roots_ok_def i_def)
  qed
  ultimately show ?thesis unfolding i_def by blast
qed

lemma open_roots_served:
  assumes E: "plain_env E" and "roots_ok N par xs sp" "\<forall>(a, t) \<in> set cs. serves (env_rump E) left M [] a 0 t"
    and "root = next_id xs" "xs \<noteq> [] \<longrightarrow> tmp = Some (fst (last xs))"
  shows "\<exists>h N' ys. open_roots E par (map fst cs) root tmp n sp =
      Some (True, next_id (xs @ ys), n + length cs, sp\<lparr>f_next := N', f_store := h\<rparr>) \<and>
    map snd ys = cs \<and> roots_ok N par (xs @ ys) (sp\<lparr>f_next := N', f_store := h\<rparr>)"
  using assms(2-)
proof (induction cs arbitrary: xs root tmp n sp)
  case Nil
  then show ?case by (intro exI [of _ "f_store sp"] exI [of _ "f_next sp"] exI [of _ "[]"]) simp
next
  case (Cons c cs)
  obtain a t where c: "c = (a, t)" by (cases c)
  obtain h where h: "open_roots E par (a # map fst cs) root tmp n sp =
      open_roots E par (map fst cs) (next_id (xs @ [(f_next sp, a, t)])) (Some (f_next sp)) (Suc n)
        (sp\<lparr>f_next := Suc (f_next sp), f_store := h\<rparr>)"
    "roots_ok N par (xs @ [(f_next sp, a, t)]) (sp\<lparr>f_next := Suc (f_next sp), f_store := h\<rparr>)"
    using open_root [OF E Cons.prems(1) _ Cons.prems(3,4), where left = left and M = M and a = a and t = t and argv = "map fst cs" and n = n]
      Cons.prems(2) c by (auto simp del: open_roots.simps)
  obtain h' N' ys where "open_roots E par (map fst cs) (next_id (xs @ [(f_next sp, a, t)])) (Some (f_next sp)) (Suc n)
        (sp\<lparr>f_next := Suc (f_next sp), f_store := h\<rparr>) =
      Some (True, next_id ((xs @ [(f_next sp, a, t)]) @ ys), Suc n + length cs, sp\<lparr>f_next := N', f_store := h'\<rparr>)"
    "map snd ys = cs" "roots_ok N par ((xs @ [(f_next sp, a, t)]) @ ys) (sp\<lparr>f_next := N', f_store := h'\<rparr>)"
    using Cons.IH [OF h(2), of "next_id (xs @ [(f_next sp, a, t)])" "Some (f_next sp)" "Suc n"] Cons.prems(2) by auto
  then show ?case using h(1) c
    by (intro exI [of _ h'] exI [of _ N'] exI [of _ "(f_next sp, a, t) # ys"]) (simp del: open_roots.simps)
qed

lemma fts_load_served:
  assumes "f_store sp i = Some e" "root_ok par a t e" "length a < length (f_path sp)"
  shows "\<exists>c sp'. fts_load i sp = Some sp' \<and> f_store sp' = (f_store sp)(i \<mapsto> c) \<and> node_ok a 0 t c \<and>
    n_info c = info_of t \<and> n_parent c = par \<and> n_link c = n_link e \<and> holds (f_path sp') a \<and>
    length (f_path sp') = length (f_path sp) \<and> f_options sp' = f_options sp \<and> f_child sp' = f_child sp \<and>
    f_pathlen sp' = f_pathlen sp \<and> f_next sp' = f_next sp"
proof -
  define b where "b = a @ NUL # drop (length a + 1) (f_path sp)"
  have "put_str (f_path sp) 0 a = Some b" using assms(3) by (simp add: put_str_def b_def)
  moreover have "holds b a" "length b = length (f_path sp)" using assms(3) by (simp_all add: holds_def b_def)
  moreover have "dir_ids t (e\<lparr>n_pathlen := x, n_name := y, n_accpath := z\<rparr>) = dir_ids t e" for x y z
    by (cases t) simp_all
  ultimately show ?thesis using assms(1,2)
    by (auto simp: fts_load_def root_ok_def node_ok_def upd_def Let_def)
qed


text \<open>From the end of one root on: the next root is loaded, or the walk is over.\<close>

lemma fts_next_root:
  assumes s: "f_cur sp = Some i" "f_store sp i = Some c" "n_link c = Some j" and x: "roots_ok N par ((j, a, t) # ys) sp"
    and i: "i \<notin> fst ` set ((j, a, t) # ys)" "i \<noteq> par"
    and p: "length (f_path sp) = M" "f_pathlen sp = M" "length a < M"
  shows "\<exists>sp' d. fts_next E i sp = Some (Some j, sp') \<and> stands M j d sp' \<and> node_ok a 0 t d \<and> n_info d = info_of t \<and>
    n_parent d = par \<and> n_link d = next_id ys \<and> holds (f_path sp') a \<and> roots_ok N par ys sp' \<and> j \<notin> fst ` set ys \<and> j \<noteq> par"
proof -
  note x = x [unfolded roots_ok_def]
  define sp1 where "sp1 = sp\<lparr>f_store := (f_store sp)(i := None)\<rparr>"
  obtain e where e: "f_store sp j = Some e" "root_ok par a t e" "n_link e = next_id ys" using x by auto
  have e1: "f_store sp1 j = Some e" using e i by (auto simp: sp1_def)
  obtain d sp2 where l: "fts_load j sp1 = Some sp2" "f_store sp2 = (f_store sp1)(j \<mapsto> d)" "node_ok a 0 t d"
    "n_info d = info_of t" "n_parent d = par" "n_link d = next_id ys" "holds (f_path sp2) a"
    "length (f_path sp2) = M" "f_options sp2 = PLAIN" "f_child sp2 = None" "f_pathlen sp2 = M" "f_next sp2 = f_next sp"
    using fts_load_served [OF e1 e(2)] p x e(3) by (auto simp: sp1_def)
  define sp' where "sp' = sp2\<lparr>f_cur := Some j\<rparr>"
  have nxt: "fts_next E i sp = Some (Some j, sp')"
    using s e x l(1) i
    by (subst fts_next.simps)
      (simp add: fts_free_def root_ok_def CHDIR_plain sp1_def [symmetric] sp'_def, simp add: sp1_def CHDIR_plain)
  have jn: "j \<notin> fst ` set ys" "j \<noteq> par" "par < N" using x by auto
  have "chain (root_ok par) (f_store sp') ys"
  proof (rule chain_cong)
    show "f_store sp' k = f_store sp k" if "k \<in> fst ` set ys" for k
      using that i jn l(2) by (auto simp: sp'_def sp1_def)
  qed (use x in simp)
  then have "roots_ok N par ys sp'" using x l jn i by (auto simp: roots_ok_def sp'_def sp1_def)
  moreover have "stands M j d sp'" using l x by (auto simp: stands_def sp'_def)
  ultimately show ?thesis using nxt l jn by (intro exI [of _ sp'] exI [of _ d]) (simp add: sp'_def)
qed

lemma fts_next_end:
  assumes "f_store sp i = Some c" "n_link c = None" "n_parent c = par" "i \<noteq> par"
    and "f_store sp par = Some e" "n_level e = -1"
  shows "\<exists>sp'. fts_next E i sp = Some (None, sp') \<and> f_cur sp' = None"
  using assms by (subst fts_next.simps) (simp add: fts_up_def fts_free_def set_errno_def)

lemma root_subtree:
  assumes E: "plain_env E" and x: "roots_ok N par ys sp" and s: "stands M i c sp" and c: "node_ok a 0 t c" "n_info c = info_of t"
    "n_parent c = par" "n_link c = next_id ys" and h: "holds (f_path sp) a" and i: "i \<notin> fst ` set ys" "i \<noteq> par"
    and t: "serves (env_rump E) left M [] a 0 t"
  shows "\<exists>sp1 c'. walks E sp (tl (visits a 0 t)) sp1 \<and> stands M i c' sp1 \<and> n_info c' \<noteq> FTS_D \<and>
    n_instr c' = FTS_NOINSTR \<and> n_link c' = next_id ys \<and> n_parent c' = par \<and> roots_ok N par ys sp1"
proof -
  note x = x [unfolded roots_ok_def]
  have "ancs (f_store sp) (f_next sp) (n_parent c) []" using x c by auto
  then obtain sp1 i' where s1: "walks E sp (tl (visits a 0 t)) sp1" "stands M i (c\<lparr>n_info := i'\<rparr>) sp1" "i' \<noteq> FTS_D"
    "f_next sp \<le> f_next sp1" "\<forall>j < f_next sp. j \<noteq> i \<longrightarrow> f_store sp1 j = f_store sp j"
    using subtree_walks_all [OF E, of left M t, unfolded subtree_walks_def, rule_format, of i c sp a 0 "[]"] s c h t by auto
  have "chain (root_ok par) (f_store sp1) ys"
  proof (rule chain_cong)
    show "f_store sp1 k = f_store sp k" if "k \<in> fst ` set ys" for k using that i x s1(5) by auto
  qed (use x in simp)
  moreover have "f_store sp1 par = f_store sp par" using s1(5) x i by auto
  ultimately have "roots_ok N par ys sp1" using x s1(2,4) by (auto simp: roots_ok_def stands_def)
  then show ?thesis using s1 c by (intro exI [of _ sp1] exI [of _ "c\<lparr>n_info := i'\<rparr>"]) (simp add: node_ok_def)
qed

lemma roots_walk:
  assumes E: "plain_env E" and "roots_ok N par ys sp" "stands M i c sp" "node_ok a 0 t c" "n_info c = info_of t"
    and "n_parent c = par" "n_link c = next_id ys" "holds (f_path sp) a" "i \<notin> fst ` set ys" "i \<noteq> par"
    and "serves (env_rump E) left M [] a 0 t" "\<forall>(i, a, t) \<in> set ys. serves (env_rump E) left M [] a 0 t"
  shows "\<exists>sp' sp''. walks E sp (tl (visits a 0 t) @ concat (map (\<lambda>(i, a, t). visits a 0 t) ys)) sp' \<and>
    fts_read E sp' = Some (None, sp'') \<and> f_cur sp'' = None"
  using assms(2-)
proof (induction ys arbitrary: sp i c a t)
  case Nil
  obtain sp1 c' where s1: "walks E sp (tl (visits a 0 t)) sp1" "stands M i c' sp1" "n_info c' \<noteq> FTS_D"
    "n_instr c' = FTS_NOINSTR" "n_link c' = next_id []" "n_parent c' = par" "roots_ok N par [] sp1"
    using root_subtree [OF E Nil.prems(1-10)] by blast
  obtain e where "f_store sp1 par = Some e" "n_level e = -1" using s1(7) by (auto simp: roots_ok_def)
  then obtain sp' where "fts_next E i sp1 = Some (None, sp')" "f_cur sp' = None"
    using fts_next_end [of sp1 i c' par e E] s1 Nil.prems(9) by (auto simp: stands_def)
  then show ?case using s1(1) fts_read_next [OF s1(2,4,3)] by (intro exI [of _ sp1] exI [of _ sp']) simp
next
  case (Cons y ys)
  obtain j b u where y: "y = (j, b, u)" by (cases y)
  obtain sp1 c' where s1: "walks E sp (tl (visits a 0 t)) sp1" "stands M i c' sp1" "n_info c' \<noteq> FTS_D"
    "n_instr c' = FTS_NOINSTR" "n_link c' = Some j" "n_parent c' = par" "roots_ok N par ((j, b, u) # ys) sp1"
    using root_subtree [OF E Cons.prems(1-10)] y by auto
  have b: "serves (env_rump E) left M [] b 0 u" "length b < M" "NUL \<notin> set b"
    using Cons.prems(11) y serves_stat [of "env_rump E" left M "[]" b 0 u] by auto
  obtain sp2 d where n: "fts_next E i sp1 = Some (Some j, sp2)" "stands M j d sp2" "node_ok b 0 u d" "n_info d = info_of u"
    "n_parent d = par" "n_link d = next_id ys" "holds (f_path sp2) b" "roots_ok N par ys sp2" "j \<notin> fst ` set ys" "j \<noteq> par"
    using fts_next_root [where i = i and c = c' and M = M and E = E, OF _ _ s1(5,7)] s1(2) Cons.prems(8,9) y b(2) by (auto simp: stands_def)
  have "fts_read E sp1 = Some (Some j, sp2)" using n(1) fts_read_next [OF s1(2,4,3)] by simp
  moreover have "seen sp2 j = Some (info_of u, b, 0)"
    using seen_stands [OF n(2,7) b(3)] n(3,4) by (simp add: node_ok_def)
  ultimately have w: "walks E sp (tl (visits a 0 t) @ [(info_of u, b, 0)]) sp2"
    using s1(1) walks_one walks_append by blast
  obtain sp' sp'' where r: "walks E sp2 (tl (visits b 0 u) @ concat (map (\<lambda>(i, a, t). visits a 0 t) ys)) sp'"
    "fts_read E sp' = Some (None, sp'')" "f_cur sp'' = None"
    using Cons.IH [OF n(8,2,3,4,5,6,7,9,10) b(1)] Cons.prems(11) by auto
  have v: "visits b 0 u = (info_of u, b, 0) # tl (visits b 0 u)" by (rule visits_hd)
  have "tl (visits a 0 t) @ concat (map (\<lambda>(i, a, t). visits a 0 t) (y # ys)) =
      (tl (visits a 0 t) @ [(info_of u, b, 0)]) @ tl (visits b 0 u) @ concat (map (\<lambda>(i, a, t). visits a 0 t) ys)"
    unfolding y by (subst list.map, subst concat.simps, subst prod.case, subst prod.case, subst v) simp
  then show ?case using walks_append [OF w r(1)] r(2,3) by (intro exI [of _ sp'] exI [of _ sp'']) simp
qed

section \<open>The whole walk\<close>

lemma fts_maxarglen_le: "\<forall>a \<in> set argv. length a < m \<Longrightarrow> 0 < m \<Longrightarrow> fts_maxarglen argv \<le> m"
proof -
  assume a: "\<forall>a \<in> set argv. length a < m" "0 < m"
  have "fold (\<lambda>a m. if length a > m then length a else m) argv k < m" if "k < m" for k
    using a(1) that by (induction argv arbitrary: k) auto
  then show ?thesis using a(2) by (simp add: fts_maxarglen_def Suc_le_eq)
qed

lemma fts_pow2_path: "fts_pow2 4096 = 4096"
  by (simp add: fts_pow2_def Let_def)

lemma fts_open_served:
  assumes E: "plain_env E" and cs: "cs \<noteq> []" "\<forall>(a, t) \<in> set cs. serves (env_rump E) left MAXPATHLEN [] a 0 t"
    and cwd: "fsu_getcwd (env_rump E) root_ino w \<noteq> None"
  shows "\<exists>sp i d ys. fts_open E (map fst cs) PLAIN root_ino w = Some (Inr sp) \<and> stands MAXPATHLEN i d sp \<and>
    n_instr d = FTS_NOINSTR \<and> n_info d = FTS_INIT \<and> n_link d = next_id ys \<and> roots_ok 3 2 ys sp \<and> map snd ys = cs \<and>
    i \<notin> fst ` set ys \<and> i \<noteq> 2"
proof -
  have len: "length a < MAXPATHLEN" if "a \<in> set (map fst cs)" for a
    using that cs(2) serves_stat [of "env_rump E" left MAXPATHLEN "[]" a 0] by fastforce
  then have mx: "max (fts_maxarglen (map fst cs)) MAXPATHLEN = 4096"
    using fts_maxarglen_le [of "map fst cs" MAXPATHLEN] by (intro max_absorb2) auto
  define pe where "pe = (env_junk E)\<lparr>n_statp := Some (file_stat 0), n_name := [], n_errno := 0,
    n_dontchdir := False, n_symfollow := False, n_instr := FTS_NOINSTR, n_number := 0\<rparr>"
  define sp0 where "sp0 = (stream0 PLAIN root_ino w)\<lparr>f_next := 2, f_path := replicate 4096 NUL, f_pathlen := 4096\<rparr>"
  define sp1 where "sp1 = sp0\<lparr>f_next := 3, f_store := (f_store sp0)(2 \<mapsto> pe\<lparr>n_level := -1\<rparr>)\<rparr>"
  have o: "f_options sp0 = PLAIN" "f_options sp1 = PLAIN" by (simp_all add: sp0_def sp1_def stream0_def)
  have palloc: "fts_palloc E 4096 ((stream0 PLAIN root_ino w)\<lparr>f_next := 1\<rparr>) = (False, sp0)"
    using E by (simp add: fts_palloc_def fts_pow2_path plain_env_def Let_def sp0_def stream0_def)
  have al: "fts_alloc E [] sp0 = (Some 2, sp0\<lparr>f_next := 3, f_store := (f_store sp0)(2 \<mapsto> pe)\<rparr>)"
    using E o by (simp add: fts_alloc_def plain_env_def ISSET_plain Let_def pe_def sp0_def)
  have "roots_ok 3 2 [] sp1" using o by (simp add: roots_ok_def sp1_def sp0_def stream0_def)
  then obtain h N' ys where r: "open_roots E 2 (map fst cs) None None 0 sp1 =
      Some (True, next_id ys, length cs, sp1\<lparr>f_next := N', f_store := h\<rparr>)" "map snd ys = cs"
    "roots_ok 3 2 ys (sp1\<lparr>f_next := N', f_store := h\<rparr>)"
    using open_roots_served [OF E _ cs(2), of 3 2 "[]" sp1 None None 0] by auto
  define sp2 where "sp2 = sp1\<lparr>f_next := N', f_store := h\<rparr>"
  define d where "d = pe\<lparr>n_link := next_id ys, n_info := FTS_INIT\<rparr>"
  define sp3 where "sp3 = sp2\<lparr>f_next := Suc N', f_store := h(N' \<mapsto> d), f_cur := Some N'\<rparr>"
  have al2: "fts_alloc E [] sp2 = (Some N', sp2\<lparr>f_next := Suc N', f_store := h(N' \<mapsto> pe)\<rparr>)"
    using E o by (simp add: fts_alloc_def plain_env_def ISSET_plain Let_def pe_def sp2_def)
  have "f_root_ino sp3 = root_ino" "f_world sp3 = w" by (simp_all add: sp3_def sp2_def sp1_def sp0_def stream0_def)
  then obtain path ri w' where gc: "fsu_getcwd (env_rump E) (f_root_ino sp3) (f_world sp3) = Some (path, ri, w')"
    using cwd by (cases "fsu_getcwd (env_rump E) root_ino w") auto
  define sp where "sp = sp3\<lparr>f_root_ino := ri, f_world := w', f_rpath := path\<rparr>"
  have open': "fts_open E (map fst cs) PLAIN root_ino w = Some (Inr sp)"
  proof -
    have i: "\<not> ISSET FTS_LOGICAL ((stream0 PLAIN root_ino w)\<lparr>f_next := 1\<rparr>)"
      by (rule ISSET_plain) (simp add: stream0_def)
    have u1: "upd 2 (n_level_update (\<lambda>_. -1)) (sp0\<lparr>f_next := 3, f_store := (f_store sp0)(2 \<mapsto> pe)\<rparr>) = Some sp1"
      by (simp add: upd_def sp1_def)
    have u2: "upd N' (\<lambda>e. e\<lparr>n_link := next_id ys, n_info := FTS_INIT\<rparr>) (sp2\<lparr>f_next := Suc N', f_store := h(N' \<mapsto> pe)\<rparr>) =
        Some (sp2\<lparr>f_next := Suc N', f_store := h(N' \<mapsto> d)\<rparr>)"
      by (simp add: upd_def d_def)
    have g: "fts_getcwd E sp3 = Some (path, sp3\<lparr>f_root_ino := ri, f_world := w'\<rparr>)"
      using gc by (simp add: fts_getcwd_def)
    have n: "length cs \<noteq> 0" "env_compar E = None" "\<not> env_oom E 0" using cs(1) E by (simp_all add: plain_env_def)
    show ?thesis
      using i palloc al u1 r(1) [folded sp2_def] al2 u2 g n
      by (simp add: fts_open_def mx Let_def sp_def sp3_def [symmetric])
  qed
  note x = r(3) [unfolded roots_ok_def]
  have N: "N' \<notin> fst ` set ys" "N' \<noteq> 2" using x by auto
  have st: "stands MAXPATHLEN N' d sp"
    using o by (simp add: stands_def sp_def sp3_def sp2_def sp1_def sp0_def stream0_def)
  have "chain (root_ok 2) (f_store sp) ys"
  proof (rule chain_cong)
    show "f_store sp k = h k" if "k \<in> fst ` set ys" for k using that N by (auto simp: sp_def sp3_def)
  qed (use x in simp)
  then have "roots_ok 3 2 ys sp" using x N by (auto simp: roots_ok_def sp_def sp3_def sp2_def)
  then show ?thesis using open' st N r(2) by (intro exI [of _ sp] exI [of _ N'] exI [of _ d] exI [of _ ys])
      (simp add: d_def pe_def)
qed

text \<open>
  C1. The walk is complete and it ends: for a physical walk without changes of directory, with memory
  granted, over hierarchies that the kernel serves, fts_open succeeds and reading on delivers, root by root, every
  directory before and after its contents, everything else once, in the order of the directories, each
  with its class, path and level, and then NULL.
\<close>

theorem fts_walk_complete:
  assumes E: "plain_env E" and cs: "cs \<noteq> []" "\<forall>(a, t) \<in> set cs. serves (env_rump E) left MAXPATHLEN [] a 0 t"
    and cwd: "fsu_getcwd (env_rump E) root_ino w \<noteq> None"
  shows "\<exists>sp sp'. fts_open E (map fst cs) PLAIN root_ino w = Some (Inr sp) \<and>
    fts_walk E sp = Some (concat (map (\<lambda>(a, t). visits a 0 t) cs), sp') \<and> f_cur sp' = None"
proof -
  obtain sp i d ys where op: "fts_open E (map fst cs) PLAIN root_ino w = Some (Inr sp)" "stands MAXPATHLEN i d sp"
    "n_instr d = FTS_NOINSTR" "n_info d = FTS_INIT" "n_link d = next_id ys" "roots_ok 3 2 ys sp" "map snd ys = cs"
    "i \<notin> fst ` set ys" "i \<noteq> 2"
    using fts_open_served [OF E cs cwd] by blast
  obtain j a t ys' where ys: "ys = (j, a, t) # ys'" using op(7) cs(1) by (cases ys) auto
  have t: "serves (env_rump E) left MAXPATHLEN [] a 0 t"
    "\<forall>(i, a, t) \<in> set ys'. serves (env_rump E) left MAXPATHLEN [] a 0 t"
    using cs(2) op(7) ys by fastforce+
  have a: "length a < MAXPATHLEN" "NUL \<notin> set a" using serves_stat [OF t(1)] by auto
  obtain sp1 c where n: "fts_next E i sp = Some (Some j, sp1)" "stands MAXPATHLEN j c sp1" "node_ok a 0 t c"
    "n_info c = info_of t" "n_parent c = 2" "n_link c = next_id ys'" "holds (f_path sp1) a" "roots_ok 3 2 ys' sp1"
    "j \<notin> fst ` set ys'" "j \<noteq> 2"
    using fts_next_root [where i = i and c = d and M = MAXPATHLEN and E = E, OF _ _ _ op(6) [unfolded ys]] op ys a(1)
    by (auto simp: stands_def)
  have "fts_read E sp = Some (Some j, sp1)" using fts_read_next [OF op(2,3)] op(4) n(1) by simp
  moreover have "seen sp1 j = Some (info_of t, a, 0)"
    using seen_stands [OF n(2,7) a(2)] n(3,4) by (simp add: node_ok_def)
  ultimately have w: "walks E sp [(info_of t, a, 0)] sp1" by (rule walks_one)
  obtain sp2 sp' where r: "walks E sp1 (tl (visits a 0 t) @ concat (map (\<lambda>(i, a, t). visits a 0 t) ys')) sp2"
    "fts_read E sp2 = Some (None, sp')" "f_cur sp' = None"
    using roots_walk [OF E n(8,2,3,4,5,6,7,9,10) t] by blast
  have "concat (map (\<lambda>(a, t). visits a 0 t) cs) = visits a 0 t @ concat (map (\<lambda>(i, a, t). visits a 0 t) ys')"
    using op(7) ys by (auto simp: split_def comp_def)
  also have "\<dots> = [(info_of t, a, 0)] @ tl (visits a 0 t) @ concat (map (\<lambda>(i, a, t). visits a 0 t) ys')"
    by (subst visits_hd) simp
  finally show ?thesis using fts_walk_walks [OF walks_append [OF w r(1)] r(2)] r(3) op(1) by auto
qed

section \<open>A hierarchy of four nodes\<close>

definition wk_dir :: "64 word \<Rightarrow> stat" where
  "wk_dir i = (file_stat 0)\<lparr>st_ino := i, st_mode := 0x41ed\<rparr>"

definition wk_file :: stat where
  "wk_file = (file_stat 5)\<lparr>st_ino := 3, st_mode := 0x81a4\<rparr>"

definition wk_tree :: ftree where
  "wk_tree = Dir (wk_dir 2) [(''f'', Leaf wk_file), (''d'', Dir (wk_dir 4) [])]"

definition wk_ents :: "string \<Rightarrow> dirent list" where
  "wk_ents p = [de 2 ''.'', de 1 ''..''] @ (if p = ''a'' then [de 3 ''f'', de 0 ''x'', de 4 ''d''] else [])"

definition wk_rump :: "dirent list rump" where
  "wk_rump =
     \<lparr>sys_open = (\<lambda>path flags mode k. (Inr 3, wk_ents path)),
      sys_close = (\<lambda>fd k. k),
      sys_read = (\<lambda>fd n k. (Inl EBADF, k)),
      sys_pwrite = (\<lambda>fd bs off k. (Inl EBADF, k)),
      sys_fstat = (\<lambda>fd k. (Inl EBADF, k)),
      sys_stat = (\<lambda>path k. (Inr (wk_dir 1), k)),
      sys_lstat = (\<lambda>path k. (Inr (if path = ''a'' then wk_dir 2 else if path = ''a/f'' then wk_file else wk_dir 4), k)),
      sys_chdir = (\<lambda>path k. (Inr (), k)),
      sys_getdents = (\<lambda>fd n k. (Inr (take 2 k), drop 2 k))\<rparr>"

definition wk_junk :: fts_node where
  "wk_junk = \<lparr>n_cycle = Some 7, n_parent = 9, n_link = Some 5, n_number = 3, n_accpath = Name_Of 8, n_errno = 2,
     n_sympath = None, n_pathlen = 77, n_name = ''junk'', n_ino = 4, n_dev = 0, n_nlink = 1, n_level = 6,
     n_info = FTS_ERR, n_dontchdir = True, n_symfollow = True, n_instr = FTS_AGAIN, n_statp = None\<rparr>"

definition wk_env :: "dirent list fts_env" where
  "wk_env = \<lparr>env_rump = wk_rump, env_junk = wk_junk, env_oom = (\<lambda>_. False), env_compar = None,
     env_qsort = (\<lambda>_ xs. xs)\<rparr>"

lemma wk_opens:
  "opens_as wk_rump (\<lambda>_ k. k) ''a'' [''f'', ''d'']" "opens_as wk_rump (\<lambda>_ k. k) ''a/d'' []"
  by (simp_all add: opens_as_def wk_rump_def reads_dir_def live_def wk_ents_def de_def ISDOT_def)

lemma wk_stat:
  "has_stat wk_rump ''a'' (wk_dir 2)" "has_stat wk_rump ''a/f'' wk_file" "has_stat wk_rump ''a/d'' (wk_dir 4)"
  by (simp_all add: has_stat_def wk_rump_def)

lemma wk_kinds: "S_ISDIR (wk_dir i)" "\<not> S_ISDIR wk_file" "\<not> S_ISLNK wk_file" "S_ISREG wk_file" "st_ino (wk_dir i) = i"
  by (simp_all add: S_ISDIR_def S_ISLNK_def S_ISREG_def wk_dir_def wk_file_def)

lemma wk_serves: "serves wk_rump (\<lambda>_ k. k) MAXPATHLEN [] ''a'' 0 wk_tree"
  by (simp add: wk_tree_def wk_opens wk_stat wk_kinds sub_def base_def)

lemma wk_getcwd: "fsu_getcwd wk_rump 0 w \<noteq> None"
proof -
  have "fsu_getdirname wk_rump 0 w = Some (Some ''/'', 1, w)"
    by (simp add: fsu_getdirname_def call_def wk_rump_def wk_kinds)
  then show ?thesis by (simp add: fsu_getcwd_def getcwd_up.simps)
qed

lemma fts_walk_complete_witness:
  "\<exists>sp sp'. fts_open wk_env [''a''] PLAIN 0 \<lparr>kern = [], errno = 0\<rparr> = Some (Inr sp) \<and>
    fts_walk wk_env sp = Some ([(FTS_D, ''a'', 0), (FTS_F, ''a/f'', 1), (FTS_D, ''a/d'', 1), (FTS_DP, ''a/d'', 1),
      (FTS_DP, ''a'', 0)], sp') \<and> f_cur sp' = None"
  using fts_walk_complete [of wk_env "[(''a'', wk_tree)]" "\<lambda>_ k. k" 0 "\<lparr>kern = [], errno = 0\<rparr>"] wk_serves wk_getcwd [of "\<lparr>kern = [], errno = 0\<rparr>"]
  by (simp add: wk_env_def plain_env_def wk_tree_def sub_def base_def leaf_info_def wk_kinds)

end
