(* ===== verification/FTS_Cycle.thy ===== *)
theory FTS_Cycle
  imports FTS_Walk
begin

text \<open>
  Two facts the walk of \<open>src/lib/fsu_fts.c\<close> rests on: a directory that is its own ancestor is found out, so
  that a walk does not go round in circles, and path buffers grow to powers of two.
\<close>

section \<open>Cycles\<close>

lemma find_cycle_found:
  "ancs h N p xs \<Longrightarrow> (i, d) \<in> set xs \<Longrightarrow>
    \<exists>t e. find_cycle h i d p = Some (Some t) \<and> t < N \<and> h t = Some e \<and> n_ino e = i \<and> n_dev e = d"
proof (induction xs arbitrary: p)
  case Nil
  then show ?case by simp
next
  case (Cons x xs)
  then obtain e where e: "p < N" "h p = Some e" "0 \<le> n_level e" "(n_ino e, n_dev e) = x" "ancs h N (n_parent e) xs"
    by auto
  show ?case
  proof (cases "i = n_ino e \<and> d = n_dev e")
    case True
    then show ?thesis using e by (subst find_cycle.simps) auto
  next
    case False
    then have "(i, d) \<in> set xs" using Cons.prems(2) e(4) by auto
    then show ?thesis using Cons.IH [OF e(5)] e False by (subst find_cycle.simps) auto
  qed
qed

lemma set_statp_Some:
  assumes "f_store sp p = Some e"
  shows "\<exists>st'. set_statp p st sp = Some (sp\<lparr>f_store := (f_store sp)(p \<mapsto> e\<lparr>n_statp := st'\<rparr>)\<rparr>)"
proof (cases "ISSET FTS_NOSTAT sp")
  case True
  have "e\<lparr>n_statp := n_statp e\<rparr> = e" by (cases e) simp
  then have "sp\<lparr>f_store := (f_store sp)(p \<mapsto> e\<lparr>n_statp := n_statp e\<rparr>)\<rparr> = sp"
    using assms by (cases sp) (auto simp: fun_upd_idem)
  then show ?thesis using True by (intro exI [of _ "n_statp e"]) (simp add: set_statp_def)
next
  case False
  then show ?thesis using assms by (intro exI [of _ "Some st"]) (simp add: set_statp_def upd_def)
qed

text \<open>
  C11. Cycles are detected: when the status of a node says that it is a directory, fts_stat classifies it as a
  directory that causes a cycle exactly when its inode and device are those of one of its ancestors, and
  the node then points to such an ancestor.
\<close>

theorem fts_stat_cycle:
  assumes e: "f_store sp p = Some e" "acc_string sp (n_accpath e) = Some path" "\<not> ISDOT (n_name e)"
    and anc: "ancs (f_store sp) N (n_parent e) anc" "N \<le> p"
    and st: "(if ISSET FTS_LOGICAL sp \<or> follow then sys_stat (env_rump E) path else sys_lstat (env_rump E) path)
      (kern (f_world sp)) = (Inr st, k')" "S_ISDIR st"
  shows "\<exists>sp' e'. fts_stat E p follow sp =
      Some (if (st_ino st, st_dev st) \<in> set anc then FTS_DC else FTS_D, sp') \<and> f_store sp' p = Some e' \<and>
    ((st_ino st, st_dev st) \<in> set anc \<longrightarrow>
      (\<exists>t d. n_cycle e' = Some t \<and> t < N \<and> f_store sp' t = Some d \<and> n_ino d = st_ino st \<and> n_dev d = st_dev st))"
proof -
  let ?f = "if ISSET FTS_LOGICAL sp \<or> follow then sys_stat (env_rump E) path else sys_lstat (env_rump E) path"
  define sp0 where "sp0 = sp\<lparr>f_world := (f_world sp)\<lparr>kern := k'\<rparr>\<rparr>"
  have c: "sys ?f sp = (Some st, sp0)" using call_Inr [of ?f "f_world sp", OF st(1)] by (simp add: sys_def sp0_def)
  have e0: "f_store sp0 p = Some e" using e by (simp add: sp0_def)
  obtain st' where s: "set_statp p st sp0 = Some (sp0\<lparr>f_store := (f_store sp0)(p \<mapsto> e\<lparr>n_statp := st'\<rparr>)\<rparr>)"
    using set_statp_Some [OF e0] by blast
  define e2 where "e2 = e\<lparr>n_statp := st', n_dev := st_dev st, n_ino := st_ino st, n_nlink := st_nlink st\<rparr>"
  define sp2 where "sp2 = sp0\<lparr>f_store := (f_store sp)(p \<mapsto> e2)\<rparr>"
  have f: "fts_stat E p follow sp = stat_class p st (sp0\<lparr>f_store := (f_store sp0)(p \<mapsto> e\<lparr>n_statp := st'\<rparr>)\<rparr>)"
    using e c s by (cases "ISSET FTS_LOGICAL sp \<or> follow") (auto simp: fts_stat_def)
  have "ancs (f_store sp2) N (n_parent e) anc"
    using anc(1) by (rule ancs_cong [rotated]) (use anc(2) in \<open>simp add: sp2_def\<close>)
  note a = this
  show ?thesis
  proof (cases "(st_ino st, st_dev st) \<in> set anc")
    case True
    obtain t d where t: "find_cycle (f_store sp2) (st_ino st) (st_dev st) (n_parent e) = Some (Some t)"
      "t < N" "f_store sp2 t = Some d" "n_ino d = st_ino st" "n_dev d = st_dev st"
      using find_cycle_found [OF a True] by blast
    define sp3 where "sp3 = sp2\<lparr>f_store := (f_store sp2)(p \<mapsto> e2\<lparr>n_cycle := Some t\<rparr>)\<rparr>"
    have "fts_stat E p follow sp = Some (FTS_DC, sp3)"
      unfolding f using st(2) e(3) t(1)
      by (simp add: stat_class_def upd_def sp3_def sp2_def e2_def sp0_def)
    then show ?thesis using True t anc(2)
      by (intro exI [of _ sp3] exI [of _ "e2\<lparr>n_cycle := Some t\<rparr>"]) (auto simp: sp3_def)
  next
    case False
    then have "find_cycle (f_store sp2) (st_ino st) (st_dev st) (n_parent e) = Some None"
      using find_cycle_None [OF a] by blast
    then have "fts_stat E p follow sp = Some (FTS_D, sp2)"
      unfolding f using st(2) e(3) by (simp add: stat_class_def upd_def sp2_def e2_def sp0_def)
    then show ?thesis using False by (intro exI [of _ sp2] exI [of _ e2]) (simp add: sp2_def)
  qed
qed

text \<open>A directory \<open>a/x\<close> with the inode of \<open>a\<close>.\<close>

definition cyc_stream :: "dirent list fts" where
  "cyc_stream = (stream0 PLAIN 0 \<lparr>kern = [], errno = 0\<rparr>)
     \<lparr>f_path := ''a/x'' @ [NUL],
      f_store := [0 \<mapsto> wk_junk\<lparr>n_level := -1\<rparr>,
                  1 \<mapsto> wk_junk\<lparr>n_level := 0, n_parent := 0, n_ino := 4, n_dev := 0\<rparr>,
                  2 \<mapsto> wk_junk\<lparr>n_level := 1, n_parent := 1, n_name := ''x'', n_accpath := In_Path\<rparr>]\<rparr>"

lemma fts_stat_cycle_witness:
  "\<exists>sp' e' t d. fts_stat wk_env 2 False cyc_stream = Some (FTS_DC, sp') \<and> f_store sp' 2 = Some e' \<and>
    n_cycle e' = Some t \<and> t < 2 \<and> f_store sp' t = Some d \<and> n_ino d = 4 \<and> n_dev d = 0"
proof -
  have c: "cstr_at (f_path cyc_stream) 0 = ''a/x''"
    using cstr_at_app [of "''a/x''" "[]" "[]"] by (simp add: cyc_stream_def)
  have "wk_dir 4 = (wk_dir 4)\<lparr>st_dev := 0\<rparr>" by (simp add: wk_dir_def file_stat_def)
  then have d: "st_dev (wk_dir 4) = 0" by (metis stat.select_convs(1) stat.surjective stat.update_convs(1))
  show ?thesis
    using fts_stat_cycle [of cyc_stream 2 "wk_junk\<lparr>n_level := 1, n_parent := 1, n_name := ''x'', n_accpath := In_Path\<rparr>"
        "''a/x''" 2 "[(4, 0)]" False wk_env "wk_dir 4" "[]"] c d
    by (simp add: cyc_stream_def stream0_def acc_string_def ISDOT_def wk_env_def wk_rump_def ISSET_def wk_kinds)
qed

section \<open>Powers of two\<close>

lemma smear_step:
  fixes a y :: size_t
  assumes "\<And>n. bit a n \<longleftrightarrow> (\<exists>m. n \<le> m \<and> m < n + j \<and> bit y m)" and "k = j + j"
  shows "bit (a OR drop_bit j a) n \<longleftrightarrow> (\<exists>m. n \<le> m \<and> m < n + k \<and> bit y m)"
proof -
  have "bit (a OR drop_bit j a) n \<longleftrightarrow> bit a n \<or> bit a (j + n)" by (simp add: bit_or_iff bit_drop_bit_eq)
  also have "\<dots> \<longleftrightarrow> (\<exists>m. n \<le> m \<and> m < n + k \<and> bit y m)" (is "?l \<longleftrightarrow> ?r")
  proof
    assume ?r
    then obtain m where "n \<le> m" "m < n + k" "bit y m" by blast
    then show ?l unfolding assms by (cases "m < n + j") (auto intro: exI [of _ m])
  next
    assume ?l
    then obtain m where "bit y m" "n \<le> m \<and> m < n + j \<or> j + n \<le> m \<and> m < j + n + j"
      unfolding assms by blast
    then show ?r using assms(2) by (intro exI [of _ m]) auto
  qed
  finally show ?thesis .
qed

definition smeared :: "size_t \<Rightarrow> size_t" where
  "smeared x =
     (let x = x OR drop_bit 1 x; x = x OR drop_bit 2 x; x = x OR drop_bit 4 x; x = x OR drop_bit 8 x;
          x = x OR drop_bit 16 x in x OR drop_bit 32 x)"

lemma bit_smeared: "bit (smeared y) n \<longleftrightarrow> (\<exists>m \<ge> n. bit y m)"
proof -
  have s0: "bit y n \<longleftrightarrow> (\<exists>m. n \<le> m \<and> m < n + 1 \<and> bit y m)" for n
    by (auto simp: less_Suc_eq_le)
  have "bit (smeared y) n \<longleftrightarrow> (\<exists>m. n \<le> m \<and> m < n + 64 \<and> bit y m)"
    unfolding smeared_def Let_def
    by (rule smear_step, rule smear_step, rule smear_step, rule smear_step, rule smear_step, rule smear_step [OF s0])
      simp_all
  moreover have "m < n + 64" if "bit y m" for m using bit_imp_le_length [OF that] by simp
  ultimately show ?thesis by blast
qed

lemma smeared_mask:
  assumes "unat y < 2 ^ k" "k = 0 \<or> \<not> unat y < 2 ^ (k - 1)" "k \<le> 64"
  shows "smeared y = mask k"
proof (rule bit_eqI)
  fix n assume "possible_bit TYPE(64 word) n"
  then have n: "n < 64" by (simp add: possible_bit_word)
  have none: "\<not> bit y m" if "k \<le> m" for m
  proof -
    have "unat y < 2 ^ m" using assms(1) that by (meson less_le_trans one_le_numeral power_increasing)
    then have "\<not> bit (unat y) m" by (simp add: bit_iff_odd)
    then show ?thesis by (simp add: bit_unsigned_iff possible_bit_def)
  qed
  have top: "bit y (k - 1)" if "0 < k"
  proof -
    have "unat y div 2 ^ (k - 1) = 1"
      using assms(1,2) that by (intro div_nat_eqI) (auto simp: not_less power_eq_if)
    then have "bit (unat y) (k - 1)" by (simp add: bit_iff_odd)
    then show ?thesis by (simp add: bit_unsigned_iff)
  qed
  have "(\<exists>m \<ge> n. bit y m) \<longleftrightarrow> n < k"
  proof
    assume "\<exists>m \<ge> n. bit y m"
    then show "n < k" using none by (meson le_less_trans not_less)
  next
    assume "n < k"
    then show "\<exists>m \<ge> n. bit y m" using top by (intro exI [of _ "k - 1"]) auto
  qed
  then show "bit (smeared y) n \<longleftrightarrow> bit (mask k :: size_t) n"
    using n by (simp add: bit_smeared bit_mask_iff possible_bit_word)
qed

text \<open>
  C37. fts_pow2 rounds up: its result is the least power of two that is not below its argument, or 0
  for the argument 0 and where there is no such power among the 64-bit numbers.
\<close>

theorem fts_pow2_rounds_up:
  "unat (fts_pow2 x) = (if x = 0 \<or> 2 ^ 63 < unat x then 0 else 2 ^ (LEAST k. unat x \<le> 2 ^ k))"
proof -
  have p: "fts_pow2 x = smeared (x - 1) + 1" by (simp add: fts_pow2_def smeared_def Let_def)
  show ?thesis
  proof (cases "x = 0")
    case True
    then show ?thesis by (simp add: fts_pow2_def Let_def)
  next
    case False
    define y where "y = x - 1"
    define k where "k = (LEAST k. unat x \<le> 2 ^ k)"
    have y: "unat x = Suc (unat y)"
      using False by (simp add: y_def unat_minus_one unat_gt_0)
    have "unat x < 2 ^ LENGTH(64)" by (rule unsigned_less)
    then have ex: "unat x \<le> 2 ^ 64" by simp
    have k: "unat x \<le> 2 ^ k" unfolding k_def using ex by (rule LeastI)
    have le64: "k \<le> 64" unfolding k_def using ex by (rule Least_le)
    have min: "\<not> unat x \<le> 2 ^ (k - 1)" if "0 < k"
      using not_less_Least [of "k - 1" "\<lambda>k. unat x \<le> 2 ^ k"] that by (simp add: k_def)
    have "smeared y = mask k" using k y min le64 by (intro smeared_mask) auto
    then have f: "fts_pow2 x = 2 ^ k" using p by (simp add: y_def mask_eq_exp_minus_1)
    have k64: "2 ^ 63 < unat x \<longleftrightarrow> k = 64"
    proof
      assume a: "2 ^ 63 < unat x"
      show "k = 64"
      proof (rule ccontr)
        assume "k \<noteq> 64"
        then have "(2::nat) ^ k \<le> 2 ^ 63" using le64 by (intro power_increasing) auto
        then show False using a k by linarith
      qed
    next
      assume "k = 64"
      then have "\<not> unat x \<le> 2 ^ (64 - 1)" using min by simp
      then show "2 ^ 63 < unat x" by simp
    qed
    show ?thesis
    proof (cases "k = 64")
      case True
      then show ?thesis using f k64 False by simp
    next
      case False
      then have "k < 64" using le64 by simp
      then have "unat (of_nat (2 ^ k) :: size_t) = 2 ^ k" by (simp only: unsigned_of_nat) simp
      then have "unat (2 ^ k :: size_t) = 2 ^ k" by simp
      then show ?thesis using f k64 False \<open>x \<noteq> 0\<close> unfolding k_def [symmetric] by simp
    qed
  qed
qed

end
