(* ===== verification/Find_Plan.thy ===== *)
theory Find_Plan
  imports Rump_Sys
begin

text \<open>
  \<^verbatim>\<open>src/src/find_operator.c\<close> and the evaluation functions of
  \<^verbatim>\<open>src/src/find_function.c\<close>: the plan of \<^verbatim>\<open>fsu_find\<close>. A plan
  is a list of nodes (the C list linked by \<open>next\<close>); the subplans \<open>p_data\<close> of the operator
  nodes are lists again, empty for \<open>NULL\<close>. The three passes \<open>paren_squish\<close>,
  \<open>not_squish\<close> and \<open>or_squish\<close> turn the flat list of the command line into a tree; a call
  of \<open>err\<close> or \<open>errx\<close> is an \<open>Inl\<close>.

  The functions of the C library and of the kernel that the primaries call (pattern matching, the
  user database, reading a directory, the long listing) are the fields of \<open>fenv\<close>.
\<close>

section \<open>Nodes\<close>

datatype cmp = F_EQUAL | F_LESSTHAN | F_GREATER

datatype prim =
    N_AMIN cmp int | N_ANEWER int | N_ATIME cmp int
  | N_CMIN cmp int | N_CNEWER int | N_CTIME cmp int
  | N_DEPTH | N_EMPTY | N_EXIT int | N_FALSE | N_FLAGS bool "32 word" | N_FOLLOW
  | N_FPRINT string | N_FSTYPE | N_GROUP "32 word"
  | N_INAME string | N_INUM cmp "64 word" | N_LINKS cmp "32 word" | N_LS
  | N_MAXDEPTH int | N_MINDEPTH int | N_MMIN cmp int | N_MTIME cmp int
  | N_NAME string | N_NEWER int | N_NOGROUP | N_NOUSER | N_PATH string | N_PERM bool mode_t
  | N_PRINT | N_PRINT0 | N_PRINTX | N_PRUNE | N_REGEX bool string | N_SIZE cmp int
  | N_TYPE mode_t | N_USER cmp "32 word" | N_XDEV

datatype node =
    Prim prim
  | N_OPENPAREN
  | N_CLOSEPAREN
  | N_NOT "node list"
  | N_EXPR "node list"
  | N_OR "node list" "node list"

type_synonym plan = "node list"

datatype find_error =
    missing_closing | empty_inner | no_beginning | not_no_expression | not_before_or
  | or_no_expression_before | or_no_expression_after
  | unknown_option | requires_argument | illegal_numeric | illegal_trailing | err_stat
  | illegal_flags | no_such_group | no_such_user | cannot_set_mode | unknown_type
  | cannot_create | bad_regexp

section \<open>Building the tree\<close>

text \<open>
  \<open>yankexpr\<close> removes one expression from the plan: a node, or everything between a parenthesis
  and its partner as one \<open>N_EXPR\<close>. \<open>yank_loop\<close> is its loop, with the subplan collected so
  far.
\<close>

function yankexpr :: "plan \<Rightarrow> find_error + (node option \<times> plan)"
  and yank_loop :: "plan \<Rightarrow> plan \<Rightarrow> find_error + (node option \<times> plan)"
where
  "yankexpr planp =
     (case planp of
        [] \<Rightarrow> Inr (None, [])
      | node # planp' \<Rightarrow>
          if node = N_OPENPAREN then yank_loop [] planp' else Inr (Some node, planp'))"
| "yank_loop subplan planp =
     (case yankexpr planp of
        Inl e \<Rightarrow> Inl e
      | Inr (None, _) \<Rightarrow> Inl missing_closing
      | Inr (Some next, planp') \<Rightarrow>
          if next = N_CLOSEPAREN then
            (if subplan = [] then Inl empty_inner else Inr (Some (N_EXPR subplan), planp'))
          else yank_loop (subplan @ [next]) planp')"
  by pat_completeness auto

lemma yank_shrinks:
  "yankexpr_yank_loop_dom (Inl planp) \<Longrightarrow>
     yankexpr planp = Inr (Some n, rest) \<longrightarrow> length rest < length planp"
  "yankexpr_yank_loop_dom (Inr (sub, planq)) \<Longrightarrow>
     yank_loop sub planq = Inr (Some n, rest) \<longrightarrow> length rest < length planq"
proof (induction planp and sub planq arbitrary: n rest and n rest rule: yankexpr_yank_loop.pinduct)
  case (1 planp)
  show ?case
  proof (cases "\<exists>planp'. planp = N_OPENPAREN # planp'")
    case True
    then obtain planp' where p: "planp = N_OPENPAREN # planp'" ..
    have "yank_loop [] planp' = Inr (Some n, rest) \<longrightarrow> length rest < length planp'"
      by (rule 1(2) [OF p refl])
    then show ?thesis unfolding p by (subst yankexpr.psimps [OF 1(1) [unfolded p]]) auto
  next
    case False
    then show ?thesis by (subst yankexpr.psimps [OF 1(1)]) (auto split: list.split)
  qed
next
  case (2 subplan planp)
  show ?case
  proof (subst yank_loop.psimps [OF 2(1)], intro impI, goal_cases)
    case 1
    show ?case
    proof (cases "yankexpr planp")
      case (Inr r)
      then obtain nx planp' where r: "yankexpr planp = Inr (Some nx, planp')"
        using 1 by (cases r) (auto split: option.splits)
      then have l: "length planp' < length planp" using 2(2) by blast
      show ?thesis
      proof (cases "nx = N_CLOSEPAREN")
        case True
        with 1 r l show ?thesis by (auto split: if_splits)
      next
        case False
        with 1 r have "yank_loop (subplan @ [nx]) planp' = Inr (Some n, rest)" by simp
        with 2(3) [OF r refl refl False] have "length rest < length planp'" by blast
        with l show ?thesis by simp
      qed
    qed (use 1 in simp)
  qed
qed

termination yankexpr
proof (relation "measure (\<lambda>x. case x of
    Inl planp \<Rightarrow> 2 * length planp | Inr (sub, planp) \<Rightarrow> 2 * length planp + 1)", goal_cases)
  case (4 subplan planp r nx planp' node)
  then show ?case by (auto dest: yank_shrinks(1))
qed auto

declare yankexpr.simps [simp del] yank_loop.simps [simp del]

lemma yankexpr_shrinks:
  "yankexpr planp = Inr (Some n, rest) \<Longrightarrow> length rest < length planp"
  "yank_loop sub planq = Inr (Some n, rest) \<Longrightarrow> length rest < length planq"
proof (induction planp and sub planq arbitrary: n rest and n rest rule: yankexpr_yank_loop.induct)
  case (1 planp)
  from 1(2) show ?case
    unfolding yankexpr.simps [of planp]
    by (auto split: list.splits if_splits dest: 1(1) [rotated 2] intro: less_SucI)
next
  case (2 subplan planp)
  from 2(3) obtain nx planp' where r: "yankexpr planp = Inr (Some nx, planp')"
    unfolding yank_loop.simps [of subplan] by (auto split: sum.splits option.splits)
  then have l: "length planp' < length planp" by (rule 2(1))
  from 2(3) r l show ?case
    unfolding yank_loop.simps [of subplan planp]
    by (auto split: if_splits dest!: 2(2) [OF r refl refl])
qed

function paren_loop :: "plan \<Rightarrow> plan \<Rightarrow> find_error + plan" where
  "paren_loop result plan =
     (case yankexpr plan of
        Inl e \<Rightarrow> Inl e
      | Inr (None, _) \<Rightarrow> Inr result
      | Inr (Some expr, plan') \<Rightarrow>
          if expr = N_CLOSEPAREN then Inl no_beginning else paren_loop (result @ [expr]) plan')"
  by pat_completeness auto
termination
  by (relation "measure (\<lambda>(result, plan). length plan)") (auto dest: yankexpr_shrinks(1))

declare paren_loop.simps [simp del]

definition paren_squish :: "plan \<Rightarrow> find_error + plan" where
  "paren_squish plan = paren_loop [] plan"

text \<open>
  \<open>not_squish\<close>: the \<open>while\<close> loop that counts the nots in a row is \<open>skip_nots\<close>.
\<close>

fun skip_nots :: "plan \<Rightarrow> nat \<times> plan" where
  "skip_nots (N_NOT d # plan) = (case skip_nots plan of (k, rest) \<Rightarrow> (Suc k, rest))"
| "skip_nots plan = (0, plan)"

lemma skip_nots_size: "skip_nots plan = (k, rest) \<Longrightarrow> size_list size rest \<le> size_list size plan"
  by (induction plan arbitrary: k rest rule: skip_nots.induct) (fastforce split: prod.splits)+

fun is_or :: "node \<Rightarrow> bool" where
  "is_or (N_OR a b) = True"
| "is_or _ = False"

fun is_expr :: "node \<Rightarrow> bool" where
  "is_expr (N_EXPR a) = True"
| "is_expr _ = False"

function not_squish :: "plan \<Rightarrow> find_error + plan" where
  "not_squish [] = Inr []"
| "not_squish (N_EXPR sub # plan) =
     ebind (not_squish sub) (\<lambda>sub'. econs (N_EXPR sub') (not_squish plan))"
| "not_squish (N_NOT d # plan) =
     (case skip_nots plan of
        (k, []) \<Rightarrow> Inl not_no_expression
      | (k, node # plan2) \<Rightarrow>
          if is_or node then Inl not_before_or
          else
            ebind (if is_expr node then not_squish [node] else Inr [node])
              (\<lambda>node'. ebind (not_squish plan2)
                 (\<lambda>rest. Inr ((if Suc k mod 2 \<noteq> 1 then node' else [N_NOT node']) @ rest))))"
| "not_squish (Prim p # plan) = econs (Prim p) (not_squish plan)"
| "not_squish (N_OR a b # plan) = econs (N_OR a b) (not_squish plan)"
| "not_squish (N_OPENPAREN # plan) = econs N_OPENPAREN (not_squish plan)"
| "not_squish (N_CLOSEPAREN # plan) = econs N_CLOSEPAREN (not_squish plan)"
  by pat_completeness auto
termination
  by (relation "measure (size_list size)") (auto dest!: skip_nots_size [OF sym])

text \<open>
  \<open>or_squish\<close>, with the result collected so far. An \<open>-o\<close> takes what has been collected as its
  first operand and the rest of the plan, squished, as its second.
\<close>

function or_loop :: "plan \<Rightarrow> plan \<Rightarrow> find_error + plan" where
  "or_loop result [] = Inr result"
| "or_loop result (N_EXPR sub # plan) =
     ebind (or_loop [] sub) (\<lambda>sub'. or_loop (result @ [N_EXPR sub']) plan)"
| "or_loop result (N_NOT sub # plan) =
     ebind (or_loop [] sub) (\<lambda>sub'. or_loop (result @ [N_NOT sub']) plan)"
| "or_loop result (N_OR a b # plan) =
     (if result = [] then Inl or_no_expression_before
      else ebind (or_loop [] plan)
             (\<lambda>r. if r = [] then Inl or_no_expression_after else Inr [N_OR result r]))"
| "or_loop result (Prim p # plan) = or_loop (result @ [Prim p]) plan"
| "or_loop result (N_OPENPAREN # plan) = or_loop (result @ [N_OPENPAREN]) plan"
| "or_loop result (N_CLOSEPAREN # plan) = or_loop (result @ [N_CLOSEPAREN]) plan"
  by pat_completeness auto
termination
  by (relation "measure (\<lambda>(result, plan). size_list size plan)") auto

definition or_squish :: "plan \<Rightarrow> find_error + plan" where
  "or_squish plan = or_loop [] plan"

text \<open>The last part of \<open>find_formplan\<close>.\<close>

definition squish :: "plan \<Rightarrow> find_error + plan" where
  "squish plan = ebind (paren_squish plan) (\<lambda>plan. ebind (not_squish plan) or_squish)"


section \<open>Evaluation\<close>

text \<open>An entry of the walked hierarchy; \<open>fts_statp\<close> is the status \<open>fts\<close> filled in.\<close>

record ftsent =
  fts_name :: string
  fts_path :: string
  fts_accpath :: string
  fts_level :: int
  fts_statp :: stat

record fenv =
  e_now :: int
  e_fnmatch :: "string \<Rightarrow> string \<Rightarrow> bool \<Rightarrow> bool"
  e_regexec :: "string \<Rightarrow> bool \<Rightarrow> string \<Rightarrow> bool"
  e_user_from_uid :: "32 word \<Rightarrow> bool"
  e_group_from_gid :: "32 word \<Rightarrow> bool"
  e_printlong :: "ftsent \<Rightarrow> string"
  e_readdir :: "string \<Rightarrow> string list option"
  e_divsize :: bool

text \<open>What evaluating a primary can change: the output and the entry's \<open>FTS_SKIP\<close>.\<close>

record fstate =
  s_out :: string
  s_files :: "string \<Rightarrow> string"
  s_skip :: bool

definition COMPARE :: "cmp \<Rightarrow> 'a::linorder \<Rightarrow> 'a \<Rightarrow> bool" where
  "COMPARE f a b = (case f of F_EQUAL \<Rightarrow> a = b | F_LESSTHAN \<Rightarrow> a < b | F_GREATER \<Rightarrow> a > b)"

text \<open>C's division, which truncates.\<close>

definition cdiv :: "int \<Rightarrow> int \<Rightarrow> int" where
  "cdiv a b = sgn a * sgn b * (\<bar>a\<bar> div \<bar>b\<bar>)"

abbreviation "SECSPERMIN \<equiv> (60 :: int)"
abbreviation "SECSPERDAY \<equiv> (86400 :: int)"
abbreviation "FIND_SIZE \<equiv> (512 :: int)"

definition age :: "fenv \<Rightarrow> int \<Rightarrow> int \<Rightarrow> int" where
  "age e t unit = cdiv (e_now e - t + unit - 1) unit"

definition is_dot_entry :: "string \<Rightarrow> bool" where
  "is_dot_entry n \<longleftrightarrow> n = ''.'' \<or> n = ''..''"

definition f_empty :: "fenv \<Rightarrow> ftsent \<Rightarrow> bool" where
  "f_empty e ent =
     (let st = fts_statp ent in
      if st_mode st AND S_IFMT = S_IFREG \<and> st_size st = 0 then True
      else if st_mode st AND S_IFMT = S_IFDIR then
        (case e_readdir e (fts_accpath ent) of
           None \<Rightarrow> False
         | Some names \<Rightarrow> list_all is_dot_entry names)
      else False)"

definition f_flags :: "bool \<Rightarrow> 32 word \<Rightarrow> ftsent \<Rightarrow> bool" where
  "f_flags atleast f_data ent =
     (let flags = st_flags (fts_statp ent) in
      if atleast then f_data OR flags = flags else flags = f_data)"

definition f_perm :: "bool \<Rightarrow> mode_t \<Rightarrow> ftsent \<Rightarrow> bool" where
  "f_perm atleast m_data ent =
     (let mode = st_mode (fts_statp ent) AND
        (S_ISUID OR S_ISGID OR S_ISTXT OR S_IRWXU OR S_IRWXG OR S_IRWXO) in
      if atleast then m_data OR mode = mode else mode = m_data)"

definition f_size :: "fenv \<Rightarrow> cmp \<Rightarrow> int \<Rightarrow> ftsent \<Rightarrow> bool" where
  "f_size e f o_data ent =
     (let st_sz = sint (st_size (fts_statp ent));
          sz = (if e_divsize e then cdiv (st_sz + FIND_SIZE - 1) FIND_SIZE else st_sz)
      in COMPARE f sz o_data)"

definition needs_backslash :: "char \<Rightarrow> bool" where
  "needs_backslash c \<longleftrightarrow>
     c \<in> {CHR 0x27, CHR 0x22, CHR '' '', CHR ''$'', CHR 0x60, CHR 0x09, CHR 0x0A, CHR 0x5C}"

fun printx :: "string \<Rightarrow> string" where
  "printx [] = [CHR 0x0A]"
| "printx (c # cs) = (if needs_backslash c then [CHR 0x5C, c] else [c]) @ printx cs"

definition emit :: "string \<Rightarrow> fstate \<Rightarrow> bool \<times> fstate" where
  "emit txt s = (True, s\<lparr>s_out := s_out s @ txt\<rparr>)"

text \<open>
  The \<open>f_\<close> functions; \<open>f_fstype\<close> is the one of the systems that are not NetBSD, and
  \<open>f_regex\<close> serves \<open>-iregex\<close> too. \<open>prim_eval\<close> is the call through \<open>p->eval\<close>.
\<close>

definition f_always_true :: "fstate \<Rightarrow> bool \<times> fstate" where
  "f_always_true s = (True, s)"

definition f_amin :: "fenv \<Rightarrow> ftsent \<Rightarrow> cmp \<Rightarrow> int \<Rightarrow> fstate \<Rightarrow> bool \<times> fstate" where
  "f_amin e ent f t s = (COMPARE f (age e (st_atime (fts_statp ent)) SECSPERMIN) t, s)"

definition f_anewer :: "fenv \<Rightarrow> ftsent \<Rightarrow> int \<Rightarrow> fstate \<Rightarrow> bool \<times> fstate" where
  "f_anewer e ent t s = (st_atime (fts_statp ent) > t, s)"

definition f_atime :: "fenv \<Rightarrow> ftsent \<Rightarrow> cmp \<Rightarrow> int \<Rightarrow> fstate \<Rightarrow> bool \<times> fstate" where
  "f_atime e ent f t s = (COMPARE f (age e (st_atime (fts_statp ent)) SECSPERDAY) t, s)"

definition f_cmin :: "fenv \<Rightarrow> ftsent \<Rightarrow> cmp \<Rightarrow> int \<Rightarrow> fstate \<Rightarrow> bool \<times> fstate" where
  "f_cmin e ent f t s = (COMPARE f (age e (st_ctime (fts_statp ent)) SECSPERMIN) t, s)"

definition f_cnewer :: "fenv \<Rightarrow> ftsent \<Rightarrow> int \<Rightarrow> fstate \<Rightarrow> bool \<times> fstate" where
  "f_cnewer e ent t s = (st_ctime (fts_statp ent) > t, s)"

definition f_ctime :: "fenv \<Rightarrow> ftsent \<Rightarrow> cmp \<Rightarrow> int \<Rightarrow> fstate \<Rightarrow> bool \<times> fstate" where
  "f_ctime e ent f t s = (COMPARE f (age e (st_ctime (fts_statp ent)) SECSPERDAY) t, s)"

definition f_false :: "fenv \<Rightarrow> ftsent \<Rightarrow> fstate \<Rightarrow> bool \<times> fstate" where
  "f_false e ent s = (False, s)"

definition f_fprint :: "fenv \<Rightarrow> ftsent \<Rightarrow> string \<Rightarrow> fstate \<Rightarrow> bool \<times> fstate" where
  "f_fprint e ent file s = (True, s\<lparr>s_files := (s_files s)(file := s_files s file @ fts_path ent @ [CHR 0x0A])\<rparr>)"

definition f_fstype :: "fenv \<Rightarrow> ftsent \<Rightarrow> fstate \<Rightarrow> bool \<times> fstate" where
  "f_fstype e ent s = (True, s)"

definition f_group :: "fenv \<Rightarrow> ftsent \<Rightarrow> 32 word \<Rightarrow> fstate \<Rightarrow> bool \<times> fstate" where
  "f_group e ent g s = (st_gid (fts_statp ent) = g, s)"

definition f_iname :: "fenv \<Rightarrow> ftsent \<Rightarrow> string \<Rightarrow> fstate \<Rightarrow> bool \<times> fstate" where
  "f_iname e ent p s = (e_fnmatch e p (fts_name ent) True, s)"

definition f_inum :: "fenv \<Rightarrow> ftsent \<Rightarrow> cmp \<Rightarrow> 64 word \<Rightarrow> fstate \<Rightarrow> bool \<times> fstate" where
  "f_inum e ent f i s = (COMPARE f (st_ino (fts_statp ent)) i, s)"

definition f_links :: "fenv \<Rightarrow> ftsent \<Rightarrow> cmp \<Rightarrow> 32 word \<Rightarrow> fstate \<Rightarrow> bool \<times> fstate" where
  "f_links e ent f n s = (COMPARE f (st_nlink (fts_statp ent)) n, s)"

definition f_ls :: "fenv \<Rightarrow> ftsent \<Rightarrow> fstate \<Rightarrow> bool \<times> fstate" where
  "f_ls e ent s = emit (e_printlong e ent) s"

definition f_maxdepth :: "fenv \<Rightarrow> ftsent \<Rightarrow> int \<Rightarrow> fstate \<Rightarrow> bool \<times> fstate" where
  "f_maxdepth e ent n s = (fts_level ent \<le> n, if fts_level ent \<ge> n then s\<lparr>s_skip := True\<rparr> else s)"

definition f_mindepth :: "fenv \<Rightarrow> ftsent \<Rightarrow> int \<Rightarrow> fstate \<Rightarrow> bool \<times> fstate" where
  "f_mindepth e ent n s = (fts_level ent \<ge> n, s)"

definition f_mmin :: "fenv \<Rightarrow> ftsent \<Rightarrow> cmp \<Rightarrow> int \<Rightarrow> fstate \<Rightarrow> bool \<times> fstate" where
  "f_mmin e ent f t s = (COMPARE f (age e (st_mtime (fts_statp ent)) SECSPERMIN) t, s)"

definition f_mtime :: "fenv \<Rightarrow> ftsent \<Rightarrow> cmp \<Rightarrow> int \<Rightarrow> fstate \<Rightarrow> bool \<times> fstate" where
  "f_mtime e ent f t s = (COMPARE f (age e (st_mtime (fts_statp ent)) SECSPERDAY) t, s)"

definition f_name :: "fenv \<Rightarrow> ftsent \<Rightarrow> string \<Rightarrow> fstate \<Rightarrow> bool \<times> fstate" where
  "f_name e ent p s = (e_fnmatch e p (fts_name ent) False, s)"

definition f_newer :: "fenv \<Rightarrow> ftsent \<Rightarrow> int \<Rightarrow> fstate \<Rightarrow> bool \<times> fstate" where
  "f_newer e ent t s = (st_mtime (fts_statp ent) > t, s)"

definition f_nogroup :: "fenv \<Rightarrow> ftsent \<Rightarrow> fstate \<Rightarrow> bool \<times> fstate" where
  "f_nogroup e ent s = (\<not> e_group_from_gid e (st_gid (fts_statp ent)), s)"

definition f_nouser :: "fenv \<Rightarrow> ftsent \<Rightarrow> fstate \<Rightarrow> bool \<times> fstate" where
  "f_nouser e ent s = (\<not> e_user_from_uid e (st_uid (fts_statp ent)), s)"

definition f_path :: "fenv \<Rightarrow> ftsent \<Rightarrow> string \<Rightarrow> fstate \<Rightarrow> bool \<times> fstate" where
  "f_path e ent p s = (e_fnmatch e p (fts_path ent) False, s)"

definition f_print :: "fenv \<Rightarrow> ftsent \<Rightarrow> fstate \<Rightarrow> bool \<times> fstate" where
  "f_print e ent s = emit (fts_path ent @ [CHR 0x0A]) s"

definition f_print0 :: "fenv \<Rightarrow> ftsent \<Rightarrow> fstate \<Rightarrow> bool \<times> fstate" where
  "f_print0 e ent s = emit (fts_path ent @ [NUL]) s"

definition f_printx :: "fenv \<Rightarrow> ftsent \<Rightarrow> fstate \<Rightarrow> bool \<times> fstate" where
  "f_printx e ent s = emit (printx (fts_path ent)) s"

definition f_prune :: "fenv \<Rightarrow> ftsent \<Rightarrow> fstate \<Rightarrow> bool \<times> fstate" where
  "f_prune e ent s = (True, s\<lparr>s_skip := True\<rparr>)"

definition f_regex :: "fenv \<Rightarrow> ftsent \<Rightarrow> bool \<Rightarrow> string \<Rightarrow> fstate \<Rightarrow> bool \<times> fstate" where
  "f_regex e ent icase re s = (e_regexec e re icase (fts_path ent), s)"

definition f_type :: "fenv \<Rightarrow> ftsent \<Rightarrow> mode_t \<Rightarrow> fstate \<Rightarrow> bool \<times> fstate" where
  "f_type e ent m s = (st_mode (fts_statp ent) AND S_IFMT = m, s)"

definition f_user :: "fenv \<Rightarrow> ftsent \<Rightarrow> cmp \<Rightarrow> 32 word \<Rightarrow> fstate \<Rightarrow> bool \<times> fstate" where
  "f_user e ent f u s = (COMPARE f (st_uid (fts_statp ent)) u, s)"

lemmas f_defs [simp] = f_always_true_def f_amin_def f_anewer_def f_atime_def f_cmin_def
  f_cnewer_def f_ctime_def f_false_def f_fprint_def f_fstype_def f_group_def f_iname_def
  f_inum_def f_links_def f_ls_def f_maxdepth_def f_mindepth_def f_mmin_def f_mtime_def f_name_def
  f_newer_def f_nogroup_def f_nouser_def f_path_def f_print_def f_print0_def f_printx_def
  f_prune_def f_regex_def f_type_def f_user_def

fun prim_eval :: "fenv \<Rightarrow> ftsent \<Rightarrow> prim \<Rightarrow> fstate \<Rightarrow> bool \<times> fstate" where
  "prim_eval e ent (N_AMIN f t) s = f_amin e ent f t s"
| "prim_eval e ent (N_ANEWER t) s = f_anewer e ent t s"
| "prim_eval e ent (N_ATIME f t) s = f_atime e ent f t s"
| "prim_eval e ent (N_CMIN f t) s = f_cmin e ent f t s"
| "prim_eval e ent (N_CNEWER t) s = f_cnewer e ent t s"
| "prim_eval e ent (N_CTIME f t) s = f_ctime e ent f t s"
| "prim_eval e ent N_DEPTH s = f_always_true s"
| "prim_eval e ent N_EMPTY s = (f_empty e ent, s)"
| "prim_eval e ent (N_EXIT n) s = f_always_true s"
| "prim_eval e ent N_FALSE s = f_false e ent s"
| "prim_eval e ent (N_FLAGS atleast d) s = (f_flags atleast d ent, s)"
| "prim_eval e ent N_FOLLOW s = f_always_true s"
| "prim_eval e ent (N_FPRINT file) s = f_fprint e ent file s"
| "prim_eval e ent N_FSTYPE s = f_fstype e ent s"
| "prim_eval e ent (N_GROUP g) s = f_group e ent g s"
| "prim_eval e ent (N_INAME p) s = f_iname e ent p s"
| "prim_eval e ent (N_INUM f i) s = f_inum e ent f i s"
| "prim_eval e ent (N_LINKS f n) s = f_links e ent f n s"
| "prim_eval e ent N_LS s = f_ls e ent s"
| "prim_eval e ent (N_MAXDEPTH n) s = f_maxdepth e ent n s"
| "prim_eval e ent (N_MINDEPTH n) s = f_mindepth e ent n s"
| "prim_eval e ent (N_MMIN f t) s = f_mmin e ent f t s"
| "prim_eval e ent (N_MTIME f t) s = f_mtime e ent f t s"
| "prim_eval e ent (N_NAME p) s = f_name e ent p s"
| "prim_eval e ent (N_NEWER t) s = f_newer e ent t s"
| "prim_eval e ent N_NOGROUP s = f_nogroup e ent s"
| "prim_eval e ent N_NOUSER s = f_nouser e ent s"
| "prim_eval e ent (N_PATH p) s = f_path e ent p s"
| "prim_eval e ent (N_PERM atleast m) s = (f_perm atleast m ent, s)"
| "prim_eval e ent N_PRINT s = f_print e ent s"
| "prim_eval e ent N_PRINT0 s = f_print0 e ent s"
| "prim_eval e ent N_PRINTX s = f_printx e ent s"
| "prim_eval e ent N_PRUNE s = f_prune e ent s"
| "prim_eval e ent (N_REGEX icase re) s = f_regex e ent icase re s"
| "prim_eval e ent (N_SIZE f n) s = (f_size e f n ent, s)"
| "prim_eval e ent (N_TYPE m) s = f_type e ent m s"
| "prim_eval e ent (N_USER f u) s = f_user e ent f u s"
| "prim_eval e ent N_XDEV s = f_always_true s"

text \<open>
  \<open>f_expr\<close>, \<open>f_not\<close> and \<open>f_or\<close>: their loop is \<open>eval_list\<close>, whose \<open>state\<close> is 0 before the
  first node. Parentheses have no evaluation function; \<open>paren_squish\<close> leaves none in a plan.
\<close>

fun eval_node :: "fenv \<Rightarrow> ftsent \<Rightarrow> node \<Rightarrow> fstate \<Rightarrow> bool \<times> fstate"
  and eval_list :: "fenv \<Rightarrow> ftsent \<Rightarrow> bool \<Rightarrow> plan \<Rightarrow> fstate \<Rightarrow> bool \<times> fstate"
where
  "eval_node e ent (Prim p) s = prim_eval e ent p s"
| "eval_node e ent (N_EXPR sub) s = eval_list e ent False sub s"
| "eval_node e ent (N_NOT sub) s =
     (case eval_list e ent False sub s of (state, s') \<Rightarrow> (\<not> state, s'))"
| "eval_node e ent (N_OR a b) s =
     (case eval_list e ent False a s of
        (state, s') \<Rightarrow> if state then (True, s') else eval_list e ent False b s')"
| "eval_node e ent N_OPENPAREN s = (False, s)"
| "eval_node e ent N_CLOSEPAREN s = (False, s)"
| "eval_list e ent state [] s = (state, s)"
| "eval_list e ent state (p # ps) s =
     (case eval_node e ent p s of (state', s') \<Rightarrow>
        if state' then eval_list e ent True ps s' else (False, s'))"

section \<open>The expression language\<close>

text \<open>
  The grammar of the command line: a disjunction of conjunctions of factors. \<open>dtoks\<close> is the list
  of nodes \<open>find_create\<close> makes of an expression, \<open>deval\<close> its meaning with the short circuits.
\<close>

datatype factor = FPrim prim | FNot factor | FParen "factor list list"

fun ftoks :: "factor \<Rightarrow> plan" and ctoks :: "factor list \<Rightarrow> plan" and dtoks :: "factor list list \<Rightarrow> plan"
where
  "ftoks (FPrim p) = [Prim p]"
| "ftoks (FNot f) = N_NOT [] # ftoks f"
| "ftoks (FParen d) = N_OPENPAREN # dtoks d @ [N_CLOSEPAREN]"
| "ctoks [] = []"
| "ctoks (f # fs) = ftoks f @ ctoks fs"
| "dtoks [] = []"
| "dtoks (c # d) = ctoks c @ (if d = [] then [] else N_OR [] [] # dtoks d)"

fun fok :: "factor \<Rightarrow> bool" and cok :: "factor list \<Rightarrow> bool" and dok :: "factor list list \<Rightarrow> bool"
where
  "fok (FPrim p) = True"
| "fok (FNot f) = fok f"
| "fok (FParen d) = (d \<noteq> [] \<and> dok d)"
| "cok [] = True"
| "cok (f # fs) = (fok f \<and> cok fs)"
| "dok [] = True"
| "dok (c # d) = (c \<noteq> [] \<and> cok c \<and> dok d)"

fun feval :: "fenv \<Rightarrow> ftsent \<Rightarrow> factor \<Rightarrow> fstate \<Rightarrow> bool \<times> fstate"
  and ceval :: "fenv \<Rightarrow> ftsent \<Rightarrow> factor list \<Rightarrow> fstate \<Rightarrow> bool \<times> fstate"
  and deval :: "fenv \<Rightarrow> ftsent \<Rightarrow> factor list list \<Rightarrow> fstate \<Rightarrow> bool \<times> fstate"
where
  "feval e ent (FPrim p) s = prim_eval e ent p s"
| "feval e ent (FNot f) s = (case feval e ent f s of (b, s') \<Rightarrow> (\<not> b, s'))"
| "feval e ent (FParen d) s = deval e ent d s"
| "ceval e ent [] s = (True, s)"
| "ceval e ent (f # fs) s =
     (case feval e ent f s of (b, s') \<Rightarrow> if b then ceval e ent fs s' else (False, s'))"
| "deval e ent [] s = (False, s)"
| "deval e ent (c # d) s =
     (case ceval e ent c s of (b, s') \<Rightarrow> if b then (True, s') else deval e ent d s')"

text \<open>The plans after each of the three passes.\<close>

fun fpar :: "factor \<Rightarrow> plan" and cpar :: "factor list \<Rightarrow> plan" and dpar :: "factor list list \<Rightarrow> plan"
where
  "fpar (FPrim p) = [Prim p]"
| "fpar (FNot f) = N_NOT [] # fpar f"
| "fpar (FParen d) = [N_EXPR (dpar d)]"
| "cpar [] = []"
| "cpar (f # fs) = fpar f @ cpar fs"
| "dpar [] = []"
| "dpar (c # d) = cpar c @ (if d = [] then [] else N_OR [] [] # dpar d)"

fun nnot :: "bool \<Rightarrow> factor \<Rightarrow> node" and cnot :: "factor list \<Rightarrow> plan" and dnot :: "factor list list \<Rightarrow> plan"
where
  "nnot neg (FPrim p) = (if neg then N_NOT [Prim p] else Prim p)"
| "nnot neg (FNot f) = nnot (\<not> neg) f"
| "nnot neg (FParen d) = (if neg then N_NOT [N_EXPR (dnot d)] else N_EXPR (dnot d))"
| "cnot [] = []"
| "cnot (f # fs) = nnot False f # cnot fs"
| "dnot [] = []"
| "dnot (c # d) = cnot c @ (if d = [] then [] else N_OR [] [] # dnot d)"

fun nor :: "bool \<Rightarrow> factor \<Rightarrow> node" and cor :: "factor list \<Rightarrow> plan" and dor :: "factor list list \<Rightarrow> plan"
where
  "nor neg (FPrim p) = (if neg then N_NOT [Prim p] else Prim p)"
| "nor neg (FNot f) = nor (\<not> neg) f"
| "nor neg (FParen d) = (if neg then N_NOT [N_EXPR (dor d)] else N_EXPR (dor d))"
| "cor [] = []"
| "cor (f # fs) = nor False f # cor fs"
| "dor [] = []"
| "dor (c # d) = (if d = [] then cor c else [N_OR (cor c) (dor d)])"

lemma ftoks_ne: "ftoks f \<noteq> []" "c \<noteq> [] \<Longrightarrow> ctoks c \<noteq> []"
  by (cases f; simp) (cases c; simp; cases "hd c"; simp)

lemma fpar_ne: "fpar f \<noteq> []" by (cases f) simp_all

lemma dpar_ne: "d \<noteq> [] \<Longrightarrow> dok d \<Longrightarrow> dpar d \<noteq> []"
  by (cases d; simp; cases "hd d"; simp add: fpar_ne)

lemma yank_loop_simps:
  "yank_loop sub (Prim p # r) = yank_loop (sub @ [Prim p]) r"
  "yank_loop sub (N_NOT d # r) = yank_loop (sub @ [N_NOT d]) r"
  "yank_loop sub (N_OR a b # r) = yank_loop (sub @ [N_OR a b]) r"
  "yank_loop sub (N_CLOSEPAREN # r) =
     (if sub = [] then Inl empty_inner else Inr (Some (N_EXPR sub), r))"
  by (subst yank_loop.simps, simp add: yankexpr.simps)+

lemma yank_loop_toks:
  "fok f \<Longrightarrow> yank_loop sub (ftoks f @ r) = yank_loop (sub @ fpar f) r"
  "cok c \<Longrightarrow> yank_loop sub (ctoks c @ r) = yank_loop (sub @ cpar c) r"
  "dok d \<Longrightarrow> yank_loop sub (dtoks d @ r) = yank_loop (sub @ dpar d) r"
proof (induction f and c and d arbitrary: sub r and sub r and sub r rule: ftoks_ctoks_dtoks.induct)
  case (3 d)
  then have "yank_loop [] (dtoks d @ N_CLOSEPAREN # r) = Inr (Some (N_EXPR (dpar d)), r)"
    using dpar_ne [of d] by (simp add: yank_loop_simps)
  then have "yankexpr (ftoks (FParen d) @ r) = Inr (Some (N_EXPR (dpar d)), r)"
    by (subst yankexpr.simps) simp
  then show ?case by (subst yank_loop.simps) simp
qed (auto simp: yank_loop_simps)

lemma paren_loop_toks:
  "fok f \<Longrightarrow> paren_loop res (ftoks f @ r) = paren_loop (res @ fpar f) r"
  "cok c \<Longrightarrow> paren_loop res (ctoks c @ r) = paren_loop (res @ cpar c) r"
  "dok d \<Longrightarrow> paren_loop res (dtoks d @ r) = paren_loop (res @ dpar d) r"
proof (induction f and c and d arbitrary: res r and res r and res r rule: ftoks_ctoks_dtoks.induct)
  case (3 d)
  then have "yank_loop [] (dtoks d @ N_CLOSEPAREN # r) = Inr (Some (N_EXPR (dpar d)), r)"
    using dpar_ne [of d] by (simp add: yank_loop_simps yank_loop_toks)
  then have "yankexpr (ftoks (FParen d) @ r) = Inr (Some (N_EXPR (dpar d)), r)"
    by (subst yankexpr.simps) simp
  then show ?case by (subst paren_loop.simps) simp
next
  case 1 show ?case by (subst paren_loop.simps) (simp add: yankexpr.simps)
next
  case 2 then show ?case by (subst paren_loop.simps) (simp add: yankexpr.simps)
next
  case (7 c d) 
  have "paren_loop res (N_OR [] [] # r') = paren_loop (res @ [N_OR [] []]) r'" for res r'
    by (subst paren_loop.simps) (simp add: yankexpr.simps)
  with 7 show ?case by auto
qed auto

lemma paren_squish_toks: "dok d \<Longrightarrow> paren_squish (dtoks d) = Inr (dpar d)"
  using paren_loop_toks(3) [of d "[]" "[]"]
  by (simp add: paren_squish_def) (simp add: paren_loop.simps yankexpr.simps)


lemma skip_replicate:
  "(\<And>d. n \<noteq> N_NOT d) \<Longrightarrow> skip_nots (replicate j (N_NOT []) @ n # r) = (j, n # r)"
proof (induction j)
  case 0
  then show ?case by (cases n) auto
qed simp

lemma not_squish_par:
  "fok f \<Longrightarrow> not_squish (replicate k (N_NOT []) @ fpar f @ r) = econs (nnot (odd k) f) (not_squish r)"
  "cok c \<Longrightarrow> not_squish (cpar c @ r) = ebind (not_squish r) (\<lambda>rest. Inr (cnot c @ rest))"
  "dok d \<Longrightarrow> not_squish (dpar d @ r) = ebind (not_squish r) (\<lambda>rest. Inr (dnot d @ rest))"
proof (induction f and c and d arbitrary: k r and r and r rule: ftoks_ctoks_dtoks.induct)
  case (1 p)
  show ?case
  proof (cases k)
    case (Suc j)
    have "skip_nots (replicate j (N_NOT []) @ Prim p # r) = (j, Prim p # r)"
      by (rule skip_replicate) simp
    with Suc show ?thesis by (auto simp: econs_def)
  qed simp
next
  case (2 f)
  have "replicate k (N_NOT []) @ fpar (FNot f) @ r = replicate (Suc k) (N_NOT []) @ fpar f @ r"
    by (simp add: replicate_app_Cons_same)
  then have "not_squish (replicate k (N_NOT []) @ fpar (FNot f) @ r) =
      econs (nnot (odd (Suc k)) f) (not_squish r)"
    using 2 by (simp only: fok.simps simp_thms)
  then show ?case by simp
next
  case (3 d)
  then have e: "not_squish (dpar d) = Inr (dnot d)" using 3(1) [of "[]"] by simp
  show ?case
  proof (cases k)
    case (Suc j)
    have "skip_nots (replicate j (N_NOT []) @ N_EXPR (dpar d) # r) = (j, N_EXPR (dpar d) # r)"
      by (rule skip_replicate) simp
    with Suc e show ?thesis by (auto simp: econs_def)
  qed (simp add: e)
next
  case (5 f c)
  then show ?case using 5(1) [of 0] by (simp add: econs_def ebind_assoc)
next
  case (7 c d)
  then show ?case by (auto simp: econs_def ebind_assoc)
qed auto

lemma not_squish_dpar: "dok d \<Longrightarrow> not_squish (dpar d) = Inr (dnot d)"
  using not_squish_par(3) [of d "[]"] by simp

lemma or_loop_not:
  "fok f \<Longrightarrow> or_loop res (nnot neg f # r) = or_loop (res @ [nor neg f]) r"
  "cok c \<Longrightarrow> or_loop res (cnot c @ r) = or_loop (res @ cor c) r"
  "dok d \<Longrightarrow> or_loop [] (dnot d) = Inr (dor d)"
proof (induction f and c and d arbitrary: res neg r and res r and rule: ftoks_ctoks_dtoks.induct)
  case (7 c d)
  have ne: "cor c \<noteq> []" using 7 by (cases c) auto
  show ?case
  proof (cases "d = []")
    case True
    then show ?thesis using 7 7(1) [of "[]" "[]"] by simp
  next
    case False
    have "dor d \<noteq> []" using False 7 by (cases d; cases "hd d") auto
    then show ?thesis using 7 False ne by auto
  qed
qed auto

lemma or_squish_dnot: "dok d \<Longrightarrow> or_squish (dnot d) = Inr (dor d)"
  by (simp add: or_squish_def or_loop_not)

lemma eval_nor:
  "fok f \<Longrightarrow> eval_node e ent (nor neg f) s = (case feval e ent f s of (b, s') \<Rightarrow> (b \<noteq> neg, s'))"
  "cok c \<Longrightarrow> eval_list e ent st (cor c) s =
     (case ceval e ent c s of (b, s') \<Rightarrow> (if c = [] then st else b, s'))"
  "dok d \<Longrightarrow> d \<noteq> [] \<Longrightarrow> eval_list e ent st (dor d) s = deval e ent d s"
proof (induction f and c and d arbitrary: neg s and s st and s st rule: ftoks_ctoks_dtoks.induct)
  case (5 f c)
  then show ?case by (auto split: prod.splits if_splits)
next
  case (7 c d)
  then show ?case by (auto split: prod.splits if_splits)
qed (auto split: prod.splits)

section \<open>Properties\<close>

text \<open>
  C2. \<open>fsu_find\<close> understands its operators: from the nodes of any well-formed expression
  (disjunctions of conjunctions of possibly negated primaries and parenthesised expressions) the
  three passes build a plan that evaluates to the expression's meaning, with the short circuits of
  \<open>-a\<close> and \<open>-o\<close> and the same output.
\<close>

theorem squish_correct:
  assumes "d \<noteq> []" and "dok d"
  shows "\<exists>plan. squish (dtoks d) = Inr plan \<and>
    (\<forall>e ent s. eval_list e ent False plan s = deval e ent d s)"
  using assms
  by (simp add: squish_def paren_squish_toks not_squish_dpar or_squish_dnot eval_nor)

theorem squish_correct_witness:
  "\<exists>plan. squish [Prim N_FALSE, N_OR [] [], N_NOT [], N_NOT [], N_NOT [], N_OPENPAREN,
       Prim N_FALSE, N_OR [] [], Prim N_FALSE, N_CLOSEPAREN, Prim N_PRUNE] = Inr plan \<and>
    (\<forall>e ent s. eval_list e ent False plan s = (True, s\<lparr>s_skip := True\<rparr>))"
  using squish_correct [of "[[FPrim N_FALSE],
      [FNot (FNot (FNot (FParen [[FPrim N_FALSE], [FPrim N_FALSE]]))), FPrim N_PRUNE]]"]
  by simp

end
