(* ===== verification/Stat_Flags.thy ===== *)
theory Stat_Flags
  imports FSU_Prelude
begin

text \<open>
  \<^verbatim>\<open>src/lib/stat_flags.c\<close>: the file flags of \<open>chflags\<close> as text. Strings are values;
  \<open>strsep\<close> (\<^verbatim>\<open>src/lib/compat.c\<close>) returns a token and what is left, nothing being left
  after the last one. The flag constants are those of \<^verbatim>\<open>src/lib/nbsysstat.h\<close>.
\<close>

type_synonym flags = "32 word"

abbreviation "UF_NODUMP \<equiv> (0x00000001 :: flags)"
abbreviation "UF_IMMUTABLE \<equiv> (0x00000002 :: flags)"
abbreviation "UF_APPEND \<equiv> (0x00000004 :: flags)"
abbreviation "UF_OPAQUE \<equiv> (0x00000008 :: flags)"
abbreviation "SF_ARCHIVED \<equiv> (0x00010000 :: flags)"
abbreviation "SF_IMMUTABLE \<equiv> (0x00020000 :: flags)"
abbreviation "SF_APPEND \<equiv> (0x00040000 :: flags)"
abbreviation "SF_SNAPSHOT \<equiv> (0x00200000 :: flags)"

section \<open>strsep\<close>

definition strsep :: "(char \<Rightarrow> bool) \<Rightarrow> string option \<Rightarrow> (string \<times> string option) option" where
  "strsep delim stringp =
     (case stringp of
        None \<Rightarrow> None
      | Some s \<Rightarrow>
          (let tok = takeWhile (\<lambda>c. \<not> delim c) s in
           Some (tok, case dropWhile (\<lambda>c. \<not> delim c) s of [] \<Rightarrow> None | _ # rest \<Rightarrow> Some rest)))"

lemma strsep_rest:
  "strsep delim (Some s) = Some (tok, Some rest) \<Longrightarrow> length rest < length s"
  by (auto simp: strsep_def Let_def split: list.splits)
    (metis length_Cons length_dropWhile_le less_Suc_eq_le less_le_trans lessI)

lemma strsep_None [simp]: "strsep delim None = None"
  by (simp add: strsep_def)

section \<open>Flags to text\<close>

text \<open>
  The macro \<open>SAPPEND\<close>: \<open>prefix\<close> is unset before the first name. The buffer of 128 characters
  holds all names (\<open>flags_to_string_fits\<close>).
\<close>

definition sappend :: "string \<Rightarrow> string \<Rightarrow> string" where
  "sappend s string = string @ (if string = [] then [] else '','') @ s"

definition flags_to_string :: "flags \<Rightarrow> string \<Rightarrow> string" where
  "flags_to_string fl deflt =
     (let s = [];
          s = (if fl AND UF_APPEND \<noteq> 0 then sappend ''uappnd'' s else s);
          s = (if fl AND UF_IMMUTABLE \<noteq> 0 then sappend ''uchg'' s else s);
          s = (if fl AND UF_NODUMP \<noteq> 0 then sappend ''nodump'' s else s);
          s = (if fl AND UF_OPAQUE \<noteq> 0 then sappend ''opaque'' s else s);
          s = (if fl AND SF_APPEND \<noteq> 0 then sappend ''sappnd'' s else s);
          s = (if fl AND SF_ARCHIVED \<noteq> 0 then sappend ''arch'' s else s);
          s = (if fl AND SF_IMMUTABLE \<noteq> 0 then sappend ''schg'' s else s);
          s = (if fl AND SF_SNAPSHOT \<noteq> 0 then sappend ''snap'' s else s)
      in if s \<noteq> [] then s else deflt)"

section \<open>Text to flags\<close>

text \<open>
  The flag a name stands for, by the tests of the \<open>switch\<close>, and whether the name itself means
  clearing (\<open>dump\<close> inverts the meaning of the prefix \<open>no\<close>).
\<close>

definition flag_of_name :: "string \<Rightarrow> (flags \<times> bool) option" where
  "flag_of_name p =
     (if p = ''arch'' \<or> p = ''archived'' then Some (SF_ARCHIVED, False)
      else if p = ''dump'' then Some (UF_NODUMP, True)
      else if p = ''nodump'' then Some (UF_NODUMP, False)
      else if p = ''opaque'' then Some (UF_OPAQUE, False)
      else if p = ''sappnd'' \<or> p = ''sappend'' then Some (SF_APPEND, False)
      else if p = ''schg'' \<or> p = ''schange'' \<or> p = ''simmutable'' then Some (SF_IMMUTABLE, False)
      else if p = ''uappnd'' \<or> p = ''uappend'' then Some (UF_APPEND, False)
      else if p = ''uchg'' \<or> p = ''uchange'' \<or> p = ''uimmutable'' then Some (UF_IMMUTABLE, False)
      else None)"

definition has_no :: "string \<Rightarrow> bool" where
  "has_no p \<longleftrightarrow> take 2 p = ''no''"

text \<open>
  One token: the flag it names, and whether it is cleared; \<^const>\<open>None\<close> is the \<open>return (1)\<close>.
\<close>

definition flag_token :: "string \<Rightarrow> (flags \<times> bool) option" where
  "flag_token p =
     (let clear = has_no p; q = (if clear then drop 2 p else p) in
      map_option (\<lambda>(f, inv). (f, clear \<noteq> inv)) (flag_of_name q))"

text \<open>The macro \<open>TEST\<close> on \<open>setp\<close> and \<open>clrp\<close>.\<close>

definition TEST :: "flags \<times> bool \<Rightarrow> flags \<times> flags \<Rightarrow> flags \<times> flags" where
  "TEST f sc =
     (case (f, sc) of ((f, clear), (setp, clrp)) \<Rightarrow>
        if clear then (setp AND NOT f, clrp OR f) else (setp OR f, clrp AND NOT f))"

definition flag_delim :: "char \<Rightarrow> bool" where
  "flag_delim c \<longleftrightarrow> c = CHR 0x09 \<or> c = CHR '' '' \<or> c = CHR '',''"

text \<open>The loop: \<open>Inl\<close> is the offending token.\<close>

function s2f_loop :: "string option \<Rightarrow> flags \<times> flags \<Rightarrow> string + flags \<times> flags" where
  "s2f_loop stringp sc =
     (case strsep flag_delim stringp of
        None \<Rightarrow> Inr sc
      | Some (p, rest) \<Rightarrow>
          if p = [] then s2f_loop rest sc
          else
            (case flag_token p of
               None \<Rightarrow> Inl p
             | Some f \<Rightarrow> s2f_loop rest (TEST f sc)))"
  by pat_completeness auto
termination
proof (relation "measure (\<lambda>(s, sc). case s of None \<Rightarrow> 0 | Some s \<Rightarrow> Suc (length s))", goal_cases)
  case (2 stringp sc t p rest)
  then show ?case by (cases stringp; cases rest) (auto dest: strsep_rest)
next
  case (3 stringp sc t p rest f)
  then show ?case by (cases stringp; cases rest) (auto dest: strsep_rest)
qed simp

declare s2f_loop.simps [simp del]

definition string_to_flags :: "string \<Rightarrow> string + flags \<times> flags" where
  "string_to_flags s = s2f_loop (Some s) (0, 0)"

section \<open>Lemmas\<close>

definition name_ok :: "string \<Rightarrow> bool" where
  "name_ok p \<longleftrightarrow> p \<noteq> [] \<and> list_all (\<lambda>c. \<not> flag_delim c) p"

fun commas :: "string list \<Rightarrow> string" where
  "commas [] = []"
| "commas (n # ns) = (if ns = [] then n else n @ '','' @ commas ns)"

lemma strsep_last: "name_ok p \<Longrightarrow> strsep flag_delim (Some p) = Some (p, None)"
proof -
  assume "name_ok p"
  then have a: "takeWhile (\<lambda>c. \<not> flag_delim c) p = p" "dropWhile (\<lambda>c. \<not> flag_delim c) p = []"
    by (simp_all only: name_ok_def list_all_iff takeWhile_eq_all_conv dropWhile_eq_Nil_conv) blast+
  show ?thesis by (simp only: strsep_def Let_def option.case a list.case)
qed

lemma strsep_comma:
  "name_ok p \<Longrightarrow> strsep flag_delim (Some (p @ CHR '','' # r)) = Some (p, Some r)"
  by (auto simp: strsep_def name_ok_def list_all_iff takeWhile_append dropWhile_append
      flag_delim_def takeWhile_eq_all_conv dropWhile_eq_Nil_conv)

lemma s2f_commas:
  assumes "list_all name_ok ns" and "ns \<noteq> []"
    and "list_all (\<lambda>n. \<exists>f. flag_token n = Some (f, False)) ns"
  shows "s2f_loop (Some (commas ns)) (setp, clrp) =
    Inr (fold (\<lambda>n s. s OR fst (the (flag_token n))) ns setp,
         fold (\<lambda>n c. c AND NOT (fst (the (flag_token n)))) ns clrp)"
  using assms
proof (induction ns arbitrary: setp clrp)
  case (Cons n ns)
  obtain f where f: "flag_token n = Some (f, False)" using Cons.prems by auto
  have ne: "n \<noteq> []" using Cons.prems by (simp add: name_ok_def)
  show ?case
  proof (cases "ns = []")
    case True
    then show ?thesis
      using Cons.prems f ne
      by (subst s2f_loop.simps) (simp add: strsep_last TEST_def, subst s2f_loop.simps, simp)
  next
    case False
    then show ?thesis
      using Cons f ne by (subst s2f_loop.simps) (simp add: strsep_comma TEST_def)
  qed
qed simp

text \<open>The names that \<open>flags_to_string\<close> prints.\<close>

definition flag_names :: "(flags \<times> string) list" where
  "flag_names =
     [(UF_APPEND, ''uappnd''), (UF_IMMUTABLE, ''uchg''), (UF_NODUMP, ''nodump''),
      (UF_OPAQUE, ''opaque''), (SF_APPEND, ''sappnd''), (SF_ARCHIVED, ''arch''),
      (SF_IMMUTABLE, ''schg''), (SF_SNAPSHOT, ''snap'')]"

definition names_of :: "flags \<Rightarrow> string list" where
  "names_of fl = map snd (filter (\<lambda>(f, n). fl AND f \<noteq> 0) flag_names)"

lemma commas_snoc: "list_all (\<lambda>n. n \<noteq> []) ns \<Longrightarrow> commas (ns @ [n]) = sappend n (commas ns)"
proof (induction ns)
  case (Cons a ns)
  then show ?case by (cases ns) (auto simp: sappend_def)
qed (simp add: sappend_def)


lemma flags_to_string_names:
  "flags_to_string fl deflt = (if names_of fl = [] then deflt else commas (names_of fl))"
proof -
  have s: "sappend n s \<noteq> [] \<longleftrightarrow> n \<noteq> [] \<or> s \<noteq> []" for n s by (simp add: sappend_def)
  define step where "step = (\<lambda>s (f, n). if fl AND f \<noteq> 0 then sappend n s else s)"
  have fold: "foldl step (commas ns) fs = commas (ns @ map snd (filter (\<lambda>(f, n). fl AND f \<noteq> 0) fs))"
    if "list_all (\<lambda>n. n \<noteq> []) ns" "list_all (\<lambda>(f, n). n \<noteq> []) fs" for ns and fs :: "(flags \<times> string) list"
    using that
    by (induction fs arbitrary: ns) (auto simp: step_def commas_snoc [symmetric])
  have "foldl step [] flag_names = commas (names_of fl)"
    using fold [of "[]" flag_names] by (simp add: names_of_def) (simp add: flag_names_def)
  moreover have "commas ns = [] \<longleftrightarrow> ns = []" if "list_all (\<lambda>n. n \<noteq> []) ns" for ns
    using that by (cases ns) auto
  moreover have "list_all (\<lambda>n. n \<noteq> []) (names_of fl)"
    by (auto simp: names_of_def flag_names_def list_all_iff)
  moreover have "flags_to_string fl deflt = (if foldl step [] flag_names = [] then deflt else foldl step [] flag_names)"
    by (simp add: flags_to_string_def flag_names_def step_def Let_def)
  ultimately show ?thesis by auto
qed

lemma names_of_mem: "n \<in> set (names_of fl) \<longleftrightarrow> (\<exists>f. (f, n) \<in> set flag_names \<and> fl AND f \<noteq> 0)"
  by (force simp: names_of_def)

lemma names_of_sub: "n \<in> set (names_of fl) \<Longrightarrow> n \<in> set (map snd flag_names)"
  by (auto simp: names_of_def)

lemma names_tokens:
  assumes "n \<in> set (names_of fl)" and "n \<noteq> ''snap''"
  shows "\<exists>f. flag_token n = Some (f, False)"
  using names_of_sub [OF assms(1)] assms(2)
  by (auto simp: flag_names_def flag_token_def flag_of_name_def has_no_def)

lemma names_name_ok: "list_all name_ok (names_of fl)"
  by (auto simp: names_of_def flag_names_def list_all_iff name_ok_def flag_delim_def)


lemma s2f_unknown:
  assumes "list_all name_ok ns" and "list_all (\<lambda>n. \<exists>f. flag_token n = Some (f, False)) ns"
    and "name_ok bad" and "flag_token bad = None"
  shows "s2f_loop (Some (commas (ns @ [bad]))) sc = Inl bad"
  using assms(1,2)
proof (induction ns arbitrary: sc)
  case Nil
  then show ?case
    using assms(3,4) by (subst s2f_loop.simps) (auto simp: strsep_last name_ok_def)
next
  case (Cons n ns)
  then obtain f where "flag_token n = Some (f, False)" "n \<noteq> []" by (auto simp: name_ok_def)
  then show ?case using Cons by (subst s2f_loop.simps) (simp add: strsep_comma)
qed

definition KNOWN_FLAGS :: flags where
  "KNOWN_FLAGS = 0x0007000F"

text \<open>The flags that the names of \<open>flags_to_string\<close> spell.\<close>

lemma fold_names:
  "fold (\<lambda>n s. s OR fst (the (flag_token n))) (map snd (filter (\<lambda>(f, n). fl AND f \<noteq> 0) fs)) s =
   fold (\<lambda>(f, n) s. if fl AND f \<noteq> 0 then s OR fst (the (flag_token n)) else s) fs s"
  by (induction fs arbitrary: s) auto

lemma fold_clr: "fold (\<lambda>n c. c AND NOT (g n)) ns (0 :: flags) = 0"
  by (induction ns) auto

lemma flag_tokens:
  "flag_token ''uappnd'' = Some (UF_APPEND, False)" "flag_token ''uchg'' = Some (UF_IMMUTABLE, False)"
  "flag_token ''nodump'' = Some (UF_NODUMP, False)" "flag_token ''opaque'' = Some (UF_OPAQUE, False)"
  "flag_token ''sappnd'' = Some (SF_APPEND, False)" "flag_token ''arch'' = Some (SF_ARCHIVED, False)"
  "flag_token ''schg'' = Some (SF_IMMUTABLE, False)" "flag_token ''snap'' = None"
  by (simp_all add: flag_token_def flag_of_name_def has_no_def)

lemma and_pow_bit: "(fl :: flags) AND 2 ^ k \<noteq> 0 \<longleftrightarrow> bit fl k"
  by (simp add: and_exp_eq_0_iff_not_bit)

lemma known_bits:
  assumes "fl AND NOT KNOWN_FLAGS = 0" and "bit fl i"
  shows "i \<in> {0, 1, 2, 3, 16, 17, 18}"
proof -
  have k: "KNOWN_FLAGS = push_bit 16 (mask 3) OR mask 4"
    by (simp add: KNOWN_FLAGS_def mask_eq_exp_minus_1)
  have "i < 32" using assms(2) by (auto dest: bit_imp_le_length)
  moreover have "bit KNOWN_FLAGS i"
  proof (rule ccontr)
    assume "\<not> bit KNOWN_FLAGS i"
    with assms(2) \<open>i < 32\<close> have "bit (fl AND NOT KNOWN_FLAGS) i" by (simp add: bit_simps)
    then show False unfolding assms(1) by simp
  qed
  ultimately show ?thesis unfolding k by (auto simp: bit_simps)
qed

lemma flags_sum:
  assumes "fl AND NOT KNOWN_FLAGS = 0"
  shows "fold (\<lambda>(f, n) s. if fl AND f \<noteq> 0 then s OR fst (the (flag_token n)) else s) flag_names 0 = fl"
proof -
  have t: "fl AND UF_APPEND \<noteq> 0 \<longleftrightarrow> bit fl 2" "fl AND UF_IMMUTABLE \<noteq> 0 \<longleftrightarrow> bit fl 1"
    "fl AND UF_NODUMP \<noteq> 0 \<longleftrightarrow> bit fl 0" "fl AND UF_OPAQUE \<noteq> 0 \<longleftrightarrow> bit fl 3"
    "fl AND SF_APPEND \<noteq> 0 \<longleftrightarrow> bit fl 18" "fl AND SF_ARCHIVED \<noteq> 0 \<longleftrightarrow> bit fl 16"
    "fl AND SF_IMMUTABLE \<noteq> 0 \<longleftrightarrow> bit fl 17" "fl AND SF_SNAPSHOT \<noteq> 0 \<longleftrightarrow> bit fl 21"
    using and_pow_bit [of fl 2] and_pow_bit [of fl 1] and_pow_bit [of fl 0] and_pow_bit [of fl 3]
      and_pow_bit [of fl 18] and_pow_bit [of fl 16] and_pow_bit [of fl 17] and_pow_bit [of fl 21]
    by simp_all
  have snap: "\<not> bit fl 21" using known_bits [OF assms, of 21] by auto
  have i: "(if b then s OR f else s) = s OR (if b then f else 0)" for b and s f :: flags by simp
  let ?b = "\<lambda>k. if bit fl k then 2 ^ k else 0 :: flags"
  have "fold (\<lambda>(f, n) s. if fl AND f \<noteq> 0 then s OR fst (the (flag_token n)) else s) flag_names 0 =
      ((((((0 OR (if bit fl 2 then UF_APPEND else 0)) OR (if bit fl 1 then UF_IMMUTABLE else 0))
        OR (if bit fl 0 then UF_NODUMP else 0)) OR (if bit fl 3 then UF_OPAQUE else 0))
        OR (if bit fl 18 then SF_APPEND else 0)) OR (if bit fl 16 then SF_ARCHIVED else 0))
        OR (if bit fl 17 then SF_IMMUTABLE else 0)"
    unfolding flag_names_def fold.simps prod.case comp_def id_def flag_tokens t
    using snap by (simp only: if_False option.sel fst_conv i or.right_neutral)
  also have "\<dots> = ?b 2 OR ?b 1 OR ?b 0 OR ?b 3 OR ?b 18 OR ?b 16 OR ?b 17"
    by (simp add: or.assoc)
  also have "\<dots> = fl"
  proof (rule bit_word_eqI)
    fix i assume "i < LENGTH(32)"
    then have b: "bit (?b k) i \<longleftrightarrow> i = k \<and> bit fl k" for k by (auto simp: bit_exp_iff)
    show "bit (?b 2 OR ?b 1 OR ?b 0 OR ?b 3 OR ?b 18 OR ?b 16 OR ?b 17) i = bit fl i"
      unfolding bit_or_iff b using known_bits [OF assms, of i] by blast
  qed
  finally show ?thesis .
qed

section \<open>Properties\<close>

text \<open>
  C18. Flags survive the trip through text: what \<open>flags_to_string\<close> prints for a non-empty set of
  the seven common flags, \<open>string_to_flags\<close> reads back exactly, with nothing to clear.
\<close>

theorem flags_roundtrip:
  assumes "fl AND NOT KNOWN_FLAGS = 0" and "fl \<noteq> 0"
  shows "string_to_flags (flags_to_string fl deflt) = Inr (fl, 0)"
proof -
  have s: "''snap'' \<notin> set (names_of fl)"
  proof
    assume "''snap'' \<in> set (names_of fl)"
    then have "fl AND SF_SNAPSHOT \<noteq> 0" by (auto simp: names_of_mem flag_names_def)
    then have "bit fl 21" using and_pow_bit [of fl 21] by simp
    then show False using known_bits [OF assms(1), of 21] by auto
  qed
  have tok: "list_all (\<lambda>n. \<exists>f. flag_token n = Some (f, False)) (names_of fl)"
    using names_tokens s unfolding list_all_iff by metis
  have sum: "fold (\<lambda>n s. s OR fst (the (flag_token n))) (names_of fl) 0 = fl"
    unfolding names_of_def fold_names using flags_sum [OF assms(1)] .
  with assms(2) have "names_of fl \<noteq> []" by auto
  then show ?thesis
    using s2f_commas [OF names_name_ok _ tok, of 0 0]
    by (simp add: string_to_flags_def flags_to_string_names sum fold_clr)
qed

theorem flags_roundtrip_witness:
  "flags_to_string 0x00060001 ''-'' = ''nodump,sappnd,schg'' \<and>
    string_to_flags ''nodump,sappnd,schg'' = Inr (0x00060001, 0)"
proof -
  have "flags_to_string 0x00060001 ''-'' = ''nodump,sappnd,schg''"
    by (simp add: flags_to_string_def sappend_def)
  with flags_roundtrip [of "0x00060001" "''-''"] show ?thesis by (simp add: KNOWN_FLAGS_def)
qed

text \<open>
  The snapshot flag is printed but not understood: the text of any set of flags that contains it
  is rejected with the token \<open>snap\<close>.
\<close>

theorem snapshot_not_read:
  assumes "fl AND SF_SNAPSHOT \<noteq> 0"
  shows "string_to_flags (flags_to_string fl deflt) = Inl ''snap''"
proof -
  let ?ns = "map snd (filter (\<lambda>(f, n). fl AND f \<noteq> 0) (butlast flag_names))"
  have n: "names_of fl = ?ns @ [''snap'']"
    using assms by (simp add: names_of_def flag_names_def)
  have "list_all name_ok ?ns" using names_name_ok [of fl] by (simp add: n)
  moreover have "''snap'' \<notin> set ?ns" by (auto simp: flag_names_def)
  then have "list_all (\<lambda>n. \<exists>f. flag_token n = Some (f, False)) ?ns"
    using names_tokens [of _ fl] unfolding list_all_iff n by (metis UnI1 set_append)
  moreover have "name_ok ''snap''" by (simp add: name_ok_def flag_delim_def)
  ultimately have "s2f_loop (Some (commas (names_of fl))) (0, 0) = Inl ''snap''"
    unfolding n by (rule s2f_unknown) (rule flag_tokens)
  then show ?thesis by (simp add: string_to_flags_def flags_to_string_names n)
qed

theorem snapshot_not_read_witness:
  "string_to_flags ''uchg,snap'' = Inl ''snap''"
proof -
  have "flags_to_string 0x00200002 [] = ''uchg,snap''" by (simp add: flags_to_string_def sappend_def)
  with snapshot_not_read [of "0x00200002" "[]"] show ?thesis by simp
qed

end
