(* ===== verification/Find_Create.thy ===== *)
theory Find_Create
  imports FTS Find_Plan Stat_Flags CLib
begin

text \<open>
  \<^verbatim>\<open>src/src/find_option.c\<close>, the \<open>c_\<close> functions of
  \<^verbatim>\<open>src/src/find_function.c\<close> and \<open>find_formplan\<close> of
  \<^verbatim>\<open>src/src/find_find.c\<close>: from the arguments of the command line to the plan. The
  global variables the \<open>c_\<close> functions set are the record \<open>fglobals\<close>; what they ask of the
  system is the record \<open>cenv\<close>. A creator gets the arguments behind the option's name and returns
  the node (none for \<open>-a\<close>) and the arguments it has left.
\<close>

section \<open>Numbers\<close>

text \<open>\<open>strtoll(s, \&endchar, 10)\<close>: the value and the string at \<open>endchar\<close>.\<close>

fun digits10 :: "int \<Rightarrow> string \<Rightarrow> int \<times> string" where
  "digits10 acc [] = (acc, [])"
| "digits10 acc (c # cs) =
     (if isdigit_c c then digits10 (acc * 10 + (of_char c - 48)) cs else (acc, c # cs))"

definition clamp64 :: "int \<Rightarrow> int" where
  "clamp64 v = max (- (2 ^ 63)) (min (2 ^ 63 - 1) v)"

definition strtoll10 :: "string \<Rightarrow> int \<times> string" where
  "strtoll10 s =
     (let s1 = dropWhile isspace_c s;
          neg = (case s1 of c # _ \<Rightarrow> c = CHR ''-'' | [] \<Rightarrow> False);
          s2 = (case s1 of c # cs \<Rightarrow> if c = CHR ''-'' \<or> c = CHR ''+'' then cs else s1 | [] \<Rightarrow> s1)
      in case s2 of
           [] \<Rightarrow> (0, s)
         | c # _ \<Rightarrow>
             if isdigit_c c then
               (case digits10 0 s2 of (v, rest) \<Rightarrow> (clamp64 (if neg then - v else v), rest))
             else (0, s))"

definition atoi :: "string \<Rightarrow> int" where
  "atoi s = sint (word_of_int (fst (strtoll10 s)) :: 32 word)"

text \<open>
  \<open>find_parsenum\<close>: the comparison, the value, and the character that ended the number. \<open>endch\<close>
  is the character allowed to follow, if any.
\<close>

definition find_parsenum :: "char option \<Rightarrow> string \<Rightarrow> find_error + cmp \<times> int \<times> char option" where
  "find_parsenum endch vp =
     (let (flags, str) =
        (case vp of
           c # cs \<Rightarrow> if c = CHR ''+'' then (F_GREATER, cs)
                     else if c = CHR ''-'' then (F_LESSTHAN, cs) else (F_EQUAL, vp)
         | [] \<Rightarrow> (F_EQUAL, vp));
        (val, endchar) = strtoll10 str
      in if val = 0 \<and> endchar = str then Inl illegal_numeric
         else
           (case endchar of
              [] \<Rightarrow> Inr (flags, val, None)
            | c # _ \<Rightarrow> if endch \<noteq> Some c then Inl illegal_trailing else Inr (flags, val, Some c)))"

section \<open>Creating nodes\<close>

record fglobals =
  ftsoptions :: "32 word"
  isdepth :: bool
  isoutput :: bool
  divsize :: bool

record cenv =
  ce_stat :: "string \<Rightarrow> stat option"
  ce_getgrnam :: "string \<Rightarrow> 32 word option"
  ce_getpwnam :: "string \<Rightarrow> 32 word option"
  ce_regcomp :: "string \<Rightarrow> bool \<Rightarrow> bool"
  ce_fopen :: "string \<Rightarrow> bool"
  ce_extended :: bool
  ce_umask :: mode_t
  ce_mem :: "nat \<Rightarrow> bool"

type_synonym created = "find_error + node option \<times> string list \<times> fglobals"
type_synonym creator = "cenv \<Rightarrow> string list \<Rightarrow> fglobals \<Rightarrow> created"

definition need_stat :: "fglobals \<Rightarrow> fglobals" where
  "need_stat g = g\<lparr>ftsoptions := ftsoptions g AND NOT FTS_NOSTAT\<rparr>"

text \<open>
  \<open>**argvp\<close> for the options that take an argument. \<open>find_create\<close> has checked that there is
  one.
\<close>

definition with_arg :: "string list \<Rightarrow> (string \<Rightarrow> string list \<Rightarrow> created) \<Rightarrow> created" where
  "with_arg argv f = (case argv of [] \<Rightarrow> Inl requires_argument | arg # rest \<Rightarrow> f arg rest)"

text \<open>\<open>TIME_CORRECT\<close>, and the six time options.\<close>

definition time_correct :: "cmp \<Rightarrow> int \<Rightarrow> int" where
  "time_correct f t = (if f = F_LESSTHAN then t + 1 else t)"

definition c_time :: "(cmp \<Rightarrow> int \<Rightarrow> prim) \<Rightarrow> creator" where
  "c_time node ce argv g = with_arg argv (\<lambda>arg rest.
     ebind (find_parsenum None arg) (\<lambda>(f, t, _).
       Inr (Some (Prim (node f (time_correct f t))), rest, need_stat g)))"

definition c_amin :: creator where "c_amin = c_time N_AMIN"
definition c_atime :: creator where "c_atime = c_time N_ATIME"
definition c_cmin :: creator where "c_cmin = c_time N_CMIN"
definition c_ctime :: creator where "c_ctime = c_time N_CTIME"
definition c_mmin :: creator where "c_mmin = c_time N_MMIN"
definition c_mtime :: creator where "c_mtime = c_time N_MTIME"

definition c_anewer :: creator where
  "c_anewer ce argv g = with_arg argv (\<lambda>arg rest.
     (case ce_stat ce arg of
        None \<Rightarrow> Inl err_stat
      | Some sb \<Rightarrow> Inr (Some (Prim (N_ANEWER (st_atime sb))), rest, need_stat g)))"

definition c_cnewer :: creator where
  "c_cnewer ce argv g = with_arg argv (\<lambda>arg rest.
     (case ce_stat ce arg of
        None \<Rightarrow> Inl err_stat
      | Some sb \<Rightarrow> Inr (Some (Prim (N_CNEWER (st_ctime sb))), rest, need_stat g)))"

definition c_newer :: creator where
  "c_newer ce argv g = with_arg argv (\<lambda>arg rest.
     (case ce_stat ce arg of
        None \<Rightarrow> Inl err_stat
      | Some sb \<Rightarrow> Inr (Some (Prim (N_NEWER (st_mtime sb))), rest, need_stat g)))"

definition c_depth :: creator where
  "c_depth ce argv g = Inr (Some (Prim N_DEPTH), argv, g\<lparr>isdepth := True\<rparr>)"

definition c_empty :: creator where
  "c_empty ce argv g = Inr (Some (Prim N_EMPTY), argv, need_stat g)"

text \<open>\<open>-exit\<close> takes the next argument as its value if there is one.\<close>

definition c_exit :: creator where
  "c_exit ce argv g =
     (let g = g\<lparr>isoutput := True\<rparr> in
      case argv of
        [] \<Rightarrow> Inr (Some (Prim (N_EXIT 0)), argv, g)
      | arg # rest \<Rightarrow>
          ebind (find_parsenum None arg) (\<lambda>(_, v, _).
            Inr (Some (Prim (N_EXIT (sint (word_of_int v :: 32 word)))), rest, g)))"

definition c_false :: creator where
  "c_false ce argv g = Inr (Some (Prim N_FALSE), argv, g)"

definition c_flags :: creator where
  "c_flags ce argv g = with_arg argv (\<lambda>arg rest.
     (let atleast = (case arg of c # _ \<Rightarrow> c = CHR ''-'' | [] \<Rightarrow> False);
          fl = (if atleast then tl arg else arg)
      in if fl = ''none'' then Inr (Some (Prim (N_FLAGS atleast 0)), rest, need_stat g)
         else
           (case string_to_flags fl of
              Inl _ \<Rightarrow> Inl illegal_flags
            | Inr (setp, _) \<Rightarrow> Inr (Some (Prim (N_FLAGS atleast setp)), rest, need_stat g))))"

definition c_follow :: creator where
  "c_follow ce argv g =
     Inr (Some (Prim N_FOLLOW), argv,
          g\<lparr>ftsoptions := (ftsoptions g AND NOT FTS_PHYSICAL) OR FTS_LOGICAL\<rparr>)"

definition c_fprint :: creator where
  "c_fprint ce argv g = with_arg argv (\<lambda>arg rest.
     if ce_fopen ce arg then Inr (Some (Prim (N_FPRINT arg)), rest, g\<lparr>isoutput := True\<rparr>)
     else Inl cannot_create)"

definition c_fstype :: creator where
  "c_fstype ce argv g = with_arg argv (\<lambda>arg rest. Inr (Some (Prim N_FSTYPE), rest, need_stat g))"

definition c_group :: creator where
  "c_group ce argv g = with_arg argv (\<lambda>gname rest.
     (case ce_getgrnam ce gname of
        Some gid \<Rightarrow> Inr (Some (Prim (N_GROUP gid)), rest, need_stat g)
      | None \<Rightarrow>
          (let gid = (word_of_int (atoi gname) :: 32 word) in
           if gid = 0 \<and> hd (gname @ [NUL]) \<noteq> CHR ''0'' then Inl no_such_group
           else Inr (Some (Prim (N_GROUP gid)), rest, need_stat g))))"

definition c_inum :: creator where
  "c_inum ce argv g = with_arg argv (\<lambda>arg rest.
     ebind (find_parsenum None arg) (\<lambda>(f, v, _).
       Inr (Some (Prim (N_INUM f (word_of_int v))), rest, need_stat g)))"

definition c_links :: creator where
  "c_links ce argv g = with_arg argv (\<lambda>arg rest.
     ebind (find_parsenum None arg) (\<lambda>(f, v, _).
       Inr (Some (Prim (N_LINKS f (word_of_int v))), rest, need_stat g)))"

definition c_ls :: creator where
  "c_ls ce argv g = Inr (Some (Prim N_LS), argv, (need_stat g)\<lparr>isoutput := True\<rparr>)"

definition c_maxdepth :: creator where
  "c_maxdepth ce argv g = with_arg argv (\<lambda>arg rest. Inr (Some (Prim (N_MAXDEPTH (atoi arg))), rest, g))"

definition c_mindepth :: creator where
  "c_mindepth ce argv g = with_arg argv (\<lambda>arg rest. Inr (Some (Prim (N_MINDEPTH (atoi arg))), rest, g))"

definition c_name :: creator where
  "c_name ce argv g = with_arg argv (\<lambda>arg rest. Inr (Some (Prim (N_NAME arg)), rest, g))"

definition c_iname :: creator where
  "c_iname ce argv g = with_arg argv (\<lambda>arg rest. Inr (Some (Prim (N_INAME arg)), rest, g))"

definition c_nogroup :: creator where
  "c_nogroup ce argv g = Inr (Some (Prim N_NOGROUP), argv, need_stat g)"

definition c_nouser :: creator where
  "c_nouser ce argv g = Inr (Some (Prim N_NOUSER), argv, need_stat g)"

definition c_path :: creator where
  "c_path ce argv g = with_arg argv (\<lambda>arg rest. Inr (Some (Prim (N_PATH arg)), rest, g))"

definition c_perm :: creator where
  "c_perm ce argv g = with_arg argv (\<lambda>arg rest.
     (let atleast = (case arg of c # _ \<Rightarrow> c = CHR ''-'' | [] \<Rightarrow> False);
          perm = (if atleast then tl arg else arg)
      in case setmode (ce_mem ce) (ce_umask ce) perm of
           None \<Rightarrow> Inl cannot_set_mode
         | Some st \<Rightarrow> Inr (Some (Prim (N_PERM atleast (getmode (sb_cmds st) 0))), rest, need_stat g)))"

definition c_print :: creator where
  "c_print ce argv g = Inr (Some (Prim N_PRINT), argv, g\<lparr>isoutput := True\<rparr>)"

definition c_print0 :: creator where
  "c_print0 ce argv g = Inr (Some (Prim N_PRINT0), argv, g\<lparr>isoutput := True\<rparr>)"

definition c_printx :: creator where
  "c_printx ce argv g = Inr (Some (Prim N_PRINTX), argv, g\<lparr>isoutput := True\<rparr>)"

definition c_prune :: creator where
  "c_prune ce argv g = Inr (Some (Prim N_PRUNE), argv, g)"

definition c_regex_common :: "bool \<Rightarrow> creator" where
  "c_regex_common icase ce argv g = with_arg argv (\<lambda>arg rest.
     (let esc = (if ce_extended ce then [] else [CHR 0x5C]);
          lineregexp = ''^'' @ esc @ ''('' @ arg @ esc @ '')$''
      in if ce_regcomp ce lineregexp icase then Inr (Some (Prim (N_REGEX icase lineregexp)), rest, g)
         else Inl bad_regexp))"

definition c_regex :: creator where "c_regex = c_regex_common False"
definition c_iregex :: creator where "c_iregex = c_regex_common True"

definition c_size :: creator where
  "c_size ce argv g = with_arg argv (\<lambda>arg rest.
     ebind (find_parsenum (Some (CHR ''c'')) arg) (\<lambda>(f, v, endch).
       Inr (Some (Prim (N_SIZE f v)), rest,
            (need_stat g)\<lparr>divsize := (if endch = Some (CHR ''c'') then False else divsize g)\<rparr>)))"

definition c_type :: creator where
  "c_type ce argv g = with_arg argv (\<lambda>arg rest.
     (let t = hd (arg @ [NUL]);
          ok = (\<lambda>m. Inr (Some (Prim (N_TYPE m)), rest, need_stat g))
      in if t = CHR ''b'' then ok S_IFBLK else if t = CHR ''c'' then ok S_IFCHR
         else if t = CHR ''d'' then ok S_IFDIR else if t = CHR ''f'' then ok S_IFREG
         else if t = CHR ''l'' then ok S_IFLNK else if t = CHR ''p'' then ok S_IFIFO
         else if t = CHR ''s'' then ok S_IFSOCK else Inl unknown_type))"

definition c_user :: creator where
  "c_user ce argv g = with_arg argv (\<lambda>username rest.
     (case ce_getpwnam ce username of
        Some uid \<Rightarrow> Inr (Some (Prim (N_USER F_EQUAL uid)), rest, need_stat g)
      | None \<Rightarrow>
          if atoi username = 0 \<and> hd (username @ [NUL]) \<noteq> CHR ''0'' \<and>
             username \<noteq> ''+0'' \<and> username \<noteq> ''-0'' then Inl no_such_user
          else
            ebind (find_parsenum None username) (\<lambda>(f, v, _).
              Inr (Some (Prim (N_USER f (word_of_int v))), rest, need_stat g))))"

definition c_xdev :: creator where
  "c_xdev ce argv g = Inr (Some (Prim N_XDEV), argv, g\<lparr>ftsoptions := ftsoptions g OR FTS_XDEV\<rparr>)"

definition c_openparen :: creator where "c_openparen ce argv g = Inr (Some N_OPENPAREN, argv, g)"
definition c_closeparen :: creator where "c_closeparen ce argv g = Inr (Some N_CLOSEPAREN, argv, g)"
definition c_not :: creator where "c_not ce argv g = Inr (Some (N_NOT []), argv, g)"
definition c_or :: creator where "c_or ce argv g = Inr (Some (N_OR [] []), argv, g)"
definition c_null :: creator where "c_null ce argv g = Inr (None, argv, g)"

section \<open>The option table\<close>

record option_entry =
  o_name :: string
  o_create :: creator
  o_arg :: bool

definition options :: "option_entry list" where
  "options = map (\<lambda>(n, c, a). \<lparr>o_name = n, o_create = c, o_arg = a\<rparr>)
     [(''!'', c_not, False), (''('', c_openparen, False), ('')'', c_closeparen, False),
      (''-a'', c_null, False), (''-amin'', c_amin, True), (''-and'', c_null, False),
      (''-anewer'', c_anewer, True), (''-atime'', c_atime, True), (''-cmin'', c_cmin, True),
      (''-cnewer'', c_cnewer, True), (''-ctime'', c_ctime, True), (''-depth'', c_depth, False),
      (''-empty'', c_empty, False), (''-exit'', c_exit, False), (''-false'', c_false, False),
      (''-flags'', c_flags, True), (''-follow'', c_follow, False), (''-fprint'', c_fprint, True),
      (''-fstype'', c_fstype, True), (''-group'', c_group, True), (''-iname'', c_iname, True),
      (''-inum'', c_inum, True), (''-iregex'', c_iregex, True), (''-links'', c_links, True),
      (''-ls'', c_ls, False), (''-maxdepth'', c_maxdepth, True), (''-mindepth'', c_mindepth, True),
      (''-mmin'', c_mmin, True), (''-mtime'', c_mtime, True), (''-name'', c_name, True),
      (''-newer'', c_newer, True), (''-nogroup'', c_nogroup, False), (''-nouser'', c_nouser, False),
      (''-o'', c_or, False), (''-or'', c_or, False), (''-path'', c_path, True),
      (''-perm'', c_perm, True), (''-print'', c_print, False), (''-print0'', c_print0, False),
      (''-printx'', c_printx, False), (''-prune'', c_prune, False), (''-regex'', c_regex, True),
      (''-size'', c_size, True), (''-type'', c_type, True), (''-user'', c_user, True),
      (''-xdev'', c_xdev, False)]"

definition typecompare :: "string \<Rightarrow> option_entry \<Rightarrow> int" where
  "typecompare name e = strcmp_c name (o_name e)"

definition option :: "string \<Rightarrow> option_entry option" where
  "option name = bsearch (typecompare name) options"

definition find_create :: "cenv \<Rightarrow> string list \<Rightarrow> fglobals \<Rightarrow> created" where
  "find_create ce argv g =
     (case argv of
        [] \<Rightarrow> Inl unknown_option
      | name # argv' \<Rightarrow>
          (case option name of
             None \<Rightarrow> Inl unknown_option
           | Some p \<Rightarrow>
               if o_arg p \<and> argv' = [] then Inl requires_argument
               else o_create p ce argv' g))"

lemma options_sorted:
  "sorted_wrt (\<lambda>a b. codes (o_name a) < codes (o_name b)) options"
proof -
  have "transp (\<lambda>a b. codes (o_name a) < codes (o_name b))" by (auto intro: transpI)
  moreover have "successively (\<lambda>a b. codes (o_name a) < codes (o_name b)) options"
    by (simp add: options_def codes_def)
  ultimately show ?thesis by (rule successively_conv_sorted_wrt [THEN iffD1])
qed

interpretation opt: sorted_table options o_name typecompare
  by unfold_locales (simp_all add: options_sorted typecompare_def)

text \<open>A creator never returns more arguments than it got.\<close>

lemma with_arg_rest:
  "with_arg argv f = Inr (n, rest, g') \<Longrightarrow>
   (\<And>arg r. f arg r = Inr (n, rest, g') \<Longrightarrow> rest = r) \<Longrightarrow> length rest \<le> length argv"
  by (cases argv) (auto simp: with_arg_def intro: le_SucI)

lemmas creator_defs = c_time_def c_amin_def c_atime_def c_cmin_def c_ctime_def c_mmin_def c_mtime_def
  c_anewer_def c_cnewer_def c_newer_def c_depth_def c_empty_def c_exit_def c_false_def c_flags_def
  c_follow_def c_fprint_def c_fstype_def c_group_def c_inum_def c_links_def c_ls_def c_maxdepth_def
  c_mindepth_def c_name_def c_iname_def c_nogroup_def c_nouser_def c_path_def c_perm_def c_print_def
  c_print0_def c_printx_def c_prune_def c_regex_common_def c_regex_def c_iregex_def c_size_def
  c_type_def c_user_def c_xdev_def c_openparen_def c_closeparen_def c_not_def c_or_def c_null_def

lemma creator_rest:
  assumes "p \<in> set options" and "o_create p ce argv g = Inr (n, rest, g')"
  shows "length rest \<le> length argv"
  using assms unfolding options_def
  by (auto simp: creator_defs Let_def ebind_eq_Inr dest!: with_arg_rest
      split: option.splits list.splits sum.splits if_splits)

lemma find_create_rest:
  "find_create ce argv g = Inr (n, rest, g') \<Longrightarrow> length rest < length argv"
  by (auto simp: find_create_def option_def opt.bsearch_Some less_Suc_eq_le
      split: list.splits option.splits if_splits dest: creator_rest)

section \<open>find_formplan\<close>

function form_loop :: "cenv \<Rightarrow> string list \<Rightarrow> fglobals \<Rightarrow> plan \<Rightarrow> find_error + plan \<times> fglobals" where
  "form_loop ce argv g plan =
     (if argv = [] then Inr (plan, g)
      else
        (case find_create ce argv g of
           Inl e \<Rightarrow> Inl e
         | Inr (new, argv', g') \<Rightarrow>
             form_loop ce argv' g' (case new of None \<Rightarrow> plan | Some n \<Rightarrow> plan @ [n])))"
  by pat_completeness auto
termination
  by (relation "measure (\<lambda>(ce, argv, g, plan). length argv)") (auto dest: find_create_rest)

declare form_loop.simps [simp del]

definition add_print :: "plan \<Rightarrow> fglobals \<Rightarrow> plan" where
  "add_print plan g =
     (if isoutput g then plan
      else if plan = [] then [Prim N_PRINT]
      else N_OPENPAREN # plan @ [N_CLOSEPAREN, Prim N_PRINT])"

definition find_formplan :: "cenv \<Rightarrow> string list \<Rightarrow> fglobals \<Rightarrow> find_error + plan \<times> fglobals" where
  "find_formplan ce argv g =
     ebind (form_loop ce argv g []) (\<lambda>(plan, g').
       ebind (squish (add_print plan g')) (\<lambda>plan'. Inr (plan', g'\<lparr>isoutput := True\<rparr>)))"

section \<open>Properties\<close>

text \<open>
  The option table is sorted, so the binary search finds exactly the listed options.
\<close>

theorem option_lookup:
  "(option name = Some p \<longleftrightarrow> p \<in> set options \<and> o_name p = name) \<and>
   (option name = None \<longleftrightarrow> name \<notin> o_name ` set options)"
  unfolding option_def by (intro conjI opt.bsearch_Some opt.bsearch_None)

text \<open>
  C4. When the arguments name the nodes of a well-formed expression, \<open>find_formplan\<close> succeeds and
  its plan means that expression, followed by printing the path of every entry for which it is
  true unless the expression has an output action of its own.
\<close>

theorem find_formplan_meaning:
  assumes "form_loop ce argv g [] = Inr (dtoks d, g')" and "d \<noteq> []" and "dok d"
  shows "\<exists>plan g''. find_formplan ce argv g = Inr (plan, g'') \<and> g'' = g'\<lparr>isoutput := True\<rparr> \<and>
    (\<forall>e ent s. eval_list e ent False plan s =
       (if isoutput g' then deval e ent d s
        else case deval e ent d s of (b, s') \<Rightarrow>
          if b then emit (fts_path ent @ [CHR 0x0A]) s' else (False, s')))"
proof -
  let ?d = "if isoutput g' then d else [[FParen d, FPrim N_PRINT]]"
  have "dtoks d \<noteq> []" using assms(2,3) by (cases d) (auto dest: ftoks_ne(2))
  then have t: "add_print (dtoks d) g' = dtoks ?d" by (simp add: add_print_def)
  have ok: "?d \<noteq> []" "dok ?d" using assms(2,3) by simp_all
  have "squish (dtoks ?d) = Inr (dor ?d)"
    using ok by (simp add: squish_def paren_squish_toks not_squish_dpar or_squish_dnot)
  moreover have "eval_list e ent False (dor ?d) s = deval e ent ?d s" for e ent s
    using ok by (rule eval_nor(3) [rotated])
  ultimately show ?thesis
    using assms(1) by (auto simp: find_formplan_def t emit_def split: prod.splits)
qed

definition no_cenv :: cenv where
  "no_cenv = \<lparr>ce_stat = (\<lambda>_. None), ce_getgrnam = (\<lambda>_. None), ce_getpwnam = (\<lambda>_. None),
     ce_regcomp = (\<lambda>_ _. True), ce_fopen = (\<lambda>_. True), ce_extended = False, ce_umask = 0x12,
     ce_mem = (\<lambda>_. True)\<rparr>"

definition globals0 :: fglobals where
  "globals0 = \<lparr>ftsoptions = FTS_NOSTAT OR FTS_PHYSICAL, isdepth = False, isoutput = False,
     divsize = True\<rparr>"

lemma option_entries:
  "option ''-size'' = Some \<lparr>o_name = ''-size'', o_create = c_size, o_arg = True\<rparr>"
  "option ''-o'' = Some \<lparr>o_name = ''-o'', o_create = c_or, o_arg = False\<rparr>"
  "option ''!'' = Some \<lparr>o_name = ''!'', o_create = c_not, o_arg = False\<rparr>"
  "option ''-a'' = Some \<lparr>o_name = ''-a'', o_create = c_null, o_arg = False\<rparr>"
  "option ''-type'' = Some \<lparr>o_name = ''-type'', o_create = c_type, o_arg = True\<rparr>"
  "option ''-mtime'' = Some \<lparr>o_name = ''-mtime'', o_create = c_mtime, o_arg = True\<rparr>"
  by (simp_all add: option_def opt.bsearch_Some) (simp_all add: options_def)

lemma form_loop_Nil: "form_loop ce [] g plan = Inr (plan, g)"
  by (simp add: form_loop.simps)

lemma form_loop_Cons:
  "form_loop ce (a # argv) g plan =
     (case find_create ce (a # argv) g of
        Inl e \<Rightarrow> Inl e
      | Inr (new, argv', g') \<Rightarrow>
          form_loop ce argv' g' (case new of None \<Rightarrow> plan | Some n \<Rightarrow> plan @ [n]))"
  by (subst form_loop.simps) simp

lemmas create_simps = form_loop_Nil form_loop_Cons find_create_def option_entries with_arg_def
  need_stat_def find_parsenum_def strtoll10_def isspace_c_def isdigit_c_def clamp64_def

theorem find_formplan_meaning_witness:
  "\<exists>plan g''. find_formplan no_cenv [''!'', ''-type'', ''d'', ''-a'', ''-mtime'', ''-3''] globals0 = Inr (plan, g'') \<and>
    (\<forall>e ent s. eval_list e ent False plan s =
       (if st_mode (fts_statp ent) AND S_IFMT \<noteq> S_IFDIR \<and> age e (st_mtime (fts_statp ent)) SECSPERDAY < 4
        then emit (fts_path ent @ [CHR 0x0A]) s else (False, s)))"
proof -
  have f: "form_loop no_cenv [''!'', ''-type'', ''d'', ''-a'', ''-mtime'', ''-3''] globals0 [] =
    Inr (dtoks [[FNot (FPrim (N_TYPE S_IFDIR)), FPrim (N_MTIME F_LESSTHAN 4)]], need_stat globals0)"
    by (simp add: create_simps c_not_def c_type_def c_null_def c_mtime_def c_time_def time_correct_def
        globals0_def and.assoc)
  have o: "\<not> isoutput (need_stat globals0)" by (simp add: need_stat_def globals0_def)
  show ?thesis
    using find_formplan_meaning [OF f] o by (auto simp: COMPARE_def)
qed




definition entry512 :: ftsent where
  "entry512 = \<lparr>fts_name = ''f'', fts_path = ''./f'', fts_accpath = ''f'', fts_level = 1,
     fts_statp = file_stat 512\<rparr>"


lemma cdiv_pos: "0 \<le> a \<Longrightarrow> 0 < b \<Longrightarrow> cdiv a b = a div b"
  by (cases "a = 0") (simp_all add: cdiv_def)

lemma div_le_iff: "0 < u \<Longrightarrow> x div u \<le> n \<longleftrightarrow> x < (n + 1) * u" for x u n :: int
proof
  assume u: "0 < u" and "x div u \<le> n"
  then have "u * (x div u) \<le> u * n" by simp
  moreover have "x = u * (x div u) + x mod u" "x mod u < u" using u by simp_all
  ultimately have "x < u * n + u" by linarith
  then show "x < (n + 1) * u" by (simp add: algebra_simps)
next
  assume u: "0 < u" and x: "x < (n + 1) * u"
  show "x div u \<le> n"
  proof (rule ccontr)
    assume "\<not> x div u \<le> n"
    then have "(n + 1) * u \<le> (x div u) * u" using u by simp
    also have "\<dots> \<le> x" using u by (simp add: minus_mod_eq_div_mult [symmetric])
    finally show False using x by simp
  qed
qed

lemma age_window:
  assumes "0 < u" and "t \<le> e_now e"
  shows "age e t u \<le> n \<longleftrightarrow> e_now e - t \<le> n * u"
proof -
  have "age e t u = (e_now e - t + u - 1) div u" using assms by (simp add: age_def cdiv_pos)
  then show ?thesis using assms(1) by (auto simp: div_le_iff algebra_simps)
qed

text \<open>
  C32. The time options count periods as their manual says: for a file that is \<open>a \<ge> 0\<close> seconds old,
  \<open>-mtime n\<close> accepts the ages of the \<open>n\<close>-th day, \<open>-mtime -n\<close> the ages up to \<open>n\<close> days and
  \<open>-mtime +n\<close> the ages above.
\<close>

theorem mtime_windows:
  assumes "find_parsenum None arg = Inr (f, n, en)" and "st_mtime (fts_statp ent) \<le> e_now e"
  shows "\<exists>node g'. c_mtime ce (arg # rest) g = Inr (Some (Prim node), rest, g') \<and>
    (let a = e_now e - st_mtime (fts_statp ent) in
     prim_eval e ent node s =
       (case f of
          F_EQUAL \<Rightarrow> (n - 1) * SECSPERDAY < a \<and> a \<le> n * SECSPERDAY
        | F_LESSTHAN \<Rightarrow> a \<le> n * SECSPERDAY
        | F_GREATER \<Rightarrow> n * SECSPERDAY < a, s))"
proof -
  let ?age = "age e (st_mtime (fts_statp ent)) SECSPERDAY"
  have w: "?age \<le> k \<longleftrightarrow> e_now e - st_mtime (fts_statp ent) \<le> k * SECSPERDAY" for k
    using assms(2) by (intro age_window) simp_all
  have "?age = n \<longleftrightarrow> ?age \<le> n \<and> \<not> ?age \<le> n - 1" "?age < n + 1 \<longleftrightarrow> ?age \<le> n" "?age > n \<longleftrightarrow> \<not> ?age \<le> n"
    by linarith+
  then show ?thesis
    unfolding w using assms(1)
    by (auto simp: c_mtime_def c_time_def with_arg_def time_correct_def COMPARE_def Let_def split: cmp.split)
qed

definition env0 :: "int \<Rightarrow> fenv" where
  "env0 t = \<lparr>e_now = t, e_fnmatch = \<lambda>_ _ _. True, e_regexec = \<lambda>_ _ _. True,
     e_user_from_uid = \<lambda>_. True, e_group_from_gid = \<lambda>_. True, e_printlong = \<lambda>_. [],
     e_readdir = \<lambda>_. None, e_divsize = True\<rparr>"

definition fstate0 :: fstate where
  "fstate0 = \<lparr>s_out = [], s_files = \<lambda>_. [], s_skip = False\<rparr>"

theorem mtime_windows_witness:
  "\<exists>node g'. c_mtime no_cenv [''-2''] globals0 = Inr (Some (Prim node), [], g') \<and>
    fst (prim_eval (env0 172800) entry512 node fstate0)"
proof -
  have a: "find_parsenum None ''-2'' = Inr (F_LESSTHAN, 2, None)"
    by (simp add: find_parsenum_def strtoll10_def isspace_c_def isdigit_c_def clamp64_def)
  have b: "st_mtime (fts_statp entry512) \<le> e_now (env0 172800)"
    by (simp add: entry512_def file_stat_def env0_def)
  from mtime_windows [OF a b, where ce = no_cenv and rest = "[]" and g = globals0 and s = fstate0]
  obtain node g' where
    "c_mtime no_cenv [''-2''] globals0 = Inr (Some (Prim node), [], g')"
    "prim_eval (env0 172800) entry512 node fstate0 =
      (e_now (env0 172800) - st_mtime (fts_statp entry512) \<le> 2 * SECSPERDAY, fstate0)"
    unfolding Let_def cmp.case by blast
  then show ?thesis by (auto simp: entry512_def file_stat_def env0_def)
qed

end
