(* ===== verification/Find_Exec.thy ===== *)
theory Find_Exec
  imports Find_Create
begin



text \<open>
  The loop over the top level of the plan: \<open>rval\<close> and \<open>cval\<close> change at an \<open>-exit\<close> on that
  level.
\<close>

fun exec_plan :: "fenv \<Rightarrow> ftsent \<Rightarrow> plan \<Rightarrow> int \<times> bool \<Rightarrow> fstate \<Rightarrow> (int \<times> bool) \<times> fstate" where
  "exec_plan e ent [] rc s = (rc, s)"
| "exec_plan e ent (p # ps) rc s =
     (case eval_node e ent p s of (b, s') \<Rightarrow>
        if b then exec_plan e ent ps (case p of Prim (N_EXIT v) \<Rightarrow> (v, False) | _ \<Rightarrow> rc) s'
        else (rc, s'))"






section \<open>Lemmas\<close>









lemma exec_plan_state: "snd (exec_plan e ent plan rc s) = snd (eval_list e ent st plan s)"
  by (induction plan arbitrary: st rc s) (simp_all split: prod.split)

lemma exec_plan_no_exit:
  "(\<And>v. Prim (N_EXIT v) \<notin> set plan) \<Longrightarrow> fst (exec_plan e ent plan rc s) = rc"
  by (induction plan arbitrary: rc s) (auto split: prod.split node.split prim.split)





section \<open>Properties\<close>


text \<open>
  C34. \<open>-exit\<close> works only on the top level of the plan: in an expression with \<open>-o\<close> it neither ends
  the walk nor sets the exit status.
\<close>

theorem exit_ignored_under_or:
  assumes "dok d" and "2 \<le> length d" and "squish (dtoks d) = Inr plan"
  shows "exec_plan e ent plan rc s = (rc, snd (deval e ent d s))"
proof -
  have p: "plan = dor d"
    using assms(1,3) by (simp add: squish_def paren_squish_toks not_squish_dpar or_squish_dnot)
  obtain c d' where d: "d = c # d'" "d' \<noteq> []"
    using assms(2) by (cases d; cases "tl d") auto
  have "fst (exec_plan e ent plan rc s) = rc"
    by (rule exec_plan_no_exit) (simp add: p d)
  moreover have "eval_list e ent False plan s = deval e ent d s"
    unfolding p by (rule eval_nor(3)) (use assms(1) d in auto)
  then have "snd (exec_plan e ent plan rc s) = snd (deval e ent d s)"
    using exec_plan_state [of e ent plan rc s False] by simp
  ultimately show ?thesis by (metis prod.collapse)
qed

theorem exit_ignored_under_or_witness:
  "\<exists>plan. squish [Prim (N_EXIT 3), N_OR [] [], Prim N_PRUNE] = Inr plan \<and>
    exec_plan (env0 0) entry512 plan (0, True) fstate0 = ((0, True), fstate0)"
proof -
  let ?d = "[[FPrim (N_EXIT 3)], [FPrim N_PRUNE]]"
  have "squish (dtoks ?d) = Inr (dor ?d)"
    unfolding squish_def by (simp add: paren_squish_toks [of ?d, simplified] not_squish_dpar [of ?d, simplified]
        or_squish_dnot [of ?d, simplified])
  from exit_ignored_under_or [OF _ _ this, of "env0 0" entry512 "(0, True)" fstate0] this
  show ?thesis by simp
qed



end
