(* ===== verification/Mbuf.thy ===== *)
theory Mbuf
  imports FSU_Prelude
begin

text \<open>
  The message buffers of the SMB library (\<open>src/lib/smb/mbuf.c\<close>, types in
  \<open>src/lib/external/netsmb/smb_lib.h\<close>): a chain of memory blocks that requests are
  marshalled into and replies are read from.

  The chain \<open>mb_top\<close>, linked by \<open>m_next\<close>, is a list; \<open>mb_cur\<close> is an index into it, the
  index past the end standing for NULL, and \<open>mb_pos\<close> an offset into the data of the current
  block. Lengths are \<open>int\<close>s of the C program, so every store into one truncates to 32 bits;
  \<open>size_t\<close> arithmetic wraps at 64. \<open>malloc\<close> is a parameter, the predicate that says which
  request sizes it grants. An access outside a block is undefined behaviour, the value
  \<^const>\<open>None\<close>. The sizes are those of a 64-bit little-endian host.
\<close>

section \<open>Blocks\<close>

record mbuf =
  m_len :: int
  m_maxlen :: int
  m_data :: "byte list"

record mbdata =
  mb_chain :: "mbuf list"
  mb_cur :: nat
  mb_pos :: nat
  mb_count :: int

type_synonym allocator = "size_t \<Rightarrow> bool"

definition int32 :: "int \<Rightarrow> int" where
  "int32 i = signed_take_bit 31 i"

definition M_ALIGN :: "size_t \<Rightarrow> size_t" where
  "M_ALIGN len = (len + 8 - 1) AND NOT (8 - 1)"

definition M_BASESIZE :: size_t where
  "M_BASESIZE = 24"

definition M_MINSIZE :: size_t where
  "M_MINSIZE = 256 - M_BASESIZE"

definition M_TRAILINGSPACE :: "mbuf \<Rightarrow> int" where
  "M_TRAILINGSPACE m = m_maxlen m - m_len m"

definition m_get :: "allocator \<Rightarrow> size_t \<Rightarrow> (errno + mbuf) option" where
  "m_get malloc len =
     (let len = M_ALIGN len;
          len = (if len < M_MINSIZE then M_MINSIZE else len);
          room = M_BASESIZE + len in
      if \<not> malloc room then Some (Inl ENOMEM)
      else if room < M_BASESIZE then None
      else Some (Inr \<lparr>m_len = 0, m_maxlen = int32 (uint len),
                      m_data = replicate (unat (room - M_BASESIZE)) 0\<rparr>))"

definition m_totlen :: "mbuf list \<Rightarrow> size_t" where
  "m_totlen ms = word_of_int (foldl (\<lambda>len m. int32 (len + m_len m)) 0 ms)"

text \<open>\<open>bcopy\<close> out of and into a block.\<close>

definition bytes_at :: "byte list \<Rightarrow> nat \<Rightarrow> int \<Rightarrow> byte list option" where
  "bytes_at d i len = (if 0 \<le> len \<and> i + nat len \<le> length d then Some (take (nat len) (drop i d)) else None)"

definition put_at :: "byte list \<Rightarrow> nat \<Rightarrow> byte list \<Rightarrow> byte list option" where
  "put_at d i bs =
     (if i + length bs \<le> length d then Some (take i d @ bs @ drop (i + length bs) d) else None)"

fun lineup_copy :: "mbuf \<Rightarrow> nat \<Rightarrow> mbuf list \<Rightarrow> mbuf option" where
  "lineup_copy nm dp [] = Some nm"
| "lineup_copy nm dp (m # ms) =
     do { bs \<leftarrow> bytes_at (m_data m) 0 (m_len m);
          d \<leftarrow> put_at (m_data nm) dp bs;
          lineup_copy (nm\<lparr>m_data := d\<rparr>) (dp + nat (m_len m)) ms }"

definition m_lineup :: "allocator \<Rightarrow> mbuf list \<Rightarrow> (errno + mbuf list) option" where
  "m_lineup malloc m0 =
     (case m0 of
        [] \<Rightarrow> None
      | [m] \<Rightarrow> Some (Inr [m])
      | _ \<Rightarrow>
        (case m_get malloc (m_totlen m0) of
           None \<Rightarrow> None
         | Some (Inl e) \<Rightarrow> Some (Inl e)
         | Some (Inr nm) \<Rightarrow> map_option (\<lambda>nm. Inr [nm]) (lineup_copy nm 0 m0)))"

section \<open>Setting up\<close>

definition mb_initm :: "mbuf list \<Rightarrow> mbdata" where
  "mb_initm ms = \<lparr>mb_chain = ms, mb_cur = 0, mb_pos = 0, mb_count = 0\<rparr>"

definition mb_init :: "allocator \<Rightarrow> size_t \<Rightarrow> (errno + mbdata) option" where
  "mb_init malloc sz =
     (case m_get malloc sz of
        None \<Rightarrow> None
      | Some (Inl e) \<Rightarrow> Some (Inl e)
      | Some (Inr m) \<Rightarrow> Some (Inr (mb_initm [m])))"

definition mb_done :: "mbdata \<Rightarrow> mbdata" where
  "mb_done mbp = mbp\<lparr>mb_chain := []\<rparr>"

text \<open>\<open>m_getm\<close> on the chain that starts at its first argument.\<close>

definition getm_missing :: "mbuf list \<Rightarrow> size_t \<Rightarrow> size_t" where
  "getm_missing ms len = foldl (\<lambda>len m. len - word_of_int (M_TRAILINGSPACE m)) len ms"

definition m_getm :: "allocator \<Rightarrow> mbuf list \<Rightarrow> size_t \<Rightarrow> (errno + mbuf list) option" where
  "m_getm malloc chain len =
     (let len = getm_missing chain len in
      if len > 0
      then (case m_get malloc len of
              None \<Rightarrow> None
            | Some (Inl e) \<Rightarrow> Some (Inl e)
            | Some (Inr m) \<Rightarrow> Some (Inr (chain @ [m])))
      else Some (Inr chain))"

section \<open>Putting data\<close>

definition fit_here :: "size_t \<Rightarrow> mbuf \<Rightarrow> mbdata \<Rightarrow> (errno + nat) \<times> mbdata" where
  "fit_here sz m mbp =
     (Inr (mb_pos mbp),
      mbp\<lparr>mb_chain := (mb_chain mbp)[mb_cur mbp := m\<lparr>m_len := int32 (m_len m + uint sz)\<rparr>],
          mb_pos := mb_pos mbp + unat sz,
          mb_count := int32 (mb_count mbp + uint sz)\<rparr>)"

definition mb_fit :: "allocator \<Rightarrow> size_t \<Rightarrow> mbdata \<Rightarrow> ((errno + nat) \<times> mbdata) option" where
  "mb_fit malloc sz mbp =
     do { m \<leftarrow> rd (mb_chain mbp) (mb_cur mbp);
          if M_TRAILINGSPACE m < int32 (uint sz)
          then (case m_get malloc sz of
                  None \<Rightarrow> None
                | Some (Inl e) \<Rightarrow> Some (Inl e, mbp)
                | Some (Inr mn) \<Rightarrow>
                    Some (fit_here sz mn
                      (mbp\<lparr>mb_pos := 0, mb_cur := Suc (mb_cur mbp),
                           mb_chain := take (Suc (mb_cur mbp)) (mb_chain mbp) @ [mn]\<rparr>)))
          else Some (fit_here sz m mbp) }"

text \<open>The assignment through the pointer that \<open>mb_fit\<close> returned.\<close>

definition mb_store :: "nat \<Rightarrow> byte list \<Rightarrow> mbdata \<Rightarrow> mbdata option" where
  "mb_store p bs mbp =
     do { m \<leftarrow> rd (mb_chain mbp) (mb_cur mbp);
          d \<leftarrow> put_at (m_data m) p bs;
          Some (mbp\<lparr>mb_chain := (mb_chain mbp)[mb_cur mbp := m\<lparr>m_data := d\<rparr>]\<rparr>) }"

definition MB_PUT :: "allocator \<Rightarrow> byte list \<Rightarrow> mbdata \<Rightarrow> (errno \<times> mbdata) option" where
  "MB_PUT malloc bs mbp =
     (case mb_fit malloc (of_nat (length bs)) mbp of
        None \<Rightarrow> None
      | Some (Inl e, mbp) \<Rightarrow> Some (e, mbp)
      | Some (Inr p, mbp) \<Rightarrow> map_option (Pair 0) (mb_store p bs mbp))"

text \<open>The bytes of a word in memory, low byte first and high byte first.\<close>

definition le_bytes :: "nat \<Rightarrow> 'a::len word \<Rightarrow> byte list" where
  "le_bytes n w = map (\<lambda>i. ucast (drop_bit (8 * i) w)) [0..<n]"

definition be_bytes :: "nat \<Rightarrow> 'a::len word \<Rightarrow> byte list" where
  "be_bytes n w = rev (le_bytes n w)"

definition mb_put_uint8 :: "allocator \<Rightarrow> byte \<Rightarrow> mbdata \<Rightarrow> (errno \<times> mbdata) option" where
  "mb_put_uint8 malloc x = MB_PUT malloc [x]"

definition mb_put_uint16be :: "allocator \<Rightarrow> 16 word \<Rightarrow> mbdata \<Rightarrow> (errno \<times> mbdata) option" where
  "mb_put_uint16be malloc x = MB_PUT malloc (be_bytes 2 x)"

definition mb_put_uint16le :: "allocator \<Rightarrow> 16 word \<Rightarrow> mbdata \<Rightarrow> (errno \<times> mbdata) option" where
  "mb_put_uint16le malloc x = MB_PUT malloc (le_bytes 2 x)"

definition mb_put_uint32be :: "allocator \<Rightarrow> 32 word \<Rightarrow> mbdata \<Rightarrow> (errno \<times> mbdata) option" where
  "mb_put_uint32be malloc x = MB_PUT malloc (be_bytes 4 x)"

definition mb_put_uint32le :: "allocator \<Rightarrow> 32 word \<Rightarrow> mbdata \<Rightarrow> (errno \<times> mbdata) option" where
  "mb_put_uint32le malloc x = MB_PUT malloc (le_bytes 4 x)"

definition mb_put_int64be :: "allocator \<Rightarrow> 64 word \<Rightarrow> mbdata \<Rightarrow> (errno \<times> mbdata) option" where
  "mb_put_int64be malloc x = MB_PUT malloc (be_bytes 8 x)"

definition mb_put_int64le :: "allocator \<Rightarrow> 64 word \<Rightarrow> mbdata \<Rightarrow> (errno \<times> mbdata) option" where
  "mb_put_int64le malloc x = MB_PUT malloc (le_bytes 8 x)"

text \<open>
  The copying loop of \<open>mb_put_mem\<close>. Its source is a list of as many bytes as asked for, or
  NULL, which fills with zeroes; \<open>left\<close> is \<open>size\<close>.
\<close>

function put_mem_loop :: "nat \<Rightarrow> byte list option \<Rightarrow> mbdata \<Rightarrow> nat \<Rightarrow> (mbdata \<times> nat) option" where
  "put_mem_loop left source mbp m =
     (if left = 0 then Some (mbp, m)
      else if m \<ge> length (mb_chain mbp) then None
      else
        (let b = mb_chain mbp ! m;
             cplen = unat (word_of_int (M_TRAILINGSPACE b) :: size_t) in
         if cplen = 0 then put_mem_loop left source mbp (Suc m)
         else
           (let cplen = min cplen left;
                bs = (case source of Some s \<Rightarrow> take cplen s | None \<Rightarrow> replicate cplen 0) in
            if m_len b < 0 then None
            else
              (case put_at (m_data b) (nat (m_len b)) bs of
                 None \<Rightarrow> None
               | Some d \<Rightarrow>
                   put_mem_loop (left - cplen) (map_option (drop cplen) source)
                     (mbp\<lparr>mb_chain := (mb_chain mbp)[m := b\<lparr>m_len := int32 (m_len b + int cplen), m_data := d\<rparr>],
                          mb_count := int32 (mb_count mbp + int cplen)\<rparr>) m))))"
  by pat_completeness auto
termination
  by (relation "measures [\<lambda>(left, s, mbp, m). left, \<lambda>(left, s, mbp, m). length (mb_chain mbp) - m]")
    (auto simp: min_def unat_gt_0 intro!: diff_less)

definition mb_put_mem ::
  "allocator \<Rightarrow> byte list option \<Rightarrow> size_t \<Rightarrow> mbdata \<Rightarrow> (errno \<times> mbdata) option" where
  "mb_put_mem malloc source sz mbp =
     (if sz = 0 then Some (0, mbp)
      else if mb_cur mbp \<ge> length (mb_chain mbp) then None
      else
        (case m_getm malloc (drop (mb_cur mbp) (mb_chain mbp)) sz of
           None \<Rightarrow> None
         | Some (Inl e) \<Rightarrow> Some (e, mbp)
         | Some (Inr ms) \<Rightarrow>
             do { (mbp, m) \<leftarrow> put_mem_loop (unat sz) source
                    (mbp\<lparr>mb_chain := take (mb_cur mbp) (mb_chain mbp) @ ms\<rparr>) (mb_cur mbp);
                  b \<leftarrow> rd (mb_chain mbp) m;
                  Some (0, mbp\<lparr>mb_pos := nat (m_len b), mb_cur := m\<rparr>) }))"

definition mb_put_mbuf :: "mbuf list \<Rightarrow> mbdata \<Rightarrow> (errno \<times> mbdata) option" where
  "mb_put_mbuf ms mbp =
     (if mb_cur mbp \<ge> length (mb_chain mbp) \<or> ms = [] then None
      else Some (0, mbp\<lparr>mb_chain := take (Suc (mb_cur mbp)) (mb_chain mbp) @ ms,
                        mb_count := foldl (\<lambda>c m. int32 (c + m_len m)) (mb_count mbp) ms,
                        mb_pos := nat (m_len (last ms)),
                        mb_cur := mb_cur mbp + length ms\<rparr>))"

definition mb_put_pstring :: "allocator \<Rightarrow> byte list \<Rightarrow> mbdata \<Rightarrow> (errno \<times> mbdata) option" where
  "mb_put_pstring malloc s mbp =
     (let len = (if length s > 255 then 255 else length s) in
      do { (error, mbp) \<leftarrow> mb_put_uint8 malloc (of_nat len) mbp;
           if error \<noteq> 0 then Some (error, mbp)
           else mb_put_mem malloc (Some s) (of_nat len) mbp })"

section \<open>Getting data\<close>

text \<open>The bytes of a value in memory, read back.\<close>

definition word_of_le :: "byte list \<Rightarrow> 'a::len word" where
  "word_of_le bs = foldr (\<lambda>b w. push_bit 8 w OR ucast b) bs 0"

definition word_of_be :: "byte list \<Rightarrow> 'a::len word" where
  "word_of_be bs = word_of_le (rev bs)"

definition mb_left :: "mbuf \<Rightarrow> nat \<Rightarrow> nat" where
  "mb_left m p = nat ((m_len m - int p) mod 2 ^ 32)"

text \<open>
  \<open>mb_get_mem\<close> returns its error code, the bytes stored through \<open>target\<close> and the new state;
  with a NULL target (\<open>target\<close> is \<^const>\<open>False\<close>) the bytes are skipped without being read.
\<close>

function mb_get_mem :: "bool \<Rightarrow> nat \<Rightarrow> mbdata \<Rightarrow> (errno \<times> byte list \<times> mbdata) option" where
  "mb_get_mem target sz mbp =
     (if sz = 0 then Some (0, [], mbp)
      else if mb_cur mbp \<ge> length (mb_chain mbp) then Some (EINVAL, [], mbp)
      else
        (let m = mb_chain mbp ! mb_cur mbp;
             count = mb_left m (mb_pos mbp) in
         if count = 0
         then mb_get_mem target sz
                (mbp\<lparr>mb_cur := Suc (mb_cur mbp),
                     mb_pos := (if Suc (mb_cur mbp) < length (mb_chain mbp) then 0 else mb_pos mbp)\<rparr>)
         else
           (let count = min count sz in
            if target \<and> mb_pos mbp + count > length (m_data m) then None
            else
              map_option
                (\<lambda>(e, bs, mbp'). (e, (if target then take count (drop (mb_pos mbp) (m_data m)) else []) @ bs, mbp'))
                (mb_get_mem target (sz - count) (mbp\<lparr>mb_pos := mb_pos mbp + count\<rparr>)))))"
  by pat_completeness auto
termination
  by (relation "measures [\<lambda>(t, s, mbp). s, \<lambda>(t, s, mbp). length (mb_chain mbp) - mb_cur mbp]")
    (auto simp: min_def)

text \<open>A fixed-size get: on an error the value is what was on the stack, so there is none.\<close>

definition mb_get_fixed ::
  "nat \<Rightarrow> (byte list \<Rightarrow> 'a) \<Rightarrow> mbdata \<Rightarrow> ((errno + 'a) \<times> mbdata) option" where
  "mb_get_fixed n conv mbp =
     map_option (\<lambda>(e, bs, mbp'). (if e \<noteq> 0 then Inl e else Inr (conv bs), mbp')) (mb_get_mem True n mbp)"

definition mb_get_uint8 :: "mbdata \<Rightarrow> ((errno + byte) \<times> mbdata) option" where
  "mb_get_uint8 = mb_get_fixed 1 hd"

definition mb_get_uint16 :: "mbdata \<Rightarrow> ((errno + 16 word) \<times> mbdata) option" where
  "mb_get_uint16 = mb_get_fixed 2 word_of_le"

definition mb_get_uint16le :: "mbdata \<Rightarrow> ((errno + 16 word) \<times> mbdata) option" where
  "mb_get_uint16le = mb_get_fixed 2 word_of_le"

definition mb_get_uint16be :: "mbdata \<Rightarrow> ((errno + 16 word) \<times> mbdata) option" where
  "mb_get_uint16be = mb_get_fixed 2 word_of_be"

definition mb_get_uint32 :: "mbdata \<Rightarrow> ((errno + 32 word) \<times> mbdata) option" where
  "mb_get_uint32 = mb_get_fixed 4 word_of_le"

definition mb_get_uint32be :: "mbdata \<Rightarrow> ((errno + 32 word) \<times> mbdata) option" where
  "mb_get_uint32be = mb_get_fixed 4 word_of_be"

definition mb_get_uint32le :: "mbdata \<Rightarrow> ((errno + 32 word) \<times> mbdata) option" where
  "mb_get_uint32le = mb_get_fixed 4 word_of_le"

definition mb_get_int64 :: "mbdata \<Rightarrow> ((errno + 64 word) \<times> mbdata) option" where
  "mb_get_int64 = mb_get_fixed 8 word_of_le"

definition mb_get_int64be :: "mbdata \<Rightarrow> ((errno + 64 word) \<times> mbdata) option" where
  "mb_get_int64be = mb_get_fixed 8 word_of_be"

definition mb_get_int64le :: "mbdata \<Rightarrow> ((errno + 64 word) \<times> mbdata) option" where
  "mb_get_int64le = mb_get_fixed 8 word_of_le"

declare put_mem_loop.simps [simp del] mb_get_mem.simps [simp del]

section \<open>Bytes of words\<close>

lemma bit_word_of_le:
  "bit (word_of_le bs :: 'a::len word) i \<longleftrightarrow>
     i < LENGTH('a) \<and> i < 8 * length bs \<and> bit (bs ! (i div 8)) (i mod 8)"
proof (induction bs arbitrary: i)
  case Nil
  then show ?case by (simp add: word_of_le_def)
next
  case (Cons b bs)
  have *: "word_of_le (b # bs) = (push_bit 8 (word_of_le bs) OR ucast b :: 'a word)"
    by (simp add: word_of_le_def)
  show ?case
  proof (cases "i < 8")
    case True
    then show ?thesis by (auto simp: * bit_simps dest: bit_imp_le_length)
  next
    case False
    then have d: "i div 8 = Suc ((i - 8) div 8)" "i mod 8 = (i - 8) mod 8"
      by (auto simp: le_div_geq le_mod_geq)
    have "\<not> bit b i" using False by (auto dest: bit_imp_le_length)
    then show ?thesis using False Cons.IH [of "i - 8"] unfolding d by (auto simp: * bit_simps)
  qed
qed

lemma length_le_bytes [simp]: "length (le_bytes n w) = n" "length (be_bytes n w) = n"
  by (simp_all add: le_bytes_def be_bytes_def)

lemma word_of_le_bytes: "8 * n = LENGTH('a) \<Longrightarrow> word_of_le (le_bytes n w) = w" for w :: "'a::len word"
  by (rule bit_word_eqI) (auto simp: bit_word_of_le le_bytes_def bit_simps)

lemma word_of_be_bytes: "8 * n = LENGTH('a) \<Longrightarrow> word_of_be (be_bytes n w) = w" for w :: "'a::len word"
  by (simp add: word_of_be_def be_bytes_def word_of_le_bytes)

section \<open>The contents of a chain\<close>

definition mbytes :: "mbuf \<Rightarrow> byte list" where
  "mbytes m = take (nat (m_len m)) (m_data m)"

definition contents :: "mbdata \<Rightarrow> byte list" where
  "contents mbp = concat (map mbytes (mb_chain mbp))"

text \<open>A block as \<open>m_get\<close> makes it and the put operations keep it.\<close>

definition wf_mbuf :: "mbuf \<Rightarrow> bool" where
  "wf_mbuf m \<longleftrightarrow> 0 \<le> m_len m \<and> m_len m \<le> m_maxlen m \<and> m_maxlen m = int (length (m_data m)) \<and>
     m_maxlen m < 2 ^ 31"

text \<open>The state between two puts: writing goes on at the end of the current block, and the
  blocks after it are empty.\<close>

definition wf_put :: "mbdata \<Rightarrow> bool" where
  "wf_put mbp \<longleftrightarrow> (\<forall>m \<in> set (mb_chain mbp). wf_mbuf m) \<and> mb_cur mbp < length (mb_chain mbp) \<and>
     int (mb_pos mbp) = m_len (mb_chain mbp ! mb_cur mbp) \<and>
     (\<forall>m \<in> set (drop (Suc (mb_cur mbp)) (mb_chain mbp)). m_len m = 0)"

text \<open>The allocator refuses requests of two gigabytes and more.\<close>

definition small_malloc :: "allocator \<Rightarrow> bool" where
  "small_malloc malloc \<longleftrightarrow> (\<forall>n. malloc n \<longrightarrow> unat n < 2 ^ 31)"

lemma int32_small: "0 \<le> i \<Longrightarrow> i < 2 ^ 31 \<Longrightarrow> int32 i = i"
  by (simp add: int32_def signed_take_bit_int_eq_self)

lemma mbytes_empty [simp]: "m_len m = 0 \<Longrightarrow> mbytes m = []"
  by (simp add: mbytes_def)

lemma concat_empty: "\<forall>m \<in> set ms. m_len m = 0 \<Longrightarrow> concat (map mbytes ms) = []"
  by simp

lemma contents_split:
  assumes "k < length (mb_chain s)"
  shows "contents s = concat (map mbytes (take k (mb_chain s))) @ mbytes (mb_chain s ! k) @
           concat (map mbytes (drop (Suc k) (mb_chain s)))"
  unfolding contents_def by (subst id_take_nth_drop [OF assms]) simp

lemma unat_room:
  assumes "\<not> M_BASESIZE + len < M_BASESIZE"
  shows "unat len = unat (M_BASESIZE + len - M_BASESIZE)" "unat len \<le> unat (M_BASESIZE + len)"
proof -
  have "unat (M_BASESIZE + len) = unat M_BASESIZE + unat len"
    using assms unat_plus_simple [of M_BASESIZE len] by (metis not_less)
  then show "unat len = unat (M_BASESIZE + len - M_BASESIZE)" "unat len \<le> unat (M_BASESIZE + len)"
    by simp_all
qed

lemma m_get_wf:
  assumes "small_malloc malloc" "m_get malloc n = Some (Inr m)"
  shows "wf_mbuf m" "m_len m = 0"
proof -
  define len where "len = (if M_ALIGN n < M_MINSIZE then M_MINSIZE else M_ALIGN n)"
  have *: "malloc (M_BASESIZE + len)" "\<not> M_BASESIZE + len < M_BASESIZE"
    "m = \<lparr>m_len = 0, m_maxlen = int32 (uint len), m_data = replicate (unat len) 0\<rparr>"
    using assms(2) unfolding m_get_def len_def [symmetric] Let_def by (auto split: if_splits)
  have "unat len < 2 ^ 31"
    using * (1) assms(1) unat_room(2) [OF *(2)] unfolding small_malloc_def by (meson le_less_trans)
  then have "int (unat len) < int (2 ^ 31)" by (simp only: of_nat_less_iff)
  then show "wf_mbuf m" "m_len m = 0"
    using int32_small [of "uint len"] by (simp_all add: *(3) wf_mbuf_def)
qed

lemma m_get_error: "m_get malloc n = Some (Inl e) \<Longrightarrow> e = ENOMEM"
  by (auto simp: m_get_def Let_def split: if_splits)

lemma mb_init_wf:
  assumes "small_malloc malloc" "mb_init malloc n = Some (Inr s)"
  shows "wf_put s" "contents s = []"
  using assms m_get_wf [OF assms(1)]
  by (auto simp: mb_init_def mb_initm_def wf_put_def contents_def split: option.splits sum.splits)

section \<open>Puts append to the contents\<close>

lemma put_at_Some:
  "put_at d i bs = Some d' \<longleftrightarrow> i + length bs \<le> length d \<and> d' = take i d @ bs @ drop (i + length bs) d"
  by (auto simp: put_at_def)

lemma MB_PUT_here:
  assumes wf: "wf_put s" and n: "length bs < 2 ^ 31"
    and room: "int (length bs) \<le> M_TRAILINGSPACE (mb_chain s ! mb_cur s)"
    and fit: "fit_here (of_nat (length bs)) (mb_chain s ! mb_cur s) s = (Inr p, s1)"
  shows "\<exists>s'. mb_store p bs s1 = Some s' \<and> wf_put s' \<and> contents s' = contents s @ bs"
proof -
  define m where "m = mb_chain s ! mb_cur s"
  have k: "mb_cur s < length (mb_chain s)" using wf by (simp add: wf_put_def)
  have m: "wf_mbuf m" "int (mb_pos s) = m_len m" using wf k by (auto simp: wf_put_def m_def)
  have u: "uint (of_nat (length bs) :: size_t) = int (length bs)" "unat (of_nat (length bs) :: size_t) = length bs"
    using n by (simp_all add: unat_of_nat_small uint_nat)
  have l: "int32 (m_len m + int (length bs)) = m_len m + int (length bs)"
    using m room by (intro int32_small) (auto simp: M_TRAILINGSPACE_def wf_mbuf_def m_def)
  have s1: "p = mb_pos s" "s1 = s\<lparr>mb_chain := (mb_chain s)[mb_cur s := m\<lparr>m_len := m_len m + int (length bs)\<rparr>],
      mb_pos := mb_pos s + length bs, mb_count := int32 (mb_count s + int (length bs))\<rparr>"
    using fit by (auto simp: fit_here_def u l m_def [symmetric])
  have room': "mb_pos s + length bs \<le> length (m_data m)"
    using room m by (simp add: M_TRAILINGSPACE_def wf_mbuf_def m_def)
  define m' where "m' = m\<lparr>m_len := m_len m + int (length bs),
      m_data := take (mb_pos s) (m_data m) @ bs @ drop (mb_pos s + length bs) (m_data m)\<rparr>"
  define s' where "s' = s1\<lparr>mb_chain := (mb_chain s)[mb_cur s := m']\<rparr>"
  have "mb_store p bs s1 = Some s'"
    using k room' by (simp add: mb_store_def s1 rd_def put_at_def s'_def m'_def)
  moreover have wf': "wf_mbuf m'"
    using m room' by (auto simp: wf_mbuf_def m'_def)
  moreover have "mbytes m' = mbytes m @ bs"
    using room' by (simp add: mbytes_def m'_def m(2) [symmetric] nat_int_add)
  then have "contents s' = contents s @ bs"
    using wf k by (subst (1 2) contents_split [of "mb_cur s"])
      (simp_all add: s'_def s1 wf_put_def m_def concat_empty)
  moreover have "wf_put s'"
    using wf wf' k m by (auto simp: wf_put_def s'_def s1 m'_def dest!: set_update_subset_insert [THEN subsetD])
  ultimately show ?thesis by blast
qed

lemma wf_put_extend:
  assumes "wf_put s" "wf_mbuf mn" "m_len mn = 0"
  defines "s' \<equiv> s\<lparr>mb_pos := 0, mb_cur := Suc (mb_cur s), mb_chain := take (Suc (mb_cur s)) (mb_chain s) @ [mn]\<rparr>"
  shows "wf_put s'" "contents s' = contents s" "mb_chain s' ! mb_cur s' = mn"
proof -
  have k: "Suc (mb_cur s) \<le> length (mb_chain s)" using assms by (auto simp: wf_put_def)
  then show nth: "mb_chain s' ! mb_cur s' = mn" by (simp add: s'_def nth_append)
  show "wf_put s'" using assms k nth by (auto simp: wf_put_def dest: in_set_takeD)
  have "contents s = concat (map mbytes (take (Suc (mb_cur s)) (mb_chain s))) @
          concat (map mbytes (drop (Suc (mb_cur s)) (mb_chain s)))"
    by (simp add: contents_def flip: concat_append map_append)
  then show "contents s' = contents s"
    using assms by (simp add: s'_def contents_def wf_put_def concat_empty)
qed

lemma m_get_small:
  assumes "small_malloc malloc" "n \<le> 232"
  shows "m_get malloc (of_nat n) = Some (Inl ENOMEM) \<or>
    (\<exists>m. m_get malloc (of_nat n) = Some (Inr m) \<and> wf_mbuf m \<and> m_len m = 0 \<and> int n \<le> m_maxlen m)"
proof -
  define len where "len = (if M_ALIGN (of_nat n) < M_MINSIZE then M_MINSIZE else M_ALIGN (of_nat n))"
  have n7: "unat (of_nat n + 7 :: size_t) = n + 7"
    using assms(2) unat_of_nat_small [of "n + 7", where 'a = 64] by simp
  have "M_ALIGN (of_nat n) = (of_nat n + 7) AND NOT 7" by (simp add: M_ALIGN_def add.commute)
  then have "M_ALIGN (of_nat n) \<le> (of_nat n + 7 :: size_t)" by (metis word_and_le2)
  then have "unat (M_ALIGN (of_nat n)) \<le> n + 7" by (simp add: word_le_nat_alt n7)
  then have len: "232 \<le> unat len" "unat len \<le> 239"
    using assms(2) by (auto simp: len_def M_MINSIZE_def M_BASESIZE_def word_less_nat_alt)
  have room: "\<not> M_BASESIZE + len < M_BASESIZE"
  proof -
    have "unat (24 :: size_t) + unat len < 2 ^ LENGTH(64)" using len(2) by simp
    then have "unat (24 + len) = unat (24 :: size_t) + unat len" by (rule unat_add_lem [THEN iffD1])
    then show ?thesis by (simp add: M_BASESIZE_def word_less_nat_alt)
  qed
  show ?thesis
  proof (cases "malloc (M_BASESIZE + len)")
    case False
    then show ?thesis by (simp add: m_get_def Let_def flip: len_def)
  next
    case True
    define m where "m = \<lparr>m_len = 0, m_maxlen = int32 (uint len), m_data = replicate (unat (M_BASESIZE + len - M_BASESIZE)) 0\<rparr>"
    have m: "m_get malloc (of_nat n) = Some (Inr m)"
      unfolding m_get_def Let_def len_def [symmetric] m_def
      by (simp only: True room not_True_eq_False if_False)
    have "m_maxlen m = int32 (uint len)" by (simp add: m_def)
    moreover have "int (unat len) \<le> int 239" using len(2) by (simp only: of_nat_le_iff)
    then have "int32 (uint len) = int (unat len)" by (simp add: int32_small)
    moreover have "int n \<le> int (unat len)" using len(1) assms(2) by (simp only: of_nat_le_iff)
    ultimately show ?thesis using m_get_wf [OF assms(1) m] m by auto
  qed
qed

lemma MB_PUT_ok:
  assumes wf: "wf_put s" and small: "small_malloc malloc" and n: "length bs \<le> 232"
  shows "MB_PUT malloc bs s = Some (ENOMEM, s) \<or>
    (\<exists>s'. MB_PUT malloc bs s = Some (0, s') \<and> wf_put s' \<and> contents s' = contents s @ bs)"
proof -
  define m where "m = mb_chain s ! mb_cur s"
  have k: "rd (mb_chain s) (mb_cur s) = Some m" using wf by (simp add: wf_put_def rd_def m_def)
  have n': "length bs < 2 ^ 31" using n by simp
  have i: "int32 (uint (of_nat (length bs) :: size_t)) = int (length bs)"
    using n by (subst int32_small) (auto simp: uint_nat unat_of_nat_small)
  show ?thesis
  proof (cases "M_TRAILINGSPACE m < int (length bs)")
    case False
    obtain p s1 where f: "fit_here (of_nat (length bs)) m s = (Inr p, s1)" by (simp add: fit_here_def)
    then have "mb_fit malloc (of_nat (length bs)) s = Some (Inr p, s1)"
      using k False by (simp add: mb_fit_def i)
    then show ?thesis using MB_PUT_here [OF wf n' _ f [unfolded m_def]] False
      by (auto simp: MB_PUT_def m_def)
  next
    case True
    consider "m_get malloc (of_nat (length bs)) = Some (Inl ENOMEM)"
      | mn where "m_get malloc (of_nat (length bs)) = Some (Inr mn)" "wf_mbuf mn" "m_len mn = 0"
        "int (length bs) \<le> m_maxlen mn"
      using m_get_small [OF small n] by blast
    then show ?thesis
    proof cases
      case 1
      then show ?thesis using k True by (simp add: MB_PUT_def mb_fit_def i)
    next
      case 2
      define s0 where "s0 = s\<lparr>mb_pos := 0, mb_cur := Suc (mb_cur s), mb_chain := take (Suc (mb_cur s)) (mb_chain s) @ [mn]\<rparr>"
      have e: "wf_put s0" "contents s0 = contents s" "mb_chain s0 ! mb_cur s0 = mn"
        using wf_put_extend [OF wf 2(2,3)] by (auto simp: s0_def)
      obtain p s1 where f: "fit_here (of_nat (length bs)) mn s0 = (Inr p, s1)" by (simp add: fit_here_def)
      have "mb_fit malloc (of_nat (length bs)) s = Some (Inr p, s1)"
        using k True 2 f by (simp add: mb_fit_def i s0_def)
      moreover have "\<exists>s'. mb_store p bs s1 = Some s' \<and> wf_put s' \<and> contents s' = contents s @ bs"
        using MB_PUT_here [OF e(1) n', of p s1] 2 f e by (simp add: M_TRAILINGSPACE_def)
      ultimately show ?thesis by (auto simp: MB_PUT_def)
    qed
  qed
qed

text \<open>The copying loop of \<open>mb_put_mem\<close>.\<close>

definition wf_from :: "mbuf list \<Rightarrow> nat \<Rightarrow> bool" where
  "wf_from ms k \<longleftrightarrow> (\<forall>m \<in> set ms. wf_mbuf m) \<and> k < length ms \<and> (\<forall>m \<in> set (drop (Suc k) ms). m_len m = 0)"

lemma wf_put_from:
  "wf_put s \<longleftrightarrow> wf_from (mb_chain s) (mb_cur s) \<and> int (mb_pos s) = m_len (mb_chain s ! mb_cur s)"
  by (auto simp: wf_put_def wf_from_def)

lemma M_TRAILINGSPACE_wf:
  assumes "wf_mbuf m"
  shows "unat (word_of_int (M_TRAILINGSPACE m) :: size_t) = length (m_data m) - nat (m_len m)"
proof -
  have "0 \<le> M_TRAILINGSPACE m" "M_TRAILINGSPACE m < 2 ^ 31"
    using assms by (auto simp: wf_mbuf_def M_TRAILINGSPACE_def)
  then have "uint (word_of_int (M_TRAILINGSPACE m) :: size_t) = M_TRAILINGSPACE m"
    by (simp add: uint_word_of_int_eq take_bit_int_eq_self)
  then have "unat (word_of_int (M_TRAILINGSPACE m) :: size_t) = nat (M_TRAILINGSPACE m)"
    by (simp only: unat_eq_nat_uint)
  also have "nat (M_TRAILINGSPACE m) = length (m_data m) - nat (m_len m)"
    using assms by (simp add: wf_mbuf_def M_TRAILINGSPACE_def nat_diff_distrib')
  finally show ?thesis .
qed

lemma append_block:
  assumes wf: "wf_from ms k" and n: "nat (m_len (ms ! k)) + length bs \<le> length (m_data (ms ! k))"
  defines "m \<equiv> ms ! k"
  defines "m' \<equiv> m\<lparr>m_len := int32 (m_len m + int (length bs)),
       m_data := take (nat (m_len m)) (m_data m) @ bs @ drop (nat (m_len m) + length bs) (m_data m)\<rparr>"
  shows "wf_from (ms[k := m']) k" "concat (map mbytes (ms[k := m'])) = concat (map mbytes ms) @ bs"
proof -
  have k: "k < length ms" and m: "wf_mbuf m" using wf by (auto simp: wf_from_def m_def)
  note n = n [folded m_def]
  have l: "int32 (m_len m + int (length bs)) = m_len m + int (length bs)"
    using m n by (intro int32_small) (auto simp: wf_mbuf_def)
  have "wf_mbuf m'" using m n by (auto simp: m'_def wf_mbuf_def l)
  then show "wf_from (ms[k := m']) k"
    using wf k by (auto simp: wf_from_def dest!: set_update_subset_insert [THEN subsetD])
  have b: "mbytes m' = mbytes m @ bs"
    using m n by (auto simp: mbytes_def m'_def l wf_mbuf_def nat_add_distrib)
  have e: "concat (map mbytes (drop (Suc k) ms)) = []"
    using wf by (intro concat_empty) (simp add: wf_from_def)
  have sp: "concat (map mbytes ms) =
      concat (map mbytes (take k ms)) @ mbytes m @ concat (map mbytes (drop (Suc k) ms))"
    by (subst id_take_nth_drop [OF k]) (simp add: m_def)
  show "concat (map mbytes (ms[k := m'])) = concat (map mbytes ms) @ bs"
    unfolding sp upd_conv_take_nth_drop [OF k] by (simp add: e b)
qed

lemma put_mem_loop_correct:
  assumes "put_mem_loop left source s k = Some (s', k')" "source = Some src" "length src = left"
    "wf_from (mb_chain s) k"
  shows "wf_from (mb_chain s') k' \<and> contents s' = contents s @ src"
  using assms
proof (induction left source s k arbitrary: src rule: put_mem_loop.induct)
  case (1 left source s k)
  define b where "b = mb_chain s ! k"
  define c where "c = unat (word_of_int (M_TRAILINGSPACE b) :: size_t)"
  have k: "k < length (mb_chain s)" and b: "wf_mbuf b"
    using "1.prems"(4) by (auto simp: wf_from_def b_def)
  have c: "c = length (m_data b) - nat (m_len b)" using M_TRAILINGSPACE_wf [OF b] by (simp add: c_def)
  have step: "put_mem_loop left source s k =
      (if left = 0 then Some (s, k)
       else if c = 0 then put_mem_loop left source s (Suc k)
       else (case put_at (m_data b) (nat (m_len b)) (take (min c left) src) of
               None \<Rightarrow> None
             | Some d \<Rightarrow> put_mem_loop (left - min c left) (Some (drop (min c left) src))
                 (s\<lparr>mb_chain := (mb_chain s)[k := b\<lparr>m_len := int32 (m_len b + int (min c left)), m_data := d\<rparr>],
                    mb_count := int32 (mb_count s + int (min c left))\<rparr>) k))"
    using k b by (subst put_mem_loop.simps)
      (simp add: Let_def "1.prems"(2) wf_mbuf_def not_less cong: option.case_cong flip: b_def c_def)
  consider "left = 0" | "left \<noteq> 0" "c = 0" | "left \<noteq> 0" "c \<noteq> 0" by blast
  then show ?case
  proof cases
    case 1
    then show ?thesis using "1.prems" step by auto
  next
    case 2
    have "Suc k < length (mb_chain s)"
    proof (rule ccontr)
      assume "\<not> ?thesis"
      then show False using "1.prems"(1) step 2
        by (subst (asm) (2) put_mem_loop.simps) simp
    qed
    then have "wf_from (mb_chain s) (Suc k)"
      using "1.prems"(4) by (auto simp: wf_from_def dest: in_set_dropD) (metis Suc_n_not_le_n in_mono le_SucI nat_le_linear set_drop_subset_set_drop)
    then show ?thesis using "1.IH"(1) [OF _ _ b_def _ _ _ "1.prems"(2,3)] k 2 step "1.prems"(1)
      by (simp add: c_def)
  next
    case 3
    let ?bs = "take (min c left) src"
    define d where "d = take (nat (m_len b)) (m_data b) @ ?bs @ drop (nat (m_len b) + length ?bs) (m_data b)"
    define s1 where "s1 = s\<lparr>mb_chain := (mb_chain s)[k := b\<lparr>m_len := int32 (m_len b + int (min c left)), m_data := d\<rparr>],
        mb_count := int32 (mb_count s + int (min c left))\<rparr>"
    have lb: "length ?bs = min c left" using "1.prems"(3) by simp
    have room: "nat (m_len b) + length ?bs \<le> length (m_data b)" using c 3 by (simp add: lb)
    have p: "put_at (m_data b) (nat (m_len b)) ?bs = Some d" using room by (simp add: put_at_def d_def)
    have loop: "put_mem_loop (left - min c left) (map_option (drop (min c left)) source) s1 k = Some (s', k')"
      using "1.prems"(1,2) step 3 p by (simp add: s1_def)
    have a: "wf_from (mb_chain s1) k" "contents s1 = contents s @ ?bs"
      using append_block [OF "1.prems"(4), of ?bs, folded b_def, OF room]
      by (simp_all add: s1_def contents_def d_def lb del: length_take)
    have "\<not> length (mb_chain s) \<le> k" "\<not> m_len b < 0" using k b by (auto simp: wf_mbuf_def)
    then have "wf_from (mb_chain s') k' \<and> contents s' = contents s1 @ drop (min c left) src"
      using "1.IH"(2) [OF 3(1) _ b_def c_def 3(2) refl refl, of d "drop (min c left) src", folded s1_def]
        loop a(1) p "1.prems"(2,3) by simp
    then show ?thesis using a by simp
  qed
qed



lemma m_getm_chain:
  assumes "small_malloc malloc" "m_getm malloc ms n = Some (Inr ms')"
  shows "ms' = ms \<or> (\<exists>m. ms' = ms @ [m] \<and> wf_mbuf m \<and> m_len m = 0)"
  using assms m_get_wf [OF assms(1)]
  by (auto simp: m_getm_def Let_def split: if_splits option.splits sum.splits)

lemma mb_put_mem_ok:
  assumes wf: "wf_put s" and small: "small_malloc malloc" and n: "length bs < 2 ^ 64"
    and put: "mb_put_mem malloc (Some bs) (of_nat (length bs)) s = Some (0, s')"
  shows "wf_put s' \<and> contents s' = contents s @ bs"
proof (cases "bs = []")
  case True
  then show ?thesis using assms by (simp add: mb_put_mem_def)
next
  case False
  let ?c = "mb_chain s" and ?k = "mb_cur s"
  have u: "unat (of_nat (length bs) :: size_t) = length bs" using n by (simp add: unat_of_nat_small)
  have nz: "(of_nat (length bs) :: size_t) \<noteq> 0" using False u by (metis length_0_conv unat_0)
  have frm: "wf_from ?c ?k" and k: "?k < length ?c"
    using wf by (simp_all add: wf_put_from wf_from_def)
  obtain ms where ms: "m_getm malloc (drop ?k ?c) (of_nat (length bs)) = Some (Inr ms)"
    using put k nz by (auto simp: mb_put_mem_def m_getm_def Let_def dest: m_get_error
        split: option.splits sum.splits if_splits)
  define s0 where "s0 = s\<lparr>mb_chain := take ?k ?c @ ms\<rparr>"
  have s0: "wf_from (mb_chain s0) ?k \<and> contents s0 = contents s"
    using m_getm_chain [OF small ms]
  proof
    assume "ms = drop ?k ?c"
    then show ?thesis using frm by (simp add: s0_def contents_def)
  next
    assume "\<exists>m. ms = drop ?k ?c @ [m] \<and> wf_mbuf m \<and> m_len m = 0"
    then obtain m where "mb_chain s0 = ?c @ [m]" "wf_mbuf m" "m_len m = 0"
      by (auto simp: s0_def)
    then show ?thesis using frm k by (auto simp: wf_from_def contents_def)
  qed
  obtain s1 k1 b where loop: "put_mem_loop (length bs) (Some bs) s0 ?k = Some (s1, k1)"
    and b: "rd (mb_chain s1) k1 = Some b" and s': "s' = s1\<lparr>mb_pos := nat (m_len b), mb_cur := k1\<rparr>"
    using put k nz ms u by (auto simp: mb_put_mem_def s0_def split: bind_splits)
  have "wf_from (mb_chain s1) k1 \<and> contents s1 = contents s0 @ bs"
    using put_mem_loop_correct [OF loop refl refl] s0 by blast
  then show ?thesis
    using s0 b by (auto simp: s' wf_put_from contents_def rd_def wf_from_def wf_mbuf_def split: if_splits)
qed

section \<open>Gets read the contents\<close>

definition mb_rest :: "mbdata \<Rightarrow> byte list" where
  "mb_rest s =
     (if mb_cur s < length (mb_chain s)
      then drop (mb_pos s) (mbytes (mb_chain s ! mb_cur s)) @
           concat (map mbytes (drop (Suc (mb_cur s)) (mb_chain s)))
      else [])"

definition wf_get :: "mbdata \<Rightarrow> bool" where
  "wf_get s \<longleftrightarrow> (\<forall>m \<in> set (mb_chain s). wf_mbuf m) \<and>
     (mb_cur s < length (mb_chain s) \<longrightarrow> int (mb_pos s) \<le> m_len (mb_chain s ! mb_cur s))"

lemma mb_initm_get:
  assumes "\<forall>m \<in> set ms. wf_mbuf m"
  shows "wf_get (mb_initm ms)" "mb_rest (mb_initm ms) = concat (map mbytes ms)"
  using assms by (cases ms; auto simp: wf_get_def mb_initm_def mb_rest_def wf_mbuf_def)+

lemma mb_left_wf:
  "wf_mbuf m \<Longrightarrow> int p \<le> m_len m \<Longrightarrow> mb_left m p = nat (m_len m) - p"
  by (simp add: mb_left_def wf_mbuf_def nat_diff_distrib')

lemma length_mbytes: "wf_mbuf m \<Longrightarrow> length (mbytes m) = nat (m_len m)"
  by (auto simp: mbytes_def wf_mbuf_def)

lemma mb_rest_next:
  assumes "mb_cur s < length (mb_chain s)" "drop (mb_pos s) (mbytes (mb_chain s ! mb_cur s)) = []"
  shows "mb_rest (s\<lparr>mb_cur := Suc (mb_cur s),
             mb_pos := (if Suc (mb_cur s) < length (mb_chain s) then 0 else mb_pos s)\<rparr>) = mb_rest s"
  using assms by (auto simp: mb_rest_def Cons_nth_drop_Suc [symmetric])

lemma mb_get_mem_stream:
  "wf_get s \<Longrightarrow>
   \<exists>s'. mb_get_mem True n s = Some (if n \<le> length (mb_rest s) then 0 else EINVAL, take n (mb_rest s), s') \<and>
     wf_get s' \<and> mb_chain s' = mb_chain s \<and> mb_rest s' = drop n (mb_rest s)"
proof (induction "True" n s rule: mb_get_mem.induct)
  case (1 n s)
  define m where "m = mb_chain s ! mb_cur s"
  define c where "c = mb_left m (mb_pos s)"
  consider "n = 0" | "n \<noteq> 0" "mb_cur s \<ge> length (mb_chain s)"
    | "n \<noteq> 0" "mb_cur s < length (mb_chain s)" "c = 0"
    | "n \<noteq> 0" "mb_cur s < length (mb_chain s)" "c \<noteq> 0" by linarith
  then show ?case
  proof cases
    case 1
    then show ?thesis using "1.prems" by (subst mb_get_mem.simps) simp
  next
    case 2
    then show ?thesis using "1.prems" by (subst mb_get_mem.simps) (auto simp: mb_rest_def)
  next
    case 3
    have m: "wf_mbuf m" "int (mb_pos s) \<le> m_len m" using "1.prems" 3 by (auto simp: wf_get_def m_def)
    let ?s1 = "s\<lparr>mb_cur := Suc (mb_cur s),
             mb_pos := (if Suc (mb_cur s) < length (mb_chain s) then 0 else mb_pos s)\<rparr>"
    have c: "nat (m_len m) - mb_pos s = 0" using mb_left_wf [OF m] 3(3) by (simp only: c_def)
    have r: "mb_rest ?s1 = mb_rest s"
      using c length_mbytes [OF m(1)] by (intro mb_rest_next [OF 3(2)]) (simp add: m_def [symmetric])
    have w: "wf_get ?s1" using "1.prems" by (auto simp: wf_get_def wf_mbuf_def)
    have e: "mb_get_mem True n s = mb_get_mem True n ?s1"
      using 3 by (subst mb_get_mem.simps) (simp add: Let_def flip: m_def c_def)
    show ?thesis
      using "1.hyps"(1) [OF 3(1) _ m_def c_def 3(3) w] 3(2) unfolding e r by simp
  next
    case 4
    have m: "wf_mbuf m" "int (mb_pos s) \<le> m_len m" using "1.prems" 4 by (auto simp: wf_get_def m_def)
    define k where "k = min c n"
    let ?s1 = "s\<lparr>mb_pos := mb_pos s + k\<rparr>"
    have c: "c = nat (m_len m) - mb_pos s" using mb_left_wf [OF m] by (simp only: c_def)
    have room: "mb_pos s + k \<le> nat (m_len m)" using c 4(3) by (simp add: k_def)
    have "nat (m_len m) \<le> length (m_data m)" using m by (auto simp: wf_mbuf_def)
    then have room': "mb_pos s + k \<le> length (m_data m)" using room by simp
    define R where "R = concat (map mbytes (drop (Suc (mb_cur s)) (mb_chain s)))"
    have L: "k \<le> length (drop (mb_pos s) (mbytes m))" using room room' by (simp add: mbytes_def)
    have rest: "mb_rest s = drop (mb_pos s) (mbytes m) @ R" using 4(2) by (simp add: mb_rest_def m_def R_def)
    have bytes: "take k (drop (mb_pos s) (m_data m)) = take k (mb_rest s)"
      using L room by (simp add: rest mbytes_def drop_take min_def)
    have r: "mb_rest ?s1 = drop k (mb_rest s)"
      using L 4(2) by (simp add: mb_rest_def R_def m_def add.commute)
    have w: "wf_get ?s1" using "1.prems" room 4(2) m by (auto simp: wf_get_def m_def [symmetric])
    have e: "mb_get_mem True n s =
        map_option (\<lambda>(e, bs, s'). (e, take k (mb_rest s) @ bs, s')) (mb_get_mem True (n - k) ?s1)"
      using 4 room' bytes by (subst mb_get_mem.simps) (simp add: Let_def flip: m_def c_def k_def)
    have "k \<le> length (mb_rest s)" using L by (simp add: rest)
    then have l: "n - k \<le> length (mb_rest ?s1) \<longleftrightarrow> n \<le> length (mb_rest s)"
      unfolding r by auto
    have t: "take k (mb_rest s) @ take (n - k) (drop k (mb_rest s)) = take n (mb_rest s)"
      by (metis k_def le_add_diff_inverse min.cobounded2 take_add)
    have d: "drop (n - k) (drop k (mb_rest s)) = drop n (mb_rest s)"
      by (simp add: k_def)
    have np: "\<not> (True \<and> length (m_data m) < mb_pos s + k)" using room' by simp
    obtain s' where "mb_get_mem True (n - k) ?s1 =
        Some (if n \<le> length (mb_rest s) then 0 else EINVAL, take (n - k) (mb_rest ?s1), s')"
      "wf_get s'" "mb_chain s' = mb_chain s" "mb_rest s' = drop (n - k) (mb_rest ?s1)"
      using "1.hyps"(2) [OF 4(1) _ m_def c_def 4(3) k_def np w] 4(2) unfolding l by auto
    then show ?thesis unfolding e r d using t by simp
  qed
qed

section \<open>Fields\<close>

text \<open>
  The interface of a field type: an encoding of fixed width that its decoding inverts. A get
  then reads back what a put wrote.
\<close>

locale field_codec =
  fixes width :: nat
    and enc :: "'a \<Rightarrow> byte list"
    and dec :: "byte list \<Rightarrow> 'a"
  assumes width: "length (enc x) = width"
    and width_le: "width \<le> 232"
    and dec_enc: "dec (enc x) = x"
begin

lemma put_ok:
  "wf_put s \<Longrightarrow> small_malloc malloc \<Longrightarrow>
   MB_PUT malloc (enc x) s = Some (ENOMEM, s) \<or>
   (\<exists>s'. MB_PUT malloc (enc x) s = Some (0, s') \<and> wf_put s' \<and> contents s' = contents s @ enc x)"
  by (rule MB_PUT_ok) (simp_all add: width width_le)

lemma put_zero:
  assumes "wf_put s" "small_malloc malloc" "MB_PUT malloc (enc x) s = Some (0, s')"
  shows "wf_put s' \<and> contents s' = contents s @ enc x"
  using put_ok [OF assms(1,2), of x] assms(3) by auto

lemma get_ok:
  assumes "wf_get s" "mb_rest s = enc x @ r"
  shows "\<exists>s'. mb_get_fixed width dec s = Some (Inr x, s') \<and> wf_get s' \<and> mb_rest s' = r"
  using mb_get_mem_stream [OF assms(1), of width] assms(2)
  by (auto simp: mb_get_fixed_def width dec_enc)

lemma get_short:
  assumes "wf_get s" "length (mb_rest s) < width"
  shows "\<exists>s'. mb_get_fixed width dec s = Some (Inl EINVAL, s')"
proof -
  obtain s' where "mb_get_mem True width s = Some (EINVAL, take width (mb_rest s), s')"
    using mb_get_mem_stream [OF assms(1), of width] assms(2) by auto
  then show ?thesis by (simp add: mb_get_fixed_def)
qed

end

interpretation u8: field_codec 1 "\<lambda>x. [x]" hd
  by unfold_locales auto
interpretation u16le: field_codec 2 "le_bytes 2 :: 16 word \<Rightarrow> _" word_of_le
  by unfold_locales (auto simp: word_of_le_bytes)
interpretation u16be: field_codec 2 "be_bytes 2 :: 16 word \<Rightarrow> _" word_of_be
  by unfold_locales (auto simp: word_of_be_bytes)
interpretation u32le: field_codec 4 "le_bytes 4 :: 32 word \<Rightarrow> _" word_of_le
  by unfold_locales (auto simp: word_of_le_bytes)
interpretation u32be: field_codec 4 "be_bytes 4 :: 32 word \<Rightarrow> _" word_of_be
  by unfold_locales (auto simp: word_of_be_bytes)
interpretation i64le: field_codec 8 "le_bytes 8 :: 64 word \<Rightarrow> _" word_of_le
  by unfold_locales (auto simp: word_of_le_bytes)
interpretation i64be: field_codec 8 "be_bytes 8 :: 64 word \<Rightarrow> _" word_of_be
  by unfold_locales (auto simp: word_of_be_bytes)

lemmas put_defs = mb_put_uint8_def mb_put_uint16be_def mb_put_uint16le_def mb_put_uint32be_def
  mb_put_uint32le_def mb_put_int64be_def mb_put_int64le_def

lemmas get_defs = mb_get_uint8_def mb_get_uint16be_def mb_get_uint16le_def mb_get_uint32be_def
  mb_get_uint32le_def mb_get_int64be_def mb_get_int64le_def

text \<open>A message as a sequence of fields, each written by the put and read by the get of its type.\<close>

datatype field =
  U8 byte | U16be "16 word" | U16le "16 word" | U32be "32 word" | U32le "32 word"
  | I64be "64 word" | I64le "64 word" | Mem "byte list"

fun put_field :: "allocator \<Rightarrow> field \<Rightarrow> mbdata \<Rightarrow> (errno \<times> mbdata) option" where
  "put_field malloc (U8 x) = mb_put_uint8 malloc x"
| "put_field malloc (U16be x) = mb_put_uint16be malloc x"
| "put_field malloc (U16le x) = mb_put_uint16le malloc x"
| "put_field malloc (U32be x) = mb_put_uint32be malloc x"
| "put_field malloc (U32le x) = mb_put_uint32le malloc x"
| "put_field malloc (I64be x) = mb_put_int64be malloc x"
| "put_field malloc (I64le x) = mb_put_int64le malloc x"
| "put_field malloc (Mem bs) = mb_put_mem malloc (Some bs) (of_nat (length bs))"

fun field_bytes :: "field \<Rightarrow> byte list" where
  "field_bytes (U8 x) = [x]"
| "field_bytes (U16be x) = be_bytes 2 x"
| "field_bytes (U16le x) = le_bytes 2 x"
| "field_bytes (U32be x) = be_bytes 4 x"
| "field_bytes (U32le x) = le_bytes 4 x"
| "field_bytes (I64be x) = be_bytes 8 x"
| "field_bytes (I64le x) = le_bytes 8 x"
| "field_bytes (Mem bs) = bs"

definition got :: "('a \<Rightarrow> field) \<Rightarrow> ((errno + 'a) \<times> mbdata) option \<Rightarrow> ((errno + field) \<times> mbdata) option" where
  "got c r = map_option (\<lambda>(x, s). (map_sum id c x, s)) r"

text \<open>The get for the type (and, for a block of memory, the length) of a field.\<close>

fun get_field :: "field \<Rightarrow> mbdata \<Rightarrow> ((errno + field) \<times> mbdata) option" where
  "get_field (U8 _) s = got U8 (mb_get_uint8 s)"
| "get_field (U16be _) s = got U16be (mb_get_uint16be s)"
| "get_field (U16le _) s = got U16le (mb_get_uint16le s)"
| "get_field (U32be _) s = got U32be (mb_get_uint32be s)"
| "get_field (U32le _) s = got U32le (mb_get_uint32le s)"
| "get_field (I64be _) s = got I64be (mb_get_int64be s)"
| "get_field (I64le _) s = got I64le (mb_get_int64le s)"
| "get_field (Mem bs) s =
     map_option (\<lambda>(e, bs, s). (if e \<noteq> 0 then Inl e else Inr (Mem bs), s)) (mb_get_mem True (length bs) s)"

fun put_fields :: "allocator \<Rightarrow> field list \<Rightarrow> mbdata \<Rightarrow> (errno \<times> mbdata) option" where
  "put_fields malloc [] s = Some (0, s)"
| "put_fields malloc (f # fs) s =
     do { (e, s) \<leftarrow> put_field malloc f s;
          if e \<noteq> 0 then Some (e, s) else put_fields malloc fs s }"

fun get_fields :: "field list \<Rightarrow> mbdata \<Rightarrow> ((errno + field list) \<times> mbdata) option" where
  "get_fields [] s = Some (Inr [], s)"
| "get_fields (f # fs) s =
     do { (r, s) \<leftarrow> get_field f s;
          case r of
            Inl e \<Rightarrow> Some (Inl e, s)
          | Inr x \<Rightarrow> map_option (\<lambda>(rs, s). (map_sum id ((#) x) rs, s)) (get_fields fs s) }"

definition small_field :: "field \<Rightarrow> bool" where
  "small_field f \<longleftrightarrow> length (field_bytes f) < 2 ^ 64"

lemma put_field_ok:
  assumes "wf_put s" "small_malloc malloc" "small_field f" "put_field malloc f s = Some (0, s')"
  shows "wf_put s' \<and> contents s' = contents s @ field_bytes f"
  using assms
    u8.put_zero [OF assms(1,2)] u16be.put_zero [OF assms(1,2)] u16le.put_zero [OF assms(1,2)]
    u32be.put_zero [OF assms(1,2)] u32le.put_zero [OF assms(1,2)]
    i64be.put_zero [OF assms(1,2)] i64le.put_zero [OF assms(1,2)] mb_put_mem_ok [OF assms(1,2)]
  by (cases f) (auto simp: put_defs small_field_def)

lemma get_field_ok:
  assumes "wf_get s" "mb_rest s = field_bytes f @ r"
  shows "\<exists>s'. get_field f s = Some (Inr f, s') \<and> wf_get s' \<and> mb_rest s' = r"
proof (cases f)
  case (U8 x)
  then show ?thesis
    using u8.get_ok [OF assms(1), of x r] assms(2) by (auto simp: get_defs got_def)
next
  case (U16be x)
  then show ?thesis
    using u16be.get_ok [OF assms(1), of x r] assms(2) by (auto simp: get_defs got_def)
next
  case (U16le x)
  then show ?thesis
    using u16le.get_ok [OF assms(1), of x r] assms(2) by (auto simp: get_defs got_def)
next
  case (U32be x)
  then show ?thesis
    using u32be.get_ok [OF assms(1), of x r] assms(2) by (auto simp: get_defs got_def)
next
  case (U32le x)
  then show ?thesis
    using u32le.get_ok [OF assms(1), of x r] assms(2) by (auto simp: get_defs got_def)
next
  case (I64be x)
  then show ?thesis
    using i64be.get_ok [OF assms(1), of x r] assms(2) by (auto simp: get_defs got_def)
next
  case (I64le x)
  then show ?thesis
    using i64le.get_ok [OF assms(1), of x r] assms(2) by (auto simp: get_defs got_def)
next
  case (Mem bs)
  then show ?thesis using mb_get_mem_stream [OF assms(1), of "length bs"] assms(2) by auto
qed

lemma put_fields_ok:
  "wf_put s \<Longrightarrow> small_malloc malloc \<Longrightarrow> \<forall>f \<in> set fs. small_field f \<Longrightarrow>
   put_fields malloc fs s = Some (0, s') \<Longrightarrow>
   wf_put s' \<and> contents s' = contents s @ concat (map field_bytes fs)"
proof (induction fs arbitrary: s)
  case Nil
  then show ?case by simp
next
  case (Cons f fs)
  then obtain s1 where s1: "put_field malloc f s = Some (0, s1)" "put_fields malloc fs s1 = Some (0, s')"
    by (auto split: bind_splits if_splits)
  have "wf_put s1 \<and> contents s1 = contents s @ field_bytes f"
    using put_field_ok [OF Cons.prems(1,2) _ s1(1)] Cons.prems(3) by simp
  then show ?case using Cons.IH [OF _ Cons.prems(2) _ s1(2)] Cons.prems(3) by simp
qed

lemma get_fields_ok:
  "wf_get s \<Longrightarrow> mb_rest s = concat (map field_bytes fs) @ r \<Longrightarrow>
   \<exists>s'. get_fields fs s = Some (Inr fs, s') \<and> mb_rest s' = r"
proof (induction fs arbitrary: s)
  case Nil
  then show ?case by simp
next
  case (Cons f fs)
  obtain s1 where s1: "get_field f s = Some (Inr f, s1)" "wf_get s1"
      "mb_rest s1 = concat (map field_bytes fs) @ r"
    using get_field_ok [OF Cons.prems(1), of f] Cons.prems(2) by auto
  then show ?case using Cons.IH [OF s1(2,3)] by auto
qed

section \<open>Properties\<close>

text \<open>
  C6. A message read back as it was written: whatever sequence of integers of every width and
  byte order and of blocks of memory is put into a fresh buffer without an error, reading the
  same sequence of types from the start of the chain returns exactly the values put, however the
  fields were spread over the blocks, and nothing is left over.
\<close>

theorem mbuf_roundtrip:
  assumes "small_malloc malloc" "mb_init malloc n = Some (Inr s0)"
    and "\<forall>f \<in> set fs. small_field f"
    and "put_fields malloc fs s0 = Some (0, s)"
  shows "\<exists>s'. get_fields fs (mb_initm (mb_chain s)) = Some (Inr fs, s') \<and> mb_rest s' = []"
proof -
  have p: "wf_put s" "contents s = concat (map field_bytes fs)"
    using put_fields_ok [OF mb_init_wf(1) [OF assms(1,2)] assms(1,3,4)] mb_init_wf(2) [OF assms(1,2)]
    by simp_all
  then show ?thesis
    using mb_initm_get [of "mb_chain s"] get_fields_ok [of "mb_initm (mb_chain s)" fs "[]"]
    by (simp add: wf_put_def contents_def)
qed

definition malloc_1k :: allocator where
  "malloc_1k n \<longleftrightarrow> n \<le> 1024"

lemma small_malloc_1k: "small_malloc malloc_1k"
  by (auto simp: small_malloc_def malloc_1k_def word_le_nat_alt)

definition example_fields :: "field list" where
  "example_fields =
     [U16be 0x1234, Mem (replicate 230 7), U8 5, I64le 0x0102030405060708, U32be 0xDEADBEEF,
      Mem (replicate 300 1)]"

definition put_example :: "field list \<Rightarrow> (errno \<times> mbdata) option" where
  "put_example fs =
     (case mb_init malloc_1k 10 of Some (Inr s0) \<Rightarrow> put_fields malloc_1k fs s0 | _ \<Rightarrow> None)"

lemma put_example_zero: "map_option fst (put_example example_fields) = Some 0"
  by code_simp

lemma mbuf_roundtrip_witness:
  "\<exists>s0 s. mb_init malloc_1k 10 = Some (Inr s0) \<and> put_fields malloc_1k example_fields s0 = Some (0, s) \<and>
     (\<exists>s'. get_fields example_fields (mb_initm (mb_chain s)) = Some (Inr example_fields, s') \<and>
        mb_rest s' = [])"
proof -
  obtain s0 s where 1: "mb_init malloc_1k 10 = Some (Inr s0)" "put_fields malloc_1k example_fields s0 = Some (0, s)"
    using put_example_zero by (auto simp: put_example_def split: option.splits sum.splits)
  have 2: "\<forall>f \<in> set example_fields. small_field f"
    by (simp add: example_fields_def small_field_def)
  show ?thesis using 1 mbuf_roundtrip [OF small_malloc_1k 1(1) 2 1(2)] by blast
qed







text \<open>Lining a chain up: the bytes are copied into one block.\<close>

lemma lineup_copy_bytes:
  assumes "lineup_copy nm dp ms = Some nm'" "\<forall>m \<in> set ms. wf_mbuf m" "dp \<le> length (m_data nm)"
  shows "m_len nm' = m_len nm \<and>
    take (dp + length (concat (map mbytes ms))) (m_data nm') = take dp (m_data nm) @ concat (map mbytes ms)"
  using assms
proof (induction ms arbitrary: nm dp)
  case Nil
  then show ?case by simp
next
  case (Cons m ms)
  obtain bs d where bs: "bytes_at (m_data m) 0 (m_len m) = Some bs" "put_at (m_data nm) dp bs = Some d"
    "lineup_copy (nm\<lparr>m_data := d\<rparr>) (dp + nat (m_len m)) ms = Some nm'"
    using Cons.prems(1) by (auto split: bind_splits)
  have b: "bs = mbytes m" "length bs = nat (m_len m)"
    using bs(1) by (auto simp: bytes_at_def mbytes_def split: if_splits)
  have d: "dp + length bs \<le> length (m_data nm)" "d = take dp (m_data nm) @ bs @ drop (dp + length bs) (m_data nm)"
    using bs(2) by (auto simp: put_at_Some)
  then have t: "take (dp + length bs) d = take dp (m_data nm) @ bs" "dp + length bs \<le> length d"
    by simp_all
  show ?case using Cons.IH [OF bs(3)] Cons.prems(2) t b by (simp add: add.assoc)
qed

text \<open>
  Lining up: from a chain of two or more blocks \<open>m_lineup\<close> makes one block that starts with
  exactly the bytes of the chain, but leaves the length of the block at 0, so that to the get
  routines the message is empty: only the byte count kept beside the chain still tells its size.
\<close>

theorem m_lineup_loses_length:
  assumes "small_malloc malloc" "\<forall>m \<in> set ms. wf_mbuf m" "2 \<le> length ms"
    and "m_lineup malloc ms = Some (Inr ms')"
  shows "\<exists>nm. ms' = [nm] \<and> take (length (concat (map mbytes ms))) (m_data nm) = concat (map mbytes ms) \<and>
    mb_rest (mb_initm ms') = []"
proof -
  obtain m m' rest where ms: "ms = m # m' # rest"
    using assms(3) by (metis One_nat_def Suc_1 Suc_le_length_iff)
  obtain nm0 nm where g: "m_get malloc (m_totlen ms) = Some (Inr nm0)"
    and c: "lineup_copy nm0 0 ms = Some nm" and r: "ms' = [nm]"
    using assms(4) unfolding ms by (auto simp: m_lineup_def simp del: lineup_copy.simps split: option.splits sum.splits)
  have "m_len nm = 0" "take (length (concat (map mbytes ms))) (m_data nm) = concat (map mbytes ms)"
    using lineup_copy_bytes [OF c assms(2)] m_get_wf(2) [OF assms(1) g] by simp_all
  then show ?thesis by (auto simp: r mb_initm_def mb_rest_def)
qed

definition two_blocks :: "mbuf list" where
  "two_blocks = [\<lparr>m_len = 2, m_maxlen = 3, m_data = [1, 2, 0]\<rparr>, \<lparr>m_len = 1, m_maxlen = 1, m_data = [3]\<rparr>]"

lemma m_lineup_loses_length_witness:
  "\<exists>ms' nm. m_lineup malloc_1k two_blocks = Some (Inr ms') \<and> ms' = [nm] \<and> take 3 (m_data nm) = [1, 2, 3] \<and>
     mb_rest (mb_initm ms') = []"
proof -
  have "case m_lineup malloc_1k two_blocks of Some (Inr ms') \<Rightarrow> True | _ \<Rightarrow> False" by code_simp
  then obtain ms' where r: "m_lineup malloc_1k two_blocks = Some (Inr ms')"
    by (auto split: option.splits sum.splits)
  have w: "\<forall>m \<in> set two_blocks. wf_mbuf m" "2 \<le> length two_blocks" "concat (map mbytes two_blocks) = [1, 2, 3]"
    by (simp_all add: two_blocks_def wf_mbuf_def mbytes_def numeral_eq_Suc)
  show ?thesis using m_lineup_loses_length [OF small_malloc_1k w(1,2) r] r unfolding w(3) by (auto simp: numeral_3_eq_3)
qed

end
