(* ===== verification/RC_File.thy ===== *)
theory RC_File
  imports CLib
begin

text \<open>
  The configuration files of the SMB client (\<open>src/lib/smb/rcfile.c\<close>): the parser, a state
  machine over the characters of the file, the lookups and the two option parsers that read the
  options of a command from the file and from the command line.

  Sections and keys are found by name and added at the head of their lists, so a pointer to one of
  them is its name. The table of open files is a list; a file is opened by a function from names to contents.
  Memory is always granted. Warnings are not modelled.
\<close>

abbreviation "ENOENT' \<equiv> (2 :: errno)"
abbreviation "ERANGE \<equiv> (34 :: errno)"

record rckey =
  rk_name :: string
  rk_value :: string

record rcsection =
  rs_name :: string
  rs_keys :: "rckey list"

record rcfile =
  rf_name :: string
  rf_sect :: "rcsection list"

section \<open>Sections and keys\<close>

definition rc_findsect :: "rcfile \<Rightarrow> string \<Rightarrow> rcsection option" where
  "rc_findsect rcp sectname = List.find (\<lambda>p. rs_name p = sectname) (rf_sect rcp)"

definition rc_addsect :: "rcfile \<Rightarrow> string \<Rightarrow> rcfile" where
  "rc_addsect rcp sectname =
     (case rc_findsect rcp sectname of
        Some _ \<Rightarrow> rcp
      | None \<Rightarrow> rcp\<lparr>rf_sect := \<lparr>rs_name = sectname, rs_keys = []\<rparr> # rf_sect rcp\<rparr>)"

definition rc_sect_findkey :: "rcsection \<Rightarrow> string \<Rightarrow> rckey option" where
  "rc_sect_findkey rsp keyname = List.find (\<lambda>p. rk_name p = keyname) (rs_keys rsp)"

text \<open>Changing the element a pointer denotes: the first one with the name.\<close>

fun upd_first :: "('a \<Rightarrow> bool) \<Rightarrow> ('a \<Rightarrow> 'a) \<Rightarrow> 'a list \<Rightarrow> 'a list" where
  "upd_first P f [] = []"
| "upd_first P f (x # xs) = (if P x then f x # xs else x # upd_first P f xs)"

definition in_sect :: "string \<Rightarrow> (rcsection \<Rightarrow> rcsection) \<Rightarrow> rcfile \<Rightarrow> rcfile" where
  "in_sect s f rcp = rcp\<lparr>rf_sect := upd_first (\<lambda>p. rs_name p = s) f (rf_sect rcp)\<rparr>"

definition rc_sect_addkey :: "rcsection \<Rightarrow> string \<Rightarrow> string option \<Rightarrow> rcsection" where
  "rc_sect_addkey rsp name val =
     (let v = (case val of Some v \<Rightarrow> v | None \<Rightarrow> '''') in
      case rc_sect_findkey rsp name of
        Some _ \<Rightarrow> rsp\<lparr>rs_keys := upd_first (\<lambda>p. rk_name p = name) (\<lambda>p. p\<lparr>rk_value := v\<rparr>) (rs_keys rsp)\<rparr>
      | None \<Rightarrow> rsp\<lparr>rs_keys := \<lparr>rk_name = name, rk_value = v\<rparr> # rs_keys rsp\<rparr>)"

definition set_value :: "string \<Rightarrow> string \<Rightarrow> rcsection \<Rightarrow> rcsection" where
  "set_value name v rsp = rsp\<lparr>rs_keys := upd_first (\<lambda>p. rk_name p = name) (\<lambda>p. p\<lparr>rk_value := v\<rparr>) (rs_keys rsp)\<rparr>"

section \<open>The parser\<close>

datatype rc_state = stNewLine | stHeader | stSkipToEOL | stGetKey | stGetValue

text \<open>\<open>buf\<close> are the characters before \<open>next\<close>; the buffer has 2048.\<close>

record rcparse =
  p_st :: rc_state
  p_rsp :: "string option"
  p_rkp :: "string option"
  p_buf :: string
  p_rcp :: rcfile

definition full :: "string \<Rightarrow> bool" where
  "full b \<longleftrightarrow> length b = 2047"

definition new_line :: "rcparse \<Rightarrow> rcparse" where
  "new_line p = p\<lparr>p_st := stNewLine, p_buf := ''''\<rparr>"

text \<open>What is common to all states but \<open>stNewLine\<close>.\<close>

definition rc_char :: "char \<Rightarrow> rcparse \<Rightarrow> rcparse option" where
  "rc_char c p =
     (if p_st p = stSkipToEOL \<or> full (p_buf p) then Some (if c = CHR 0x0A then new_line p else p)
      else
        (case p_st p of
           stHeader \<Rightarrow>
             if c = CHR '']''
             then Some (p\<lparr>p_rcp := rc_addsect (p_rcp p) (p_buf p), p_rsp := Some (p_buf p), p_buf := '''', p_st := stSkipToEOL\<rparr>)
             else Some (p\<lparr>p_buf := p_buf p @ [c]\<rparr>)
         | stGetKey \<Rightarrow>
             if c = CHR '' '' \<or> c = CHR 0x09 then Some p
             else if c = CHR 0x0A then Some (p\<lparr>p_st := stNewLine\<rparr>)
             else if c \<noteq> CHR ''='' then Some (p\<lparr>p_buf := p_buf p @ [c]\<rparr>)
             else
               (case p_rsp p of
                  None \<Rightarrow> Some (p\<lparr>p_st := stSkipToEOL\<rparr>)
                | Some s \<Rightarrow>
                    Some (p\<lparr>p_rcp := in_sect s (\<lambda>sec. rc_sect_addkey sec (p_buf p) None) (p_rcp p), p_rkp := Some (p_buf p),
                           p_buf := '''', p_st := stGetValue\<rparr>))
         | _ \<Rightarrow>
             if c \<noteq> CHR 0x0A then Some (p\<lparr>p_buf := p_buf p @ [c]\<rparr>)
             else
               do { s \<leftarrow> p_rsp p;
                    k \<leftarrow> p_rkp p;
                    Some (p\<lparr>p_rcp := in_sect s (set_value k (p_buf p)) (p_rcp p), p_st := stNewLine, p_rkp := None\<rparr>) }))"

definition rc_step :: "char \<Rightarrow> rcparse \<Rightarrow> rcparse option" where
  "rc_step c p =
     (if c = CHR 0x0D then Some p
      else if p_st p = stNewLine
      then
        (let p = p\<lparr>p_buf := ''''\<rparr> in
         if isspace_c c then Some p
         else if c = CHR ''['' then Some (p\<lparr>p_st := stHeader, p_rsp := None\<rparr>)
         else rc_char c (p\<lparr>p_st := (if c = CHR ''#'' \<or> c = CHR '';'' then stSkipToEOL else stGetKey)\<rparr>))
      else rc_char c p)"

fun rc_loop :: "string \<Rightarrow> rcparse \<Rightarrow> rcparse option" where
  "rc_loop [] p = Some p"
| "rc_loop (c # cs) p = do { p \<leftarrow> rc_step c p; rc_loop cs p }"

definition rc_parse :: "string \<Rightarrow> rcfile \<Rightarrow> rcfile option" where
  "rc_parse f rcp0 =
     do { p \<leftarrow> rc_loop f \<lparr>p_st = stNewLine, p_rsp = None, p_rkp = None, p_buf = '''', p_rcp = rcp0\<rparr>;
          if p_st p = stGetValue
          then do { s \<leftarrow> p_rsp p; k \<leftarrow> p_rkp p; Some (in_sect s (set_value k (p_buf p)) (p_rcp p)) }
          else Some (p_rcp p) }"

section \<open>Files\<close>

type_synonym rcfs = "string \<Rightarrow> errno + string"

definition rc_cachelookup :: "rcfile list \<Rightarrow> string \<Rightarrow> rcfile option" where
  "rc_cachelookup pf_head filename = List.find (\<lambda>p. rf_name p = filename) pf_head"

text \<open>The result: the error, or the handle and the table of the open files.\<close>

definition rc_open :: "rcfs \<Rightarrow> string \<Rightarrow> rcfile list \<Rightarrow> (errno + rcfile \<times> rcfile list) option" where
  "rc_open fs filename pf_head =
     (case rc_cachelookup pf_head filename of
        Some rcp \<Rightarrow> Some (Inr (rcp, pf_head))
      | None \<Rightarrow>
          (case fs filename of
             Inl e \<Rightarrow> Some (Inl e)
           | Inr f \<Rightarrow> map_option (\<lambda>rcp. Inr (rcp, rcp # pf_head)) (rc_parse f \<lparr>rf_name = filename, rf_sect = []\<rparr>)))"

definition rc_merge :: "rcfs \<Rightarrow> string \<Rightarrow> rcfile option \<Rightarrow> rcfile list \<Rightarrow> (errno + rcfile \<times> rcfile list) option" where
  "rc_merge fs filename rcfile pf_head =
     (case rcfile of
        None \<Rightarrow> rc_open fs filename pf_head
      | Some rcp \<Rightarrow>
          (case fs filename of
             Inl e \<Rightarrow> Some (Inl e)
           | Inr f \<Rightarrow>
               map_option (\<lambda>rcp'. Inr (rcp', upd_first (\<lambda>p. rf_name p = rf_name rcp) (\<lambda>_. rcp') pf_head)) (rc_parse f rcp)))"

definition rc_close :: "rcfile \<Rightarrow> rcfile list \<Rightarrow> rcfile list" where
  "rc_close rcp pf_head =
     takeWhile (\<lambda>p. rf_name p \<noteq> rf_name rcp) pf_head @ tl (dropWhile (\<lambda>p. rf_name p \<noteq> rf_name rcp) pf_head)"

section \<open>Lookups\<close>

definition rc_getstringptr :: "rcfile \<Rightarrow> string \<Rightarrow> string \<Rightarrow> errno + string" where
  "rc_getstringptr rcp sect key =
     (case rc_findsect rcp sect of
        None \<Rightarrow> Inl ENOENT'
      | Some rsp \<Rightarrow> (case rc_sect_findkey rsp key of None \<Rightarrow> Inl ENOENT' | Some rkp \<Rightarrow> Inr (rk_value rkp)))"

definition rc_getstring :: "rcfile \<Rightarrow> string \<Rightarrow> string \<Rightarrow> nat \<Rightarrow> errno + string" where
  "rc_getstring rcp sect key maxlen =
     ebind (rc_getstringptr rcp sect key) (\<lambda>val. if length val \<ge> maxlen then Inl EINVAL else Inr val)"

text \<open>An \<open>int\<close> is assigned the \<open>long\<close> of \<open>strtol\<close>.\<close>

definition int_of_long :: "int \<Rightarrow> int" where
  "int_of_long v = sint (word_of_int v :: 32 word)"

definition rc_getint :: "rcfile \<Rightarrow> string \<Rightarrow> string \<Rightarrow> errno + int" where
  "rc_getint rcp sect key =
     ebind (rc_getstringptr rcp sect key)
       (\<lambda>val. case to_long (fst (strtol 0 val)) of (v, erange) \<Rightarrow> if erange then Inl ERANGE else Inr (int_of_long v))"

definition lower :: "char \<Rightarrow> char" where
  "lower c = (if 65 \<le> (of_char c :: nat) \<and> (of_char c :: nat) \<le> 90 then char_of ((of_char c :: nat) + 32) else c)"

definition strcasecmp_eq :: "string \<Rightarrow> string \<Rightarrow> bool" where
  "strcasecmp_eq s t \<longleftrightarrow> map lower s = map lower t"

definition rc_getbool :: "rcfile \<Rightarrow> string \<Rightarrow> string \<Rightarrow> errno + int" where
  "rc_getbool rcp sect key =
     ebind (rc_getstringptr rcp sect key)
       (\<lambda>val. let p = dropWhile isspace_c val in
          if take 1 p = ''0'' \<or> strcasecmp_eq p ''no'' \<or> strcasecmp_eq p ''false'' then Inr 0
          else if take 1 p = ''1'' \<or> strcasecmp_eq p ''yes'' \<or> strcasecmp_eq p ''true'' then Inr 1
          else Inl EINVAL)"

section \<open>Options\<close>

datatype opt_argtype = OPTARG_STR | OPTARG_INT | OPTARG_BOOL

record opt_args =
  a_type :: opt_argtype
  a_opt :: char
  a_name :: string
  a_havemin :: bool
  a_havemax :: bool
  a_ival :: int
  a_str :: "string option"
  a_min :: int
  a_max :: int

definition out_of_range :: "opt_args \<Rightarrow> bool" where
  "out_of_range ap \<longleftrightarrow> a_havemin ap \<and> a_ival ap < a_min ap \<or> a_havemax ap \<and> a_ival ap > a_max ap"

text \<open>
  The table of the options is a list, its elements are changed in place; the callback works on
  a state of its own. The result is the error number (0 for none), the table and that state.
\<close>

type_synonym 's callback = "opt_args \<Rightarrow> 's \<Rightarrow> 's"

text \<open>One option of the file: the error, the changed element and whether the callback is called.\<close>

definition opt_from_file :: "rcfile \<Rightarrow> string \<Rightarrow> opt_args \<Rightarrow> errno \<times> opt_args \<times> bool" where
  "opt_from_file rcp sect ap =
     (case a_type ap of
        OPTARG_STR \<Rightarrow>
          (case rc_getstringptr rcp sect (a_name ap) of
             Inl _ \<Rightarrow> (0, ap\<lparr>a_str := None\<rparr>, False)
           | Inr s \<Rightarrow> (if int (length s) > a_ival ap then (EINVAL, ap\<lparr>a_str := Some s\<rparr>, False)
                      else (0, ap\<lparr>a_str := Some s\<rparr>, True)))
      | OPTARG_BOOL \<Rightarrow>
          (case rc_getbool rcp sect (a_name ap) of
             Inl e \<Rightarrow> (if e = ENOENT' then (0, ap, False) else (EINVAL, ap, False))
           | Inr b \<Rightarrow> (0, ap\<lparr>a_ival := b\<rparr>, True))
      | OPTARG_INT \<Rightarrow>
          (case rc_getint rcp sect (a_name ap) of
             Inl e \<Rightarrow>
               (0, if e = ENOENT' then ap
                   else ap\<lparr>a_ival := (case rc_getstringptr rcp sect (a_name ap) of
                     Inr s \<Rightarrow> int_of_long (fst (to_long (fst (strtol 0 s)))) | Inl _ \<Rightarrow> a_ival ap)\<rparr>, False)
           | Inr v \<Rightarrow> (let ap = ap\<lparr>a_ival := v\<rparr> in if out_of_range ap then (EINVAL, ap, False) else (0, ap, True))))"

fun opt_args_parse :: "rcfile \<Rightarrow> opt_args list \<Rightarrow> string \<Rightarrow> 's callback \<Rightarrow> 's \<Rightarrow> errno \<times> opt_args list \<times> 's" where
  "opt_args_parse rcp [] sect callback s = (0, [], s)"
| "opt_args_parse rcp (ap # aps) sect callback s =
     (case opt_from_file rcp sect ap of
        (err, ap, called) \<Rightarrow>
          (if err \<noteq> 0 then (err, ap # aps, s)
           else
             (case opt_args_parse rcp aps sect callback (if called then callback ap s else s) of
                (err, aps, s) \<Rightarrow> (err, ap # aps, s))))"

definition opt_from_arg :: "string option \<Rightarrow> opt_args \<Rightarrow> (errno \<times> opt_args \<times> bool) option" where
  "opt_from_arg arg ap =
     (case a_type ap of
        OPTARG_STR \<Rightarrow>
          (let ap = ap\<lparr>a_str := arg\<rparr> in
           case arg of
             None \<Rightarrow> Some (0, ap, False)
           | Some a \<Rightarrow> Some (if int (length a) > a_ival ap then (EINVAL, ap, False) else (0, ap, True)))
      | OPTARG_BOOL \<Rightarrow> Some (0, ap\<lparr>a_ival := 0\<rparr>, True)
      | OPTARG_INT \<Rightarrow>
          do { a \<leftarrow> arg;
               let (v, erange) = to_long (fst (strtol 0 a));
               let ap = ap\<lparr>a_ival := int_of_long v\<rparr>;
               Some (if erange \<or> out_of_range ap then (EINVAL, ap, False) else (0, ap, True)) })"

fun opt_args_parseopt :: "opt_args list \<Rightarrow> char \<Rightarrow> string option \<Rightarrow> 's callback \<Rightarrow> 's \<Rightarrow> (errno \<times> opt_args list \<times> 's) option" where
  "opt_args_parseopt [] opt arg callback s = Some (0, [], s)"
| "opt_args_parseopt (ap # aps) opt arg callback s =
     (if a_opt ap \<noteq> opt
      then map_option (\<lambda>(err, aps, s). (err, ap # aps, s)) (opt_args_parseopt aps opt arg callback s)
      else map_option (\<lambda>(err, ap, called). (err, ap # aps, if called then callback ap s else s)) (opt_from_arg arg ap))"

section \<open>What the parser reads\<close>

text \<open>A file of sections, each of them with lines \<open>key=value\<close>.\<close>

type_synonym rc_text = "(string \<times> (string \<times> string) list) list"

definition render_key :: "string \<times> string \<Rightarrow> string" where
  "render_key kv = fst kv @ ''='' @ snd kv @ [CHR 0x0A]"

definition render_sect :: "string \<times> (string \<times> string) list \<Rightarrow> string" where
  "render_sect x = ''['' @ fst x @ '']'' @ [CHR 0x0A] @ concat (map render_key (snd x))"

definition render :: "rc_text \<Rightarrow> string" where
  "render cfg = concat (map render_sect cfg)"

definition key_ok :: "string \<Rightarrow> bool" where
  "key_ok k \<longleftrightarrow> length k < 2047 \<and> (\<forall>c \<in> set k. c \<notin> {CHR ''='', CHR '' '', CHR 0x09, CHR 0x0A, CHR 0x0D}) \<and>
     \<not> isspace_c (hd (k @ ''='')) \<and> hd (k @ ''='') \<notin> {CHR ''['', CHR ''#'', CHR '';''}"

definition value_ok :: "string \<Rightarrow> bool" where
  "value_ok v \<longleftrightarrow> length v < 2047 \<and> CHR 0x0A \<notin> set v \<and> CHR 0x0D \<notin> set v"

definition sect_ok :: "string \<Rightarrow> bool" where
  "sect_ok s \<longleftrightarrow> length s < 2047 \<and> CHR '']'' \<notin> set s \<and> CHR 0x0D \<notin> set s"

definition text_ok :: "rc_text \<Rightarrow> bool" where
  "text_ok cfg \<longleftrightarrow> (\<forall>(s, kvs) \<in> set cfg. sect_ok s \<and> (\<forall>(k, v) \<in> set kvs. key_ok k \<and> value_ok v))"

definition bindings :: "rc_text \<Rightarrow> ((string \<times> string) \<times> string) list" where
  "bindings cfg = concat (map (\<lambda>(s, kvs). map (\<lambda>(k, v). ((s, k), v)) kvs) cfg)"

subsection \<open>Lookups after changes\<close>

lemma find_upd_first: "(\<And>x. P (f x) = P x) \<Longrightarrow> List.find P (upd_first P f xs) = map_option f (List.find P xs)"
  by (induction xs) auto

lemma find_upd_first_other:
  "(\<And>x. P x \<Longrightarrow> Q (f x) = Q x) \<Longrightarrow> (\<And>x. P x \<Longrightarrow> \<not> Q x) \<Longrightarrow> List.find Q (upd_first P f xs) = List.find Q xs"
  by (induction xs) auto

lemma rc_findsect_in_sect:
  assumes "\<And>x. rs_name (f x) = rs_name x"
  shows "rc_findsect (in_sect s f rcp) s' = (if s' = s then map_option f (rc_findsect rcp s) else rc_findsect rcp s')"
  by (auto simp: rc_findsect_def in_sect_def assms find_upd_first intro: find_upd_first_other)

lemma rs_name_upd [simp]: "rs_name (rc_sect_addkey x k v) = rs_name x" "rs_name (set_value k w x) = rs_name x"
  by (simp_all add: rc_sect_addkey_def set_value_def Let_def split: option.split)

lemma rc_sect_findkey_upd:
  "rc_sect_findkey (x\<lparr>rs_keys := upd_first (\<lambda>p. rk_name p = k) (\<lambda>p. p\<lparr>rk_value := v\<rparr>) (rs_keys x)\<rparr>) k' =
    (if k' = k then map_option (\<lambda>p. p\<lparr>rk_value := v\<rparr>) (rc_sect_findkey x k) else rc_sect_findkey x k')"
  by (auto simp: rc_sect_findkey_def find_upd_first intro: find_upd_first_other)

lemma rc_sect_findkey_addkey:
  "map_option rk_value (rc_sect_findkey (rc_sect_addkey x k None) k') =
    (if k' = k then Some '''' else map_option rk_value (rc_sect_findkey x k'))"
proof (cases "rc_sect_findkey x k")
  case None
  then show ?thesis by (auto simp: rc_sect_addkey_def rc_sect_findkey_def)
next
  case (Some p)
  then show ?thesis by (simp add: rc_sect_addkey_def rc_sect_findkey_upd)
qed

lemma rc_sect_findkey_set_value:
  "map_option rk_value (rc_sect_findkey (set_value k v x) k') =
    (if k' = k then map_option (\<lambda>_. v) (rc_sect_findkey x k) else map_option rk_value (rc_sect_findkey x k'))"
  by (simp add: set_value_def rc_sect_findkey_upd option.map_comp comp_def)

definition lookup :: "rcfile \<Rightarrow> string \<Rightarrow> string \<Rightarrow> string option" where
  "lookup rcp s k = Option.bind (rc_findsect rcp s) (\<lambda>x. map_option rk_value (rc_sect_findkey x k))"

lemma rc_getstringptr_lookup:
  "rc_getstringptr rcp s k = (case lookup rcp s k of None \<Rightarrow> Inl ENOENT' | Some v \<Rightarrow> Inr v)"
  by (simp add: rc_getstringptr_def lookup_def split: option.split)

lemma lookup_addkey:
  "rc_findsect rcp s \<noteq> None \<Longrightarrow> lookup (in_sect s (\<lambda>x. rc_sect_addkey x k None) rcp) s' k' =
    (if s' = s \<and> k' = k then Some '''' else lookup rcp s' k')"
  by (auto simp: lookup_def rc_findsect_in_sect rc_sect_findkey_addkey)

lemma lookup_set_value:
  "lookup (in_sect s (set_value k v) rcp) s' k' =
    (if s' = s \<and> k' = k then map_option (\<lambda>_. v) (lookup rcp s k) else lookup rcp s' k')"
  by (cases "rc_findsect rcp s") (auto simp: lookup_def rc_findsect_in_sect rc_sect_findkey_set_value option.map_comp comp_def)

lemma lookup_addsect: "lookup (rc_addsect rcp s) s' k' = lookup rcp s' k'"
proof (cases "rc_findsect rcp s")
  case None
  then show ?thesis by (auto simp: lookup_def rc_addsect_def rc_findsect_def rc_sect_findkey_def)
qed (simp add: rc_addsect_def)

lemma findsect_addsect: "rc_findsect (rc_addsect rcp s) s \<noteq> None"
  by (cases "rc_findsect rcp s") (simp_all add: rc_addsect_def, simp add: rc_findsect_def)

subsection \<open>The lines\<close>

abbreviation "PS s t k b r \<equiv> \<lparr>p_st = s, p_rsp = t, p_rkp = k, p_buf = b, p_rcp = r\<rparr>"

lemma rc_loop_append: "rc_loop (xs @ ys) p = Option.bind (rc_loop xs p) (rc_loop ys)"
proof (induction xs arbitrary: p)
  case (Cons x xs)
  then show ?case by (cases "rc_step x p") simp_all
qed simp

lemma rc_loop_collect:
  assumes "\<And>c b. c \<in> set xs \<Longrightarrow> length b < 2047 \<Longrightarrow> rc_step c (PS s t k b r) = Some (PS s t k (b @ [c]) r)"
    and "length b + length xs \<le> 2047"
  shows "rc_loop xs (PS s t k b r) = Some (PS s t k (b @ xs) r)"
  using assms by (induction xs arbitrary: b) simp_all

lemma rc_loop_header:
  assumes "sect_ok s"
  shows "rc_loop (''['' @ s @ '']'' @ [CHR 0x0A]) (PS stNewLine t k b r) = Some (PS stNewLine (Some s) k '''' (rc_addsect r s))"
proof -
  have s: "length s < 2047" "CHR '']'' \<notin> set s" "CHR 0x0D \<notin> set s" using assms by (auto simp: sect_ok_def)
  have "rc_loop s (PS stHeader None k '''' r) = Some (PS stHeader None k ('''' @ s) r)"
    using s by (intro rc_loop_collect) (auto simp: rc_step_def rc_char_def full_def)
  then show ?thesis
    using s by (simp add: rc_loop_append rc_step_def isspace_c_def Let_def rc_char_def full_def new_line_def)
qed

lemma rc_loop_key:
  assumes "key_ok x" "value_ok v" "rc_findsect r s \<noteq> None"
  shows "rc_loop (render_key (x, v)) (PS stNewLine (Some s) k b r) =
    Some (PS stNewLine (Some s) None v (in_sect s (set_value x v) (in_sect s (\<lambda>sec. rc_sect_addkey sec x None) r)))"
proof -
  have x: "length x < 2047" "\<And>c. c \<in> set x \<Longrightarrow> c \<notin> {CHR ''='', CHR '' '', CHR 0x09, CHR 0x0A, CHR 0x0D}"
    "\<not> isspace_c (hd (x @ ''=''))" "hd (x @ ''='') \<notin> {CHR ''['', CHR ''#'', CHR '';''}"
    using assms(1) unfolding key_ok_def by blast+
  have v: "length v < 2047" "CHR 0x0A \<notin> set v" "CHR 0x0D \<notin> set v" using assms(2) by (auto simp: value_ok_def)
  have first: "rc_loop (x @ ''='') (PS stNewLine (Some s) k b r) = rc_loop (x @ ''='') (PS stGetKey (Some s) k '''' r)"
    using x by (cases x) (auto simp: rc_step_def isspace_c_def Let_def)
  have "rc_loop x (PS stGetKey (Some s) k '''' r) = Some (PS stGetKey (Some s) k ('''' @ x) r)"
    using x(1,2) by (intro rc_loop_collect) (auto simp: rc_step_def rc_char_def full_def)
  then have k: "rc_loop (x @ ''='') (PS stGetKey (Some s) k '''' r) =
      Some (PS stGetValue (Some s) (Some x) '''' (in_sect s (\<lambda>sec. rc_sect_addkey sec x None) r))"
    using x(1) by (simp add: rc_loop_append rc_step_def rc_char_def full_def)
  let ?r = "in_sect s (\<lambda>sec. rc_sect_addkey sec x None) r"
  have "rc_loop v (PS stGetValue (Some s) (Some x) '''' ?r) = Some (PS stGetValue (Some s) (Some x) ('''' @ v) ?r)"
    using v by (intro rc_loop_collect) (auto simp: rc_step_def rc_char_def full_def)
  then have "rc_loop (v @ [CHR 0x0A]) (PS stGetValue (Some s) (Some x) '''' ?r) =
      Some (PS stNewLine (Some s) None v (in_sect s (set_value x v) ?r))"
    using v(1) by (simp add: rc_loop_append rc_step_def rc_char_def full_def)
  then show ?thesis
    using first k rc_loop_append [of "x @ ''=''" "v @ [CHR 0x0A]"] by (simp add: render_key_def)
qed

lemma rc_loop_keys:
  assumes "\<forall>(k, v) \<in> set kvs. key_ok k \<and> value_ok v" "rc_findsect r s \<noteq> None"
  shows "\<exists>k' b' r'. rc_loop (concat (map render_key kvs)) (PS stNewLine (Some s) k b r) = Some (PS stNewLine (Some s) k' b' r') \<and>
    (\<forall>t y. lookup r' t y = (case map_of (rev (map (\<lambda>(k, v). ((s, k), v)) kvs)) (t, y) of Some v \<Rightarrow> Some v | None \<Rightarrow> lookup r t y))"
  using assms
proof (induction kvs arbitrary: k b r)
  case Nil
  then show ?case by simp
next
  case (Cons x kvs)
  obtain y v where x: "x = (y, v)" by (cases x)
  define r1 where "r1 = in_sect s (set_value y v) (in_sect s (\<lambda>sec. rc_sect_addkey sec y None) r)"
  have r: "rc_loop (render_key x) (PS stNewLine (Some s) k b r) = Some (PS stNewLine (Some s) None v r1)"
    unfolding x r1_def using Cons.prems x by (intro rc_loop_key) auto
  have f: "rc_findsect r1 s \<noteq> None" using Cons.prems(2) by (simp add: r1_def rc_findsect_in_sect)
  have l: "lookup r1 t z = (if t = s \<and> z = y then Some v else lookup r t z)" for t z
    using Cons.prems(2) by (simp add: r1_def lookup_set_value lookup_addkey)
  obtain k' b' r' where "rc_loop (concat (map render_key kvs)) (PS stNewLine (Some s) None v r1) = Some (PS stNewLine (Some s) k' b' r')"
    and "\<forall>t y. lookup r' t y = (case map_of (rev (map (\<lambda>(k, v). ((s, k), v)) kvs)) (t, y) of Some v \<Rightarrow> Some v | None \<Rightarrow> lookup r1 t y)"
    using Cons.IH [OF _ f] Cons.prems(1) by fastforce
  then show ?case using r x
    by (intro exI [of _ k'] exI [of _ b'] exI [of _ r'])
      (auto simp: rc_loop_append l map_add_def split: option.split)
qed

lemma rc_loop_sects:
  assumes "text_ok cfg"
  shows "\<exists>t' k' b' r'. rc_loop (render cfg) (PS stNewLine t k b r) = Some (PS stNewLine t' k' b' r') \<and>
    (\<forall>t y. lookup r' t y = (case map_of (rev (bindings cfg)) (t, y) of Some v \<Rightarrow> Some v | None \<Rightarrow> lookup r t y))"
  using assms
proof (induction cfg arbitrary: t k b r)
  case Nil
  then show ?case by (simp add: render_def bindings_def)
next
  case (Cons x cfg)
  obtain s kvs where x: "x = (s, kvs)" by (cases x)
  have ok: "sect_ok s" "\<forall>(k, v) \<in> set kvs. key_ok k \<and> value_ok v" "text_ok cfg"
    using Cons.prems by (auto simp: text_ok_def x)
  obtain k1 b1 r1 where k: "rc_loop (concat (map render_key kvs)) (PS stNewLine (Some s) k '''' (rc_addsect r s)) =
      Some (PS stNewLine (Some s) k1 b1 r1)"
    and l1: "\<forall>t y. lookup r1 t y = (case map_of (rev (map (\<lambda>(k, v). ((s, k), v)) kvs)) (t, y) of Some v \<Rightarrow> Some v | None \<Rightarrow> lookup (rc_addsect r s) t y)"
    using rc_loop_keys [OF ok(2) findsect_addsect] by blast
  have "rc_loop (render_sect x) (PS stNewLine t k b r) = Some (PS stNewLine (Some s) k1 b1 r1)"
  proof -
    have "render_sect x = (''['' @ s @ '']'' @ [CHR 0x0A]) @ concat (map render_key kvs)"
      by (simp add: render_sect_def x)
    then show ?thesis
      unfolding rc_loop_append [of "''['' @ s @ '']'' @ [CHR 0x0A]"] rc_loop_header [OF ok(1)]
      by (simp only: rc_loop_append [of "''['' @ s @ '']'' @ [CHR 0x0A]"] rc_loop_header [OF ok(1)] bind.bind_lunit k)
  qed
  moreover obtain t' k' b' r' where "rc_loop (render cfg) (PS stNewLine (Some s) k1 b1 r1) = Some (PS stNewLine t' k' b' r')"
    and "\<forall>t y. lookup r' t y = (case map_of (rev (bindings cfg)) (t, y) of Some v \<Rightarrow> Some v | None \<Rightarrow> lookup r1 t y)"
    using Cons.IH [OF ok(3)] by blast
  ultimately show ?case using l1
    by (intro exI [of _ t'] exI [of _ k'] exI [of _ b'] exI [of _ r'])
      (auto simp: render_def rc_loop_append bindings_def x lookup_addsect map_add_def split: option.split)
qed

text \<open>
  C9. Configuration files: reading a file of sections with lines key=value on top of what was read
  before gives every key of every section the last value the file gives to it, and leaves the others
  as they were.
\<close>

theorem rc_parse_lookup:
  assumes "text_ok cfg"
  shows "\<exists>rcp'. rc_parse (render cfg) rcp = Some rcp' \<and>
    (\<forall>s k. rc_getstringptr rcp' s k =
      (case map_of (rev (bindings cfg)) (s, k) of Some v \<Rightarrow> Inr v | None \<Rightarrow> rc_getstringptr rcp s k))"
proof -
  obtain t' k' b' r' where "rc_loop (render cfg) (PS stNewLine None None '''' rcp) = Some (PS stNewLine t' k' b' r')"
    and "\<forall>t y. lookup r' t y = (case map_of (rev (bindings cfg)) (t, y) of Some v \<Rightarrow> Some v | None \<Rightarrow> lookup rcp t y)"
    using rc_loop_sects [OF assms] by blast
  then show ?thesis by (intro exI [of _ r']) (auto simp: rc_parse_def rc_getstringptr_lookup split: option.split)
qed

lemma rc_parse_lookup_witness:
  "\<exists>rcp'. rc_parse (''[a]'' @ [CHR 0x0A] @ ''x=1'' @ [CHR 0x0A] @ ''x=2'' @ [CHR 0x0A] @ ''[b]'' @ [CHR 0x0A])
      \<lparr>rf_name = ''f'', rf_sect = []\<rparr> = Some rcp' \<and>
    rc_getstringptr rcp' ''a'' ''x'' = Inr ''2'' \<and> rc_getstringptr rcp' ''b'' ''x'' = Inl ENOENT'"
proof -
  have ok: "text_ok [(''a'', [(''x'', ''1''), (''x'', ''2'')]), (''b'', [])]"
    by (simp add: text_ok_def sect_ok_def key_ok_def value_ok_def isspace_c_def)
  have e: "rc_getstringptr \<lparr>rf_name = ''f'', rf_sect = []\<rparr> s k = Inl ENOENT'" for s k
    by (simp add: rc_getstringptr_def rc_findsect_def)
  show ?thesis
    using rc_parse_lookup [OF ok, of "\<lparr>rf_name = ''f'', rf_sect = []\<rparr>"]
    by (auto simp: render_def render_sect_def render_key_def bindings_def e)
qed

end
