(* ===== verification/SMB_Subr.thy ===== *)
theory SMB_Subr
  imports RC_File
begin

text \<open>
  The helpers of the SMB client in \<open>src/lib/smb/subr.c\<close>: the encryption of the passwords in the
  configuration files, the printing of flags and the opening of the configuration files.

  A character is signed, as on the usual hosts. A destination given by the caller is a buffer
  with checked accesses; without one, the code allocates its own. Memory is granted. The messages of
  \<open>smb_error\<close> are output only.
\<close>

section \<open>Passwords\<close>

definition signed_char :: "char \<Rightarrow> int" where
  "signed_char c = (let n = int (of_char c :: nat) in if n < 128 then n else n - 256)"

definition to_char :: "int \<Rightarrow> char" where
  "to_char i = char_of (nat (i mod 256))"

definition isascii :: "int \<Rightarrow> bool" where
  "isascii i \<longleftrightarrow> 0 \<le> i \<and> i < 128"

definition isupper :: "int \<Rightarrow> bool" where
  "isupper i \<longleftrightarrow> 65 \<le> i \<and> i \<le> 90"

definition islower :: "int \<Rightarrow> bool" where
  "islower i \<longleftrightarrow> 97 \<le> i \<and> i \<le> 122"

definition rot13 :: "int \<Rightarrow> int" where
  "rot13 ch =
     (if isascii ch
      then (if isupper ch then 65 + (ch - 65 + 13) mod 26 else if islower ch then 97 + (ch - 97 + 13) mod 26 else ch)
      else ch)"

definition hex_char :: "nat \<Rightarrow> char" where
  "hex_char d = (if d < 10 then char_of (48 + d) else char_of (87 + d))"

fun hex_digits :: "nat \<Rightarrow> string" where
  "hex_digits n = (if n < 16 then [hex_char n] else hex_digits (n div 16) @ [hex_char (n mod 16)])"

declare hex_digits.simps [simp del]

text \<open>\<open>sprintf(dst, "%02x", ch)\<close>, with \<open>ch\<close> read as an unsigned number.\<close>

definition fmt_02x :: "int \<Rightarrow> string" where
  "fmt_02x ch = (let s = hex_digits (unat (word_of_int ch :: 32 word)) in if length s < 2 then CHR ''0'' # s else s)"

fun crypt_loop :: "string \<Rightarrow> int \<Rightarrow> cbuffer \<Rightarrow> nat \<Rightarrow> (cbuffer \<times> nat) option" where
  "crypt_loop [] pos buf dst = Some (buf, dst)"
| "crypt_loop (c # src) pos buf dst =
     do { let ch = rot13 (signed_char c) XOR pos;
          buf \<leftarrow> put_str buf dst (fmt_02x ch);
          crypt_loop src (pos + 13) buf (dst + 2) }"

definition smb_simplecrypt :: "cbuffer option \<Rightarrow> string \<Rightarrow> cbuffer option" where
  "smb_simplecrypt dst src =
     do { let buf = (case dst of Some b \<Rightarrow> b | None \<Rightarrow> replicate (4 + 2 * length src) NUL);
          buf \<leftarrow> wr buf 0 CHR ''$'';
          buf \<leftarrow> wr buf 1 CHR ''$'';
          buf \<leftarrow> wr buf 2 CHR ''1'';
          (buf, dst) \<leftarrow> crypt_loop src 27 buf 3;
          wr buf dst NUL }"

fun decrypt_loop :: "string \<Rightarrow> int \<Rightarrow> errno + string" where
  "decrypt_loop (a # b # src) pos =
     (case strtol 16 [a, b] of
        (v, ep) \<Rightarrow>
          if ep \<noteq> [] then Inl EINVAL
          else econs (to_char (rot13 (sint (word_of_int v :: 32 word) XOR pos))) (decrypt_loop src (pos + 13)))"
| "decrypt_loop src pos = Inr []"

text \<open>The characters stored at the destination.\<close>

definition smb_simpledecrypt :: "string \<Rightarrow> errno + string" where
  "smb_simpledecrypt src =
     (if take 3 src \<noteq> ''$$1'' then Inl EINVAL
      else if odd (length (drop 3 src)) then Inl EINVAL
      else decrypt_loop (drop 3 src) 27)"

section \<open>Flags and files\<close>

fun printb_loop :: "32 word \<Rightarrow> bool \<Rightarrow> (32 word \<times> string) list \<Rightarrow> string" where
  "printb_loop flags isfst [] = ''''"
| "printb_loop flags isfst ((bn_bit, name) # bns) =
     (let hit = (flags AND bn_bit \<noteq> 0); isfst = (isfst \<and> \<not> hit) in
      (if hit then name else '''') @
      (if \<not> isfst \<and> (case bns of [] \<Rightarrow> False | (bn_bit', _) # _ \<Rightarrow> flags AND bn_bit' \<noteq> 0) then ''|'' else '''') @
      printb_loop flags isfst bns)"

definition smb_printb :: "32 word \<Rightarrow> (32 word \<times> string) list \<Rightarrow> string" where
  "smb_printb flags bnp = ''<'' @ printb_loop flags True bnp @ ''>''"

text \<open>
  First the file in the home directory, then that of the system on top of it. The result is the
  error number, the variable \<open>smb_rc\<close> and the table of the open files.
\<close>

definition smb_open_rcfile ::
  "rcfs \<Rightarrow> string option \<Rightarrow> rcfile option \<Rightarrow> rcfile list \<Rightarrow> (errno \<times> rcfile option \<times> rcfile list) option"
where
  "smb_open_rcfile fs home smb_rc pf_head =
     (let assign = (\<lambda>smb_rc pf_head r. case r of Inl _ \<Rightarrow> (smb_rc, pf_head) | Inr (rcp, pf_head) \<Rightarrow> (Some rcp, pf_head)) in
      do { (smb_rc, pf_head) \<leftarrow>
             (case home of
                None \<Rightarrow> Some (smb_rc, pf_head)
              | Some h \<Rightarrow> map_option (assign smb_rc pf_head) (rc_open fs (take 1023 (h @ ''/.nsmbrc'')) pf_head));
           (smb_rc, pf_head) \<leftarrow> map_option (assign smb_rc pf_head) (rc_merge fs ''/etc/nsmb.conf'' smb_rc pf_head);
           Some (if smb_rc = None then ENOENT' else 0, smb_rc, pf_head) })"

section \<open>Encryption and decryption\<close>

lemma rot13_ascii: "isascii i \<Longrightarrow> isascii (rot13 i)"
  by (auto simp: rot13_def isascii_def isupper_def islower_def)

lemma rot13_rot13: "rot13 (rot13 i) = i"
proof -
  have turn: "((k + 13) mod 26 + 13) mod 26 = k" if "0 \<le> k" "k < 26" for k :: int
    using that by presburger
  have m: "0 \<le> k mod 26" "k mod 26 < 26" for k :: int by simp_all
  consider "isupper i" | "islower i" | "\<not> isupper i \<and> \<not> islower i" by blast
  then show ?thesis
  proof cases
    case 1
    then have r: "rot13 i = 65 + (i - 65 + 13) mod 26" by (simp add: rot13_def isascii_def isupper_def)
    have u: "isupper (65 + k mod 26)" "isascii (65 + k mod 26)" for k
      using m [of k] by (simp_all add: isupper_def isascii_def)
    have "rot13 (65 + (i - 65 + 13) mod 26) = 65 + ((i - 65 + 13) mod 26 + 13) mod 26"
      unfolding rot13_def using u [of "i - 65 + 13"] by simp
    also have "\<dots> = i" using turn [of "i - 65"] 1 by (simp add: isupper_def)
    finally show ?thesis unfolding r .
  next
    case 2
    then have r: "rot13 i = 97 + (i - 97 + 13) mod 26" by (simp add: rot13_def isascii_def isupper_def islower_def)
    have u: "\<not> isupper (97 + k mod 26)" "islower (97 + k mod 26)" "isascii (97 + k mod 26)" for k
      using m [of k] by (simp_all add: isupper_def islower_def isascii_def)
    have "rot13 (97 + (i - 97 + 13) mod 26) = 97 + ((i - 97 + 13) mod 26 + 13) mod 26"
      unfolding rot13_def using u [of "i - 97 + 13"] by simp
    also have "\<dots> = i" using turn [of "i - 97"] 2 by (simp add: islower_def)
    finally show ?thesis unfolding r .
  next
    case 3
    then show ?thesis by (simp add: rot13_def)
  qed
qed

lemma of_char_char_of_nat: "n < 256 \<Longrightarrow> of_char (char_of n :: char) = (n :: nat)"
  by simp

lemma digit_val_hex: "d < 16 \<Longrightarrow> digit_val (hex_char d) = Some d"
  by (auto simp: digit_val_def hex_char_def Let_def)

lemma hex_char_plain:
  assumes "d < 16"
  shows "\<not> isspace_c (hex_char d)" "hex_char d \<noteq> CHR ''-''" "hex_char d \<noteq> CHR ''+''" "hex_char d \<noteq> CHR ''x''"
    "hex_char d \<noteq> CHR ''X''" "hex_char d \<noteq> NUL"
proof -
  have d: "d \<in> {0, 1, 2, 3, 4, 5, 6, 7, 8, 9, 10, 11, 12, 13, 14, 15}"
    using assms by (simp only: insert_iff empty_iff) presburger
  show "\<not> isspace_c (hex_char d)" "hex_char d \<noteq> CHR ''-''" "hex_char d \<noteq> CHR ''+''" "hex_char d \<noteq> CHR ''x''"
    "hex_char d \<noteq> CHR ''X''" "hex_char d \<noteq> NUL"
    using d by (auto simp: hex_char_def isspace_c_def char_of_def)
qed

lemma xor_small: "0 \<le> x \<Longrightarrow> x < 256 \<Longrightarrow> 0 \<le> y \<Longrightarrow> y < 256 \<Longrightarrow> 0 \<le> x XOR y \<and> x XOR y < 256" for x y :: int
proof -
  assume a: "0 \<le> x" "x < 256" "0 \<le> y" "y < 256"
  have "take_bit 8 (x XOR y) = x XOR y"
    using a by (simp add: take_bit_xor take_bit_int_eq_self)
  moreover have "0 \<le> take_bit 8 (x XOR y)" "take_bit 8 (x XOR y) < 2 ^ 8"
    by (rule take_bit_nonnegative, rule take_bit_int_less_exp)
  ultimately show ?thesis by simp
qed

lemma xor_large: "0 \<le> x \<Longrightarrow> x < 256 \<Longrightarrow> 256 \<le> y \<Longrightarrow> 256 \<le> x XOR y" for x y :: int
proof -
  assume a: "0 \<le> x" "x < 256" "256 \<le> y"
  have "drop_bit 8 x = 0" using a by (simp add: drop_bit_eq_div)
  moreover have "1 \<le> drop_bit 8 y" using a zdiv_mono1 [of 256 y 256] by (simp add: drop_bit_eq_div)
  ultimately have "1 \<le> drop_bit 8 (x XOR y)" by (simp add: drop_bit_xor)
  then have "1 \<le> (x XOR y) div 256" by (simp add: drop_bit_eq_div)
  then show ?thesis by presburger
qed

lemma hex_digits_two: "n < 256 \<Longrightarrow> 16 \<le> n \<Longrightarrow> hex_digits n = [hex_char (n div 16), hex_char (n mod 16)]"
  by (subst hex_digits.simps, subst hex_digits.simps) auto

lemma hex_digits_length: "256 \<le> n \<Longrightarrow> 3 \<le> length (hex_digits n)"
proof -
  have pos: "1 \<le> length (hex_digits k)" for k by (subst hex_digits.simps) auto
  have two: "2 \<le> length (hex_digits k)" if "16 \<le> k" for k
    using that pos [of "k div 16"] by (subst hex_digits.simps) auto
  assume "256 \<le> n"
  then have "16 \<le> n div 16" by simp
  then show ?thesis using two [of "n div 16"] \<open>256 \<le> n\<close> by (subst hex_digits.simps) auto
qed

lemma hex_char_0: "hex_char 0 = CHR ''0''"
  by code_simp

lemma sint_of_int_small: "0 \<le> k \<Longrightarrow> k < 2 ^ 31 \<Longrightarrow> sint (word_of_int k :: 32 word) = k"
  by (simp add: sint_uint unsigned_of_int take_bit_int_eq_self signed_take_bit_eq_if_positive bit_iff_odd)

lemma fmt_02x_byte:
  assumes "0 \<le> x" "x < 256"
  shows "fmt_02x x = [hex_char (nat x div 16), hex_char (nat x mod 16)]"
proof -
  have u: "unat (word_of_int x :: 32 word) = nat x"
    using assms by (simp add: unsigned_of_int take_bit_int_eq_self)
  show ?thesis
  proof (cases "nat x < 16")
    case True
    then show ?thesis using hex_digits.simps [of "nat x"] by (simp add: fmt_02x_def u hex_char_0)
  next
    case False
    then show ?thesis using assms hex_digits_two [of "nat x"] by (simp add: fmt_02x_def u)
  qed
qed

lemma fmt_02x_large:
  assumes "256 \<le> x" "x < 2 ^ 31"
  shows "3 \<le> length (fmt_02x x)"
proof -
  have "unat (word_of_int x :: 32 word) = nat x"
    using assms by (simp add: unsigned_of_int take_bit_int_eq_self)
  moreover have "256 \<le> nat x" using assms by simp
  ultimately show ?thesis using hex_digits_length [of "nat x"] by (simp add: fmt_02x_def)
qed

lemma strtol_two: "a < 16 \<Longrightarrow> b < 16 \<Longrightarrow> strtol 16 [hex_char a, hex_char b] = (int (16 * a + b), [])"
  using hex_char_plain [of a] hex_char_plain [of b]
  by (simp add: strtol_def digit_val_hex is_digit_in_def Let_def)

text \<open>The digits of the encrypted characters.\<close>

fun enc :: "int \<Rightarrow> string \<Rightarrow> string" where
  "enc pos [] = ''''"
| "enc pos (c # cs) = fmt_02x (rot13 (signed_char c) XOR pos) @ enc (pos + 13) cs"

definition ascii :: "string \<Rightarrow> bool" where
  "ascii s \<longleftrightarrow> (\<forall>c \<in> set s. c \<noteq> NUL \<and> (of_char c :: nat) < 128)"

lemma signed_char_ascii: "ascii (c # cs) \<Longrightarrow> isascii (signed_char c) \<and> to_char (signed_char c) = c"
  by (simp add: ascii_def signed_char_def isascii_def to_char_def Let_def)

lemma enc_char:
  assumes "ascii (c # cs)" "0 \<le> pos" "pos < 256"
  shows "\<exists>a b. fmt_02x (rot13 (signed_char c) XOR pos) = [hex_char a, hex_char b] \<and> a < 16 \<and> b < 16 \<and>
    int (16 * a + b) = rot13 (signed_char c) XOR pos"
proof -
  let ?x = "rot13 (signed_char c) XOR pos"
  have "isascii (rot13 (signed_char c))" using signed_char_ascii [OF assms(1)] rot13_ascii by blast
  then have x: "0 \<le> ?x" "?x < 256" using assms xor_small [of "rot13 (signed_char c)" pos] by (simp_all add: isascii_def)
  have "int (16 * (nat ?x div 16) + nat ?x mod 16) = ?x" using x(1) by simp
  moreover have "nat ?x div 16 < 16" using x by (simp add: less_mult_imp_div_less nat_less_iff)
  ultimately show ?thesis using fmt_02x_byte [OF x]
    by (intro exI [of _ "nat ?x div 16"] exI [of _ "nat ?x mod 16"]) simp
qed

lemma enc_plain:
  "ascii s \<Longrightarrow> 0 \<le> pos \<Longrightarrow> pos + 13 * int (length s) < 269 \<Longrightarrow> length (enc pos s) = 2 * length s \<and> NUL \<notin> set (enc pos s)"
proof (induction s arbitrary: pos)
  case Nil
  then show ?case by simp
next
  case (Cons c s)
  have s: "ascii s" using Cons.prems(1) by (simp add: ascii_def)
  obtain a b where "fmt_02x (rot13 (signed_char c) XOR pos) = [hex_char a, hex_char b]" "a < 16" "b < 16"
    using enc_char [OF Cons.prems(1,2)] Cons.prems(3) by auto
  then show ?case using Cons.IH [OF s, of "pos + 13"] Cons.prems hex_char_plain(6) [of a] hex_char_plain(6) [of b] by auto
qed

lemma decrypt_enc:
  "ascii s \<Longrightarrow> 0 \<le> pos \<Longrightarrow> pos + 13 * int (length s) < 269 \<Longrightarrow> decrypt_loop (enc pos s) pos = Inr s"
proof (induction s arbitrary: pos)
  case Nil
  then show ?case by simp
next
  case (Cons c s)
  have s: "ascii s" using Cons.prems(1) by (simp add: ascii_def)
  obtain a b where f: "fmt_02x (rot13 (signed_char c) XOR pos) = [hex_char a, hex_char b]" "a < 16" "b < 16"
    "int (16 * a + b) = rot13 (signed_char c) XOR pos"
    using enc_char [OF Cons.prems(1,2)] Cons.prems(3) by auto
  have "16 * a + b < 256" using f(2,3) by linarith
  then have "int (16 * a + b) < 256" by linarith
  then have w: "sint (word_of_int (int (16 * a + b)) :: 32 word) = int (16 * a + b)"
    by (intro sint_of_int_small) simp_all
  have x: "(rot13 (signed_char c) XOR pos) XOR pos = rot13 (signed_char c)" by (simp add: xor.assoc)
  then show ?case
    using Cons.IH [OF s, of "pos + 13"] Cons.prems f strtol_two [of a b] w signed_char_ascii [OF Cons.prems(1)]
    by (simp add: x rot13_rot13 del: of_nat_add of_nat_mult)
qed

lemma crypt_loop_enc:
  assumes "ascii s" "0 \<le> pos" "pos + 13 * int (length s) < 269" "dst + 2 * length s < length buf"
  shows "\<exists>buf'. crypt_loop s pos buf dst = Some (buf', dst + 2 * length s) \<and> length buf' = length buf \<and>
    take (dst + 2 * length s) buf' = take dst buf @ enc pos s"
  using assms
proof (induction s arbitrary: pos buf dst)
  case Nil
  then show ?case by simp
next
  case (Cons c s)
  have s: "ascii s" using Cons.prems(1) by (simp add: ascii_def)
  define f where "f = fmt_02x (rot13 (signed_char c) XOR pos)"
  have f: "length f = 2" using enc_char [OF Cons.prems(1,2)] Cons.prems(3) by (auto simp: f_def)
  define buf1 where "buf1 = take dst buf @ f @ NUL # drop (dst + length f + 1) buf"
  have p: "put_str buf dst f = Some buf1" "length buf1 = length buf"
    using Cons.prems(4) f by (simp_all add: put_str_def buf1_def)
  obtain buf' where "crypt_loop s (pos + 13) buf1 (dst + 2) = Some (buf', dst + 2 + 2 * length s)" "length buf' = length buf1"
    "take (dst + 2 + 2 * length s) buf' = take (dst + 2) buf1 @ enc (pos + 13) s"
    using Cons.IH [OF s, of "pos + 13" "dst + 2" buf1] Cons.prems p(2) by auto
  moreover have "take (dst + 2) buf1 = take dst buf @ f" using Cons.prems(4) f by (simp add: buf1_def)
  ultimately show ?case using p by (intro exI [of _ buf']) (simp add: f_def [symmetric] Let_def add.assoc)
qed

text \<open>The last character of a long password prints three digits, which overrun the buffer.\<close>

lemma crypt_loop_overrun:
  assumes "ascii s" "s \<noteq> []" "0 \<le> pos" "256 \<le> pos + 13 * (int (length s) - 1)" "pos + 13 * int (length s) < 2 ^ 30"
    and "length buf \<le> dst + 2 * length s + 1"
  shows "crypt_loop s pos buf dst = None"
  using assms
proof (induction s arbitrary: pos buf dst)
  case Nil
  then show ?case by simp
next
  case (Cons c s)
  let ?x = "rot13 (signed_char c) XOR pos"
  show ?case
  proof (cases "s = []")
    case True
    then have pos: "256 \<le> pos" "pos < 2 ^ 30" using Cons.prems by simp_all
    have a: "isascii (rot13 (signed_char c))" using signed_char_ascii [OF Cons.prems(1)] rot13_ascii by blast
    then have "256 \<le> ?x" using xor_large [of "rot13 (signed_char c)" pos] pos by (simp add: isascii_def)
    moreover have "?x < 2 ^ 31"
    proof -
      have "take_bit 30 ?x = ?x"
        using a pos by (simp add: take_bit_xor take_bit_int_eq_self isascii_def)
      moreover have "take_bit 30 ?x < 2 ^ 30" by (rule take_bit_int_less_exp)
      ultimately show ?thesis by simp
    qed
    ultimately have "3 \<le> length (fmt_02x ?x)" by (rule fmt_02x_large)
    then show ?thesis using Cons.prems(6) True by (simp add: put_str_def)
  next
    case False
    have s: "ascii s" using Cons.prems(1) by (simp add: ascii_def)
    show ?thesis
    proof (cases "put_str buf dst (fmt_02x ?x)")
      case None
      then show ?thesis by (simp add: Let_def)
    next
      case (Some b)
      then have "length b = length buf" by (auto simp: put_str_def split: if_splits)
      then have "crypt_loop s (pos + 13) b (dst + 2) = None"
        using Cons.prems False by (intro Cons.IH [OF s]) (auto simp: algebra_simps)
      then show ?thesis using Some by (simp add: Let_def)
    qed
  qed
qed

text \<open>
  C12. The encryption of passwords: for a password of up to 18 ASCII characters what smb_simplecrypt returns is
  decrypted to the password by smb_simpledecrypt; for a longer one the numbers exceed two digits and
  smb_simplecrypt writes behind the end of the buffer it allocates.
\<close>

theorem smb_crypt_roundtrip:
  assumes "ascii s" "length s < 2 ^ 26"
  shows "if length s \<le> 18
    then \<exists>b. smb_simplecrypt None s = Some b \<and> smb_simpledecrypt (cstr_at b 0) = Inr s
    else smb_simplecrypt None s = None"
proof -
  define n where "n = length s"
  define b0 where "b0 = (((replicate (4 + 2 * n) NUL)[0 := CHR ''$''])[1 := CHR ''$''])[2 := CHR ''1'']"
  have b0: "length b0 = 4 + 2 * n" "take 3 b0 = ''$$1''"
    by (simp_all add: b0_def numeral_eq_Suc)
  have c: "smb_simplecrypt None s = Option.bind (crypt_loop s 27 b0 3) (\<lambda>(buf, dst). wr buf dst NUL)"
    by (simp add: smb_simplecrypt_def Let_def wr_def b0_def n_def)
  show ?thesis
  proof (cases "n \<le> 18")
    case True
    then have k: "27 + 13 * int (length s) < 269" by (simp add: n_def)
    obtain b1 where b1: "crypt_loop s 27 b0 3 = Some (b1, 3 + 2 * n)" "length b1 = length b0"
      "take (3 + 2 * n) b1 = ''$$1'' @ enc 27 s"
      using crypt_loop_enc [OF assms(1) _ k, of 3 b0] b0 by (auto simp: n_def)
    define b where "b = b1[3 + 2 * n := NUL]"
    have "b = take (3 + 2 * n) b1 @ NUL # drop (4 + 2 * n) b1"
      unfolding b_def using b1(2) b0(1) by (simp add: upd_conv_take_nth_drop)
    then have "b = [] @ (''$$1'' @ enc 27 s) @ NUL # drop (4 + 2 * n) b1" unfolding b1(3) by simp
    then have "cstr_at b 0 = ''$$1'' @ enc 27 s"
      using cstr_at_app [of "''$$1'' @ enc 27 s" "[]"] enc_plain [OF assms(1) _ k] by simp
    then have "smb_simpledecrypt (cstr_at b 0) = Inr s"
      using decrypt_enc [OF assms(1) _ k] enc_plain [OF assms(1) _ k] by (simp add: smb_simpledecrypt_def)
    then show ?thesis using True c b1(1,2) b0(1) by (simp add: n_def [symmetric] wr_def b_def [symmetric])
  next
    case False
    then have "crypt_loop s 27 b0 3 = None"
      using assms b0(1) by (intro crypt_loop_overrun) (auto simp: n_def)
    then show ?thesis using False c by (simp add: n_def)
  qed
qed

lemma smb_crypt_roundtrip_witness:
  "(\<exists>b. smb_simplecrypt None ''Secret1'' = Some b \<and> smb_simpledecrypt (cstr_at b 0) = Inr ''Secret1'') \<and>
   smb_simplecrypt None (replicate 19 CHR ''a'') = None"
  using smb_crypt_roundtrip [of "''Secret1''"] smb_crypt_roundtrip [of "replicate 19 CHR ''a''"]
  by (simp add: ascii_def)

end
