(* ===== verification/NB_Name.thy ===== *)
theory NB_Name
  imports FSU_Prelude
begin

text \<open>
  NetBIOS names (\<open>src/lib/smb/nb_name.c\<close>): their length, their first-level encoding into a buffer, and the
  building of an address. A buffer has checked accesses; the address is the buffer of the encoded name
  together with the length that was allocated. The host is little-endian.
\<close>

abbreviation "NB_NAMELEN \<equiv> (16 :: nat)"
abbreviation "NB_ENCNAMELEN \<equiv> (32 :: nat)"
abbreviation "NB_MAXLABLEN \<equiv> (63 :: nat)"
abbreviation "EPROTONOSUPPORT \<equiv> (93 :: errno)"
abbreviation "AF_INET \<equiv> (2 :: nat)"
abbreviation "AF_IPX \<equiv> (4 :: nat)"

record nb_name =
  nn_type :: nat
  nn_name :: string
  nn_scope :: "string option"

definition chr :: "nat \<Rightarrow> char" where
  "chr n = char_of n"

definition ord :: "char \<Rightarrow> nat" where
  "ord c = of_char c"

definition toupper :: "char \<Rightarrow> char" where
  "toupper c = (if 97 \<le> ord c \<and> ord c \<le> 122 then chr (ord c - 32) else c)"

section \<open>Lengths\<close>

fun scope_len :: "nat \<Rightarrow> nat \<Rightarrow> string \<Rightarrow> nat" where
  "scope_len len sclen [] = len"
| "scope_len len sclen (c # cs) =
     (if c = CHR ''.'' then scope_len len 0 cs
      else if sclen < NB_MAXLABLEN then scope_len (Suc len) (Suc sclen) cs
      else scope_len len sclen cs)"

definition nb_name_len :: "nb_name \<Rightarrow> nat" where
  "nb_name_len np =
     (let len = 1 + NB_ENCNAMELEN in
      case nn_scope np of None \<Rightarrow> len + 1 | Some scope \<Rightarrow> scope_len len 0 scope + 1)"

text \<open>The length of an encoded name, label by label.\<close>

function encname_loop :: "cbuffer \<Rightarrow> nat \<Rightarrow> nat \<Rightarrow> nat option" where
  "encname_loop b cp len =
     (if cp < length b
      then (let blen = ord (b ! cp) in if blen = 0 then Some len else encname_loop b (cp + (blen + 1)) (len + (blen + 1)))
      else None)"
  by pat_completeness auto
termination
  by (relation "measure (\<lambda>(b, cp, len). length b - cp)") auto

declare encname_loop.simps [simp del]

definition nb_encname_len :: "cbuffer \<Rightarrow> int option" where
  "nb_encname_len b =
     do { c \<leftarrow> rd b 0;
          if ord c div 64 = 3 then Some (-1) else map_option int (encname_loop b 0 1) }"

section \<open>Encoding\<close>

text \<open>The two bytes of \<open>NBENCODE(c)\<close> in memory.\<close>

definition NBENCODE :: "nat \<Rightarrow> string" where
  "NBENCODE c = [chr ((c mod 256) div 16 + 0x41), chr (c mod 16 + 0x41)]"

text \<open>\<open>memcpy\<close> into the buffer.\<close>

definition put_bytes :: "cbuffer \<Rightarrow> nat \<Rightarrow> string \<Rightarrow> cbuffer option" where
  "put_bytes b i s = (if i + length s \<le> length b then Some (take i b @ s @ drop (i + length s) b) else None)"

fun memsetw :: "cbuffer \<Rightarrow> nat \<Rightarrow> nat \<Rightarrow> string \<Rightarrow> cbuffer option" where
  "memsetw b dst 0 word = Some b"
| "memsetw b dst (Suc n) word = do { b \<leftarrow> put_bytes b dst word; memsetw b (dst + 2) n word }"

text \<open>The loop over the name: the buffer, \<open>cp\<close> and \<open>i\<close>.\<close>

fun name_loop :: "cbuffer \<Rightarrow> nat \<Rightarrow> nat \<Rightarrow> string \<Rightarrow> (cbuffer \<times> nat \<times> nat) option" where
  "name_loop b cp i [] = Some (b, cp, i)"
| "name_loop b cp i (c # cs) =
     (if i < NB_NAMELEN - 1
      then do { b \<leftarrow> put_bytes b cp (NBENCODE (ord (toupper c))); name_loop b (cp + 2) (Suc i) cs }
      else Some (b, cp, i))"

text \<open>The loop over the scope, which is followed by its NUL.\<close>

fun scope_loop :: "cbuffer \<Rightarrow> nat \<Rightarrow> nat \<Rightarrow> nat \<Rightarrow> string \<Rightarrow> cbuffer option" where
  "scope_loop b plen cp lblen [] =
     do { b \<leftarrow> wr b plen (chr lblen); wr b cp NUL }"
| "scope_loop b plen cp lblen (c # cs) =
     (if c = CHR ''.''
      then do { b \<leftarrow> wr b plen (chr lblen); b \<leftarrow> wr b cp NUL; scope_loop b cp (Suc cp) lblen cs }
      else if lblen < NB_MAXLABLEN
      then do { b \<leftarrow> wr b cp c; scope_loop b plen (Suc cp) (Suc lblen) cs }
      else scope_loop b plen cp lblen cs)"

text \<open>The name, padded, and its type: the buffer and \<open>cp\<close> behind them.\<close>

definition plain_name :: "nb_name \<Rightarrow> cbuffer \<Rightarrow> (cbuffer \<times> nat) option" where
  "plain_name np b =
     do { (b, cp, i) \<leftarrow> name_loop b 1 0 (nn_name np);
          let n = NB_NAMELEN - i - 1;
          (b, cp) \<leftarrow> (if n > 0
                      then do { b \<leftarrow> memsetw b cp n (NBENCODE (ord CHR '' '')); Some (b, cp + n * 2) }
                      else Some (b, cp));
          b \<leftarrow> put_bytes b cp (NBENCODE (nn_type np));
          Some (b, cp + 2) }"

definition nb_name_encode :: "nb_name \<Rightarrow> cbuffer \<Rightarrow> (int \<times> cbuffer) option" where
  "nb_name_encode np dst =
     do { b \<leftarrow> wr dst 0 (chr NB_ENCNAMELEN);
          (b, cp) \<leftarrow>
            (if nn_name np = ''*''
             then do { b \<leftarrow> put_bytes b 1 (NBENCODE (ord CHR ''*''));
                       b \<leftarrow> memsetw b 3 (NB_NAMELEN - 1) (NBENCODE (ord CHR '' ''));
                       Some (b, 1 + NB_ENCNAMELEN) }
             else plain_name np b);
          b \<leftarrow> wr b cp NUL;
          b \<leftarrow> (case nn_scope np of
                 None \<Rightarrow> Some b
               | Some scope \<Rightarrow> if scope = '''' then Some b else scope_loop b cp (Suc cp) 0 scope);
          n \<leftarrow> nb_encname_len b;
          Some (n, b) }"

section \<open>Addresses\<close>

text \<open>The peer is its address family and the rest of it; the name has the bytes that were allocated for it.\<close>

record sockaddr_nb =
  snb_len :: nat
  snb_tran :: "(nat \<times> string) option"
  snb_name :: cbuffer

definition nb_snballoc :: "nat \<Rightarrow> (nat \<Rightarrow> bool) \<Rightarrow> errno + sockaddr_nb" where
  "nb_snballoc namelen oom =
     (let slen = namelen + 18 in
      if oom slen then Inl ENOMEM
      else Inr \<lparr>snb_len = slen mod 256, snb_tran = None, snb_name = replicate namelen NUL\<rparr>)"

text \<open>
  \<open>translate\<close> is the translation of the peer. The two numbers are the length that was allocated and
  the one that was encoded; they should be the same, which the code checks with a message.
\<close>

definition nb_sockaddr ::
  "(nat \<times> string \<Rightarrow> nat \<times> string) \<Rightarrow> (nat \<Rightarrow> bool) \<Rightarrow> (nat \<times> string) option \<Rightarrow> nb_name \<Rightarrow>
     (errno + (nat \<times> int) \<times> sockaddr_nb) option"
where
  "nb_sockaddr translate oom peer np =
     (if (case peer of None \<Rightarrow> False | Some (family, _) \<Rightarrow> family \<noteq> AF_INET \<and> family \<noteq> AF_IPX)
      then Some (Inl EPROTONOSUPPORT)
      else
        (let nmlen = nb_name_len np in
         if nmlen < NB_ENCNAMELEN then Some (Inl EINVAL)
         else
           (case nb_snballoc nmlen oom of
              Inl e \<Rightarrow> Some (Inl e)
            | Inr snb \<Rightarrow>
                do { (n, b) \<leftarrow> nb_name_encode np (snb_name snb);
                     Some (Inr ((nmlen, n), snb\<lparr>snb_name := b, snb_tran := map_option translate peer\<rparr>)) })))"

section \<open>What is encoded\<close>

fun decode_pairs :: "string \<Rightarrow> string" where
  "decode_pairs (a # b # s) = chr ((ord a - 0x41) * 16 + (ord b - 0x41)) # decode_pairs s"
| "decode_pairs s = ''''"

text \<open>The sixteen characters a name stands for: upper case, padded with spaces, and the type.\<close>

definition canonical :: "nb_name \<Rightarrow> string" where
  "canonical np =
     (let n = take 15 (map toupper (nn_name np)) in n @ replicate (15 - length n) CHR '' '' @ [chr (nn_type np)])"

definition encoding :: "string \<Rightarrow> string" where
  "encoding s = concat (map (\<lambda>c. NBENCODE (ord c)) s)"

lemma ord_chr [simp]: "n < 256 \<Longrightarrow> ord (chr n) = n"
  by (simp add: ord_def chr_def)

lemma chr_ord [simp]: "chr (ord c) = c"
  by (simp add: ord_def chr_def)

lemma ord_less [simp]: "ord c < 256"
  by (simp add: ord_def)

lemma length_encoding [simp]: "length (encoding s) = 2 * length s"
  by (induction s) (simp_all add: encoding_def NBENCODE_def)

lemma encoding_append [simp]: "encoding (s @ t) = encoding s @ encoding t"
  by (simp add: encoding_def)

lemma encoding_Cons: "encoding (c # s) = NBENCODE (ord c) @ encoding s"
  by (simp add: encoding_def)

lemma decode_encoding: "decode_pairs (encoding s) = s"
proof (induction s)
  case Nil
  then show ?case by (simp add: encoding_def)
next
  case (Cons c s)
  have "ord c div 16 < 16" using ord_less [of c] by (simp add: less_mult_imp_div_less)
  then have "ord c div 16 + 65 < 256" "ord c mod 16 + 65 < 256" by (simp_all add: less_trans [OF mod_less_divisor])
  then show ?case using Cons by (simp add: encoding_Cons NBENCODE_def)
qed

lemma put_bytes_here:
  "length s \<le> length r \<Longrightarrow> put_bytes (p @ r) (length p) s = Some (p @ s @ drop (length s) r)"
  by (simp add: put_bytes_def)

lemma memsetw_here:
  "2 * n \<le> length r \<Longrightarrow> length w = 2 \<Longrightarrow>
    memsetw (p @ r) (length p) n w = Some (p @ concat (replicate n w) @ drop (2 * n) r)"
proof (induction n arbitrary: p r)
  case 0
  then show ?case by simp
next
  case (Suc n)
  have "memsetw ((p @ w) @ drop 2 r) (length (p @ w)) n w = Some ((p @ w) @ concat (replicate n w) @ drop (2 * n) (drop 2 r))"
    using Suc.prems by (intro Suc.IH) auto
  then show ?case using Suc.prems put_bytes_here [of w r p] by simp
qed

lemma name_loop_here:
  assumes "2 * (15 - i) \<le> length r"
  shows "name_loop (p @ r) (length p) i s =
    (let t = map toupper (take (15 - i) s) in
     Some (p @ encoding t @ drop (2 * length t) r, length p + 2 * length t, i + length t))"
  using assms
proof (induction s arbitrary: p r i)
  case Nil
  then show ?case by (simp add: encoding_def)
next
  case (Cons c s)
  show ?case
  proof (cases "i < 15")
    case True
    let ?e = "NBENCODE (ord (toupper c))"
    have e: "length ?e = 2" by (simp add: NBENCODE_def)
    have p: "put_bytes (p @ r) (length p) ?e = Some ((p @ ?e) @ drop 2 r)"
      using put_bytes_here [of ?e r p] Cons.prems True e by simp
    have "2 * (15 - Suc i) \<le> length (drop 2 r)" using Cons.prems True by simp
    note ih = Cons.IH [OF this, of "p @ ?e", simplified]
    have "15 - i = Suc (15 - Suc i)" using True by simp
    then show ?thesis using True p ih e by (simp add: encoding_Cons Let_def add.assoc)
  next
    case False
    then show ?thesis by (simp add: encoding_def)
  qed
qed

definition enc_name :: "nb_name \<Rightarrow> string" where
  "enc_name np = chr NB_ENCNAMELEN # encoding (canonical np)"

lemma length_canonical [simp]: "length (canonical np) = 16"
  by (simp add: canonical_def Let_def)

text \<open>The first part of the encoding, in a buffer that is long enough for it.\<close>

lemma encode_name:
  assumes "nn_name np \<noteq> ''*''" "nn_type np < 256" "length r = 33"
  shows "\<exists>b. wr (r @ r') 0 (chr NB_ENCNAMELEN) = Some b \<and> plain_name np b = Some (enc_name np @ r', 33)"
proof -
  define t where "t = map toupper (take 15 (nn_name np))"
  define q where "q = chr NB_ENCNAMELEN # encoding t"
  have t: "length t \<le> 15" by (simp add: t_def)
  obtain x xs where r: "r = x # xs" "length xs = 32" using assms(3) by (cases r) auto
  have w: "wr (r @ r') 0 (chr NB_ENCNAMELEN) = Some ([chr NB_ENCNAMELEN] @ (xs @ r'))" by (simp add: wr_def r)
  have n: "name_loop ([chr NB_ENCNAMELEN] @ (xs @ r')) 1 0 (nn_name np) =
      Some (q @ drop (2 * length t) (xs @ r'), length q, length t)"
    using name_loop_here [of 0 "xs @ r'" "[chr NB_ENCNAMELEN]" "nn_name np"] r(2)
    by (simp add: t_def q_def Let_def)
  let ?sp = "NBENCODE (ord CHR '' '')"
  define n where "n = 15 - length t"
  define q2 where "q2 = q @ encoding (replicate n CHR '' '')"
  have c: "concat (replicate n ?sp) = encoding (replicate n CHR '' '')" by (induction n) (simp_all add: encoding_def)
  have m: "memsetw (q @ drop (2 * length t) (xs @ r')) (length q) n ?sp = Some (q2 @ drop 30 (xs @ r'))"
  proof -
    have "length ?sp = 2" by (simp add: NBENCODE_def)
    moreover have n2: "2 * n + 2 * length t = 30" using t by (simp add: n_def)
    ultimately have "memsetw (q @ drop (2 * length t) (xs @ r')) (length q) n ?sp =
        Some (q @ encoding (replicate n CHR '' '') @ drop (2 * n + 2 * length t) (xs @ r'))"
      using memsetw_here [of n "drop (2 * length t) (xs @ r')" ?sp q] r(2) unfolding c drop_drop by simp
    then show ?thesis unfolding n2 q2_def by simp
  qed
  have q2: "length q2 = 31" using t by (simp add: q2_def q_def n_def)
  have d: "length (drop 30 xs) = 2" using r(2) by simp
  have e: "put_bytes (q2 @ drop 30 (xs @ r')) (length q2) (NBENCODE (nn_type np)) = Some (q2 @ NBENCODE (nn_type np) @ r')"
    using put_bytes_here [of "NBENCODE (nn_type np)" "drop 30 (xs @ r')" q2] r(2) by (simp add: NBENCODE_def)
  have "canonical np = t @ replicate n CHR '' '' @ [chr (nn_type np)]"
    by (simp add: canonical_def Let_def t_def n_def take_map)
  then have en: "enc_name np = q2 @ NBENCODE (nn_type np)"
    using assms(2) by (simp add: enc_name_def q2_def q_def encoding_Cons encoding_def)
  have a: "NB_NAMELEN - length t - 1 = n" "length q + n * 2 = length q2"
    using t q2 by (simp_all add: n_def q_def)
  have p: "plain_name np ([chr NB_ENCNAMELEN] @ (xs @ r')) = Some (enc_name np @ r', 33)"
  proof (cases "n > 0")
    case True
    then show ?thesis using m e q2 unfolding plain_name_def n bind.bind_lunit Let_def prod.case a en by simp
  next
    case False
    then have z: "n = 0" by simp
    then have "q2 @ drop 30 (xs @ r') = q @ drop (2 * length t) (xs @ r')"
      using t by (simp add: q2_def n_def encoding_def)
    then show ?thesis using e q2 a(2) z unfolding plain_name_def n bind.bind_lunit Let_def prod.case a(1) en by simp
  qed
  show ?thesis using w p by blast
qed

lemma encname_enc_name: "encname_loop (enc_name np @ NUL # r) 0 1 = Some 34"
proof -
  have l: "length (enc_name np) = 33" by (simp add: enc_name_def)
  have 0: "(enc_name np @ NUL # r) ! 0 = chr 32" by (simp add: enc_name_def)
  have 33: "(enc_name np @ NUL # r) ! 33 = NUL" using l by (simp add: nth_append)
  have z: "ord NUL = 0" by (simp add: ord_def)
  have "encname_loop (enc_name np @ NUL # r) 33 34 = Some 34"
    using l 33 z by (subst encname_loop.simps) simp
  then show ?thesis using l 0 by (subst encname_loop.simps) simp
qed

lemma nb_name_encode_eq:
  assumes "nn_name np \<noteq> ''*''" "nn_type np < 256" "length r = 33" "r' \<noteq> []"
  shows "nb_name_encode np (r @ r') =
    do { b \<leftarrow> (case nn_scope np of
            None \<Rightarrow> Some (enc_name np @ NUL # tl r')
          | Some scope \<Rightarrow> if scope = '''' then Some (enc_name np @ NUL # tl r')
                         else scope_loop (enc_name np @ NUL # tl r') 33 34 0 scope);
         n \<leftarrow> nb_encname_len b;
         Some (n, b) }"
proof -
  obtain x xs where r': "r' = x # xs" using assms(4) by (cases r') auto
  obtain b where b: "wr (r @ r') 0 (chr NB_ENCNAMELEN) = Some b" "plain_name np b = Some (enc_name np @ r', 33)"
    using encode_name [OF assms(1,2,3), of r'] by blast
  have w: "wr (enc_name np @ r') 33 NUL = Some (enc_name np @ NUL # tl r')"
    by (simp add: wr_def r' list_update_append enc_name_def)
  show ?thesis
    using assms(1) b w by (cases "nn_scope np") (simp_all add: nb_name_encode_def)
qed

lemma nb_encname_enc_name: "nb_encname_len (enc_name np @ NUL # r) = Some 34"
proof -
  have "rd (enc_name np @ NUL # r) 0 = Some (chr 32)" by (simp add: rd_def enc_name_def)
  then show ?thesis using encname_enc_name [of np r] by (simp add: nb_encname_len_def)
qed

text \<open>
  C13. NetBIOS addresses: for a name without a scope nb_sockaddr builds an address whose encoded name has exactly
  the length that nb_name_len computed and allocated, and decodes, two letters a character, to the first
  fifteen characters of the name in upper case, padded with spaces, and the type.
\<close>

theorem nb_sockaddr_name:
  assumes "nn_name np \<noteq> ''*''" "nn_type np < 256" "nn_scope np = None \<or> nn_scope np = Some ''''"
  shows "\<exists>snb. nb_sockaddr tr (\<lambda>_. False) None np = Some (Inr ((34, 34), snb)) \<and> length (snb_name snb) = 34 \<and>
    ord (hd (snb_name snb)) = NB_ENCNAMELEN \<and> decode_pairs (take NB_ENCNAMELEN (drop 1 (snb_name snb))) = canonical np \<and>
    last (snb_name snb) = NUL"
proof -
  have l: "nb_name_len np = 34" using assms(3) by (auto simp: nb_name_len_def)
  have rep: "replicate 34 NUL = replicate 33 NUL @ [NUL]" by (simp add: replicate_append_same flip: replicate_Suc)
  have e: "nb_name_encode np (replicate 33 NUL @ [NUL]) = Some (34, enc_name np @ [NUL])"
    using nb_name_encode_eq [OF assms(1,2), of "replicate 33 NUL" "[NUL]"] assms(3) nb_encname_enc_name [of np "[]"]
    by auto
  have "take NB_ENCNAMELEN (drop 1 (enc_name np @ [NUL])) = encoding (canonical np)"
    by (simp add: enc_name_def)
  then show ?thesis
    using e by (simp add: nb_sockaddr_def l nb_snballoc_def rep Let_def decode_encoding) (simp add: enc_name_def)
qed

text \<open>A scope of one label needs a byte more than nb_name_len counts.\<close>

lemma scope_loop_overrun:
  assumes "CHR ''.'' \<notin> set s" "length b \<le> cp + min (NB_MAXLABLEN - lblen) (length s)"
  shows "scope_loop b plen cp lblen s = None"
  using assms
proof (induction s arbitrary: b cp lblen)
  case Nil
  then show ?case by (cases "wr b plen (chr lblen)") (auto simp: wr_def split: if_splits)
next
  case (Cons c s)
  have c: "c \<noteq> CHR ''.''" "CHR ''.'' \<notin> set s" using Cons.prems(1) by auto
  show ?case
  proof (cases "lblen < NB_MAXLABLEN")
    case True
    show ?thesis
    proof (cases "wr b cp c")
      case None
      then show ?thesis using c True by simp
    next
      case (Some b1)
      then have "length b1 = length b" by (rule wr_length)
      then have "scope_loop b1 plen (Suc cp) (Suc lblen) s = None"
        using Cons.prems(2) True by (intro Cons.IH [OF c(2)]) auto
      then show ?thesis using c True Some by simp
    qed
  next
    case False
    then have "scope_loop b plen cp lblen s = None"
      using Cons.prems(2) by (intro Cons.IH [OF c(2)]) auto
    then show ?thesis using c False by simp
  qed
qed

lemma scope_len_label: "CHR ''.'' \<notin> set s \<Longrightarrow> scope_len len sclen s = len + min (NB_MAXLABLEN - sclen) (length s)"
  by (induction s arbitrary: len sclen) auto

text \<open>
  C38. The length of a scope is one too small: for every name with a scope of one label nb_sockaddr writes
  behind the end of the address it allocated.
\<close>

theorem nb_sockaddr_scope_overrun:
  assumes "nn_name np \<noteq> ''*''" "nn_type np < 256" "nn_scope np = Some s" "s \<noteq> ''''" "CHR ''.'' \<notin> set s"
  shows "nb_sockaddr tr (\<lambda>_. False) None np = None"
proof -
  define m where "m = min NB_MAXLABLEN (length s)"
  have l: "nb_name_len np = 34 + m" using assms(3) scope_len_label [OF assms(5), of 33 0] by (simp add: nb_name_len_def m_def)
  have "m > 0" using assms(4) by (simp add: m_def)
  have rep: "replicate (34 + m) NUL = replicate 33 NUL @ replicate (1 + m) NUL"
    by (simp only: replicate_add [symmetric]) simp
  have "scope_loop (enc_name np @ NUL # tl (replicate (1 + m) NUL)) 33 34 0 s = None"
    by (rule scope_loop_overrun [OF assms(5)]) (simp add: enc_name_def m_def)
  then have "nb_name_encode np (replicate (34 + m) NUL) = None"
    using nb_name_encode_eq [OF assms(1,2), of "replicate 33 NUL" "replicate (1 + m) NUL"] assms(3,4) unfolding rep by simp
  then show ?thesis by (simp add: nb_sockaddr_def l nb_snballoc_def Let_def)
qed

lemma nb_sockaddr_name_witness:
  "\<exists>snb. nb_sockaddr (\<lambda>x. x) (\<lambda>_. False) None \<lparr>nn_type = 32, nn_name = ''Srv'', nn_scope = None\<rparr> = Some (Inr ((34, 34), snb)) \<and>
    decode_pairs (take NB_ENCNAMELEN (drop 1 (snb_name snb))) = ''SRV            '' @ [chr 32]"
proof -
  have "canonical \<lparr>nn_type = 32, nn_name = ''Srv'', nn_scope = None\<rparr> = ''SRV            '' @ [chr 32]"
    by code_simp
  then show ?thesis
    using nb_sockaddr_name [of "\<lparr>nn_type = 32, nn_name = ''Srv'', nn_scope = None\<rparr>" "\<lambda>x. x"] by auto
qed

lemma nb_sockaddr_scope_overrun_witness:
  "nb_sockaddr (\<lambda>x. x) (\<lambda>_. False) None \<lparr>nn_type = 32, nn_name = ''SRV'', nn_scope = Some ''net''\<rparr> = None"
  using nb_sockaddr_scope_overrun [of "\<lparr>nn_type = 32, nn_name = ''SRV'', nn_scope = Some ''net''\<rparr>" "''net''" "\<lambda>x. x"] by simp

end
