(* ===== verification/Spec2Isabelle.thy ===== *)
theory Spec2Isabelle
  imports Str2arg Setmode Pack_Dev FSU_File FTS_Cycle Find_Exec Mbuf SMB_Subr NB_Name
begin

text \<open>
  A verification development for fs-utils.
\<close>

end
